(* ===== verification/KPrelude.thy ===== *)
theory KPrelude
  imports Main "HOL-Library.Word" "HOL-Library.Multiset"
begin

text \<open>
  The prelude of the development: the C types of the 32-bit ARM kernel, the error codes,
  the collections of rewrite rules and the facts on lists, folds and words that several
  components use.

  Conventions shared by all theories.
  \<^item> A C identifier keeps its name; a leading \<open>__\<close>, which HOL does not allow, is
    written \<open>uu_\<close> (\<open>__kfifo_put\<close> is \<open>uu_kfifo_put\<close>).
  \<^item> \<open>unsigned long\<close> and \<open>unsigned int\<close> values whose bits or wrap-around matter are
    \<open>32 word\<close>; sizes, indices and counters that the code keeps non-negative and within
    range are \<open>nat\<close>; an \<open>int\<close> that the code compares with 0 is \<open>int\<close>.
  \<^item> A pointer to an array of words that a routine reads or writes is the function from
    word offsets to words, so that a read or a write beyond the intended range stays
    visible in the model.
  \<^item> A \<open>for\<close> loop without an early exit is a \<open>fold\<close> over its index range, one that
    leaves early is \<open>list_ex\<close>, \<open>list_all\<close> or a recursive function.
  \<^item> A negative errno return is \<open>Inl\<close> of the code, a successful one \<open>Inr\<close>.
\<close>

unbundle bit_operations_syntax

section \<open>Types\<close>

type_synonym u8 = "8 word"
type_synonym u16 = "16 word"
type_synonym u32 = "32 word"
type_synonym u64 = "64 word"
type_synonym ulong = "32 word"

datatype errno =
    EPERM | ENOENT | ESRCH | EINTR | EIO | E2BIG | EAGAIN | ENOMEM | EACCES | EFAULT | EBUSY
  | EEXIST | ENODEV | EINVAL | ENOSPC | ERANGE | EOVERFLOW | ETIME | EIDRM | ENOMSG

section \<open>Collections of rewrite rules\<close>

named_theorems mask_simps \<open>C mask expressions as bit predicates\<close>
named_theorems kdefs \<open>definitions a component unfolds by default\<close>

section \<open>Lists and folds\<close>

text \<open>The first index of a range that satisfies a predicate, or the given default: the
  reference definition of every linear search of the kernel.\<close>

definition first_in :: "(nat \<Rightarrow> bool) \<Rightarrow> nat \<Rightarrow> nat \<Rightarrow> nat" where
  "first_in P a b = (case List.find P [a..<b] of Some i \<Rightarrow> i | None \<Rightarrow> b)"

lemma first_in_empty [simp]: "b \<le> a \<Longrightarrow> first_in P a b = b"
  by (simp add: first_in_def)

lemma first_in_unfold:
  "a < b \<Longrightarrow> first_in P a b = (if P a then a else first_in P (Suc a) b)"
  by (simp add: first_in_def upt_rec [of a])

lemma first_in_le: "first_in P a b \<le> b"
  by (auto simp: first_in_def find_Some_iff split: option.split)

lemma first_in_ge: "a \<le> b \<Longrightarrow> a \<le> first_in P a b"
  by (auto simp: first_in_def find_Some_iff split: option.split)

lemma first_in_hit: "first_in P a b < b \<Longrightarrow> P (first_in P a b)"
  by (cases "List.find P [a..<b]") (auto simp: first_in_def dest: find_Some_iff [THEN iffD1])

lemma first_in_miss: "a \<le> i \<Longrightarrow> i < first_in P a b \<Longrightarrow> \<not> P i"
proof (induction "b - a" arbitrary: a)
  case 0
  then show ?case by (simp add: first_in_def)
next
  case (Suc n)
  then have "a < b" by simp
  then show ?case
    using Suc.prems Suc.hyps(1) [of "Suc a"] Suc.hyps(2)
    by (cases "a = i") (auto simp: first_in_unfold split: if_splits)
qed

lemma first_in_eqI:
  assumes "a \<le> r" "r \<le> b" "\<And>i. a \<le> i \<Longrightarrow> i < r \<Longrightarrow> \<not> P i" "r < b \<Longrightarrow> P r"
  shows "first_in P a b = r"
proof -
  have le: "first_in P a b \<le> b" and ge: "a \<le> first_in P a b"
    using assms(1,2) by (auto simp: first_in_le intro: first_in_ge)
  show ?thesis
  proof (cases "first_in P a b" r rule: linorder_cases)
    case less
    with assms ge first_in_hit [of P a b] show ?thesis by auto
  next
    case greater
    with le assms(1,4) first_in_miss [of a r P b] show ?thesis by auto
  qed
qed

lemma first_in_cong:
  "(\<And>i. a \<le> i \<Longrightarrow> i < b \<Longrightarrow> P i = Q i) \<Longrightarrow> first_in P a b = first_in Q a b"
  using find_cong [of "[a..<b]" "[a..<b]" P Q] by (simp add: first_in_def)

text \<open>Joining two adjacent searches.\<close>

lemma first_in_append:
  assumes "a \<le> m" "m \<le> b"
  shows "first_in P a b = (if first_in P a m < m then first_in P a m else first_in P m b)"
proof (cases "first_in P a m < m")
  case True
  then have "P (first_in P a m)" by (rule first_in_hit)
  then have "first_in P a b = first_in P a m"
    using assms True first_in_miss [of a _ P m] first_in_ge [of a m P]
    by (intro first_in_eqI) auto
  with True show ?thesis by simp
next
  case False
  then have no: "\<not> P i" if "a \<le> i" "i < m" for i
    using that first_in_miss [of a i P m] by auto
  have "\<not> P i" if "a \<le> i" "i < first_in P m b" for i
    using that no first_in_miss [of m i P b] by (cases "i < m") auto
  then have "first_in P a b = first_in P m b"
    using assms first_in_ge [of m b P] first_in_le [of P m b] first_in_hit [of P m b]
    by (intro first_in_eqI) auto
  with False show ?thesis by simp
qed

text \<open>A loop that writes one array element per step, as a pointwise equation.\<close>

lemma fold_fun_upd_upt:
  "fold (\<lambda>k d. d(k := f k)) [a..<b] d0 j = (if a \<le> j \<and> j < b then f j else d0 j)"
proof (induction b)
  case (Suc b)
  then show ?case by (cases "a \<le> b") (auto simp: less_Suc_eq)
qed simp

text \<open>The same for a loop whose body also reads the array it writes: an ascending loop that
  reads only elements not yet written, and a descending one.\<close>

lemma fold_upd_asc:
  assumes "\<And>k d d'. (\<And>i. k \<le> i \<Longrightarrow> d i = d' i) \<Longrightarrow> g k d = g k d'"
  shows "fold (\<lambda>k d. d(k := g k d)) [0..<n] d0 j = (if j < n then g j d0 else d0 j)"
proof -
  define F where "F = (\<lambda>k d. d(k := g k d))"
  have "fold F [0..<n] d0 j = (if j < n then g j d0 else d0 j)"
  proof (induction n arbitrary: j)
    case (Suc n)
    have "g n (fold F [0..<n] d0) = g n d0" by (rule assms) (simp add: Suc)
    then have "fold F [0..<Suc n] d0 = (fold F [0..<n] d0)(n := g n d0)" by (simp add: F_def)
    with Suc [of j] show ?case by (simp add: less_Suc_eq)
  qed simp
  then show ?thesis by (simp add: F_def)
qed

lemma fold_upd_desc:
  assumes "\<And>k d d'. (\<And>i. i \<le> k + off \<Longrightarrow> d i = d' i) \<Longrightarrow> g k d = g k d'"
  shows "fold (\<lambda>k d. d(k + off := g k d)) (rev [0..<n]) d0 j =
         (if off \<le> j \<and> j < n + off then g (j - off) d0 else d0 j)"
proof -
  define F where "F = (\<lambda>k d. d(k + off := g k d))"
  have "fold F (rev [0..<n]) d0 j = (if off \<le> j \<and> j < n + off then g (j - off) d0 else d0 j)"
  proof (induction n arbitrary: d0 j)
    case (Suc n)
    have eq: "g k (d0(n + off := v)) = g k d0" if "k < n" for k v
      by (rule assms) (use that in simp)
    have "fold F (rev [0..<Suc n]) d0 = fold F (rev [0..<n]) (d0(n + off := g n d0))"
      by (simp add: F_def)
    then have "fold F (rev [0..<Suc n]) d0 j =
        (if off \<le> j \<and> j < n + off then g (j - off) (d0(n + off := g n d0))
         else (d0(n + off := g n d0)) j)"
      by (simp only: Suc)
    moreover have "g (j - off) (d0(n + off := g n d0)) = g (j - off) d0"
      if "off \<le> j" "j < n + off" using that by (intro eq) arith
    ultimately show ?case by (cases "j = n + off") auto
  qed auto
  then show ?thesis by (simp add: F_def)
qed

end
