(* ===== verification/BitOps.thy ===== *)
theory BitOps
  imports KPrelude
begin

text \<open>
  Bit operations on one machine word and on arrays of words: \<open>include/linux/bitops.h\<close>,
  \<open>include/asm-generic/bitops/\<close> (\<open>__ffs\<close>, \<open>__fls\<close>, \<open>fls\<close>, \<open>ffs\<close>,
  \<open>ffz\<close>, the non-atomic bit operations) and \<open>lib/hweight.c\<close>. A bitmap is the memory
  behind an \<open>unsigned long *\<close>: a function from word offsets to words.
\<close>

type_synonym bitmap = "nat \<Rightarrow> ulong"

section \<open>Bits of a word array\<close>

definition BITS_PER_LONG :: nat where
  [simp]: "BITS_PER_LONG = 32"

definition BITS_TO_LONGS :: "nat \<Rightarrow> nat" where
  "BITS_TO_LONGS nr = (nr + 32 - 1) div 32"

definition BIT_MASK :: "nat \<Rightarrow> ulong" where
  "BIT_MASK nr = push_bit (nr mod BITS_PER_LONG) 1"

definition BIT_WORD :: "nat \<Rightarrow> nat" where
  "BIT_WORD nr = nr div BITS_PER_LONG"

definition uu_set_bit :: "nat \<Rightarrow> bitmap \<Rightarrow> bitmap" where
  "uu_set_bit nr addr =
     (let mask = BIT_MASK nr; p = BIT_WORD nr in addr(p := addr p OR mask))"

definition uu_clear_bit :: "nat \<Rightarrow> bitmap \<Rightarrow> bitmap" where
  "uu_clear_bit nr addr =
     (let mask = BIT_MASK nr; p = BIT_WORD nr in addr(p := addr p AND NOT mask))"

definition uu_change_bit :: "nat \<Rightarrow> bitmap \<Rightarrow> bitmap" where
  "uu_change_bit nr addr =
     (let mask = BIT_MASK nr; p = BIT_WORD nr in addr(p := addr p XOR mask))"

definition uu_test_and_set_bit :: "nat \<Rightarrow> bitmap \<Rightarrow> bool \<times> bitmap" where
  "uu_test_and_set_bit nr addr =
     (let mask = BIT_MASK nr; p = BIT_WORD nr; old = addr p
      in (old AND mask \<noteq> 0, addr(p := old OR mask)))"

definition uu_test_and_clear_bit :: "nat \<Rightarrow> bitmap \<Rightarrow> bool \<times> bitmap" where
  "uu_test_and_clear_bit nr addr =
     (let mask = BIT_MASK nr; p = BIT_WORD nr; old = addr p
      in (old AND mask \<noteq> 0, addr(p := old AND NOT mask)))"

definition uu_test_and_change_bit :: "nat \<Rightarrow> bitmap \<Rightarrow> bool \<times> bitmap" where
  "uu_test_and_change_bit nr addr =
     (let mask = BIT_MASK nr; p = BIT_WORD nr; old = addr p
      in (old AND mask \<noteq> 0, addr(p := old XOR mask)))"

definition test_bit :: "nat \<Rightarrow> bitmap \<Rightarrow> bool" where
  "test_bit nr addr = (1 AND drop_bit (nr mod BITS_PER_LONG) (addr (BIT_WORD nr)) \<noteq> 0)"

section \<open>Searching one word\<close>

definition uu_ffs :: "ulong \<Rightarrow> nat" where
  "uu_ffs word =
     (let num = 0;
          (num, word) = (if word AND 0xffff = 0 then (num + 16, drop_bit 16 word) else (num, word));
          (num, word) = (if word AND 0xff = 0 then (num + 8, drop_bit 8 word) else (num, word));
          (num, word) = (if word AND 0xf = 0 then (num + 4, drop_bit 4 word) else (num, word));
          (num, word) = (if word AND 0x3 = 0 then (num + 2, drop_bit 2 word) else (num, word))
      in if word AND 0x1 = 0 then num + 1 else num)"

definition ffz :: "ulong \<Rightarrow> nat" where
  "ffz x = uu_ffs (NOT x)"

definition ffs :: "u32 \<Rightarrow> nat" where
  "ffs x =
     (let r = 1 in
      if x = 0 then 0
      else
        let (r, x) = (if x AND 0xffff = 0 then (r + 16, drop_bit 16 x) else (r, x));
            (r, x) = (if x AND 0xff = 0 then (r + 8, drop_bit 8 x) else (r, x));
            (r, x) = (if x AND 0xf = 0 then (r + 4, drop_bit 4 x) else (r, x));
            (r, x) = (if x AND 3 = 0 then (r + 2, drop_bit 2 x) else (r, x));
            (r, x) = (if x AND 1 = 0 then (r + 1, drop_bit 1 x) else (r, x))
        in r)"

definition fls :: "u32 \<Rightarrow> nat" where
  "fls x =
     (let r = 32 in
      if x = 0 then 0
      else
        let (x, r) = (if x AND 0xffff0000 = 0 then (push_bit 16 x, r - 16) else (x, r));
            (x, r) = (if x AND 0xff000000 = 0 then (push_bit 8 x, r - 8) else (x, r));
            (x, r) = (if x AND 0xf0000000 = 0 then (push_bit 4 x, r - 4) else (x, r));
            (x, r) = (if x AND 0xc0000000 = 0 then (push_bit 2 x, r - 2) else (x, r));
            (x, r) = (if x AND 0x80000000 = 0 then (push_bit 1 x, r - 1) else (x, r))
        in r)"

definition uu_fls :: "ulong \<Rightarrow> nat" where
  "uu_fls word =
     (let num = BITS_PER_LONG - 1;
          (num, word) = (if word AND push_bit (BITS_PER_LONG - 16) (- 1) = 0
                         then (num - 16, push_bit 16 word) else (num, word));
          (num, word) = (if word AND push_bit (BITS_PER_LONG - 8) (- 1) = 0
                         then (num - 8, push_bit 8 word) else (num, word));
          (num, word) = (if word AND push_bit (BITS_PER_LONG - 4) (- 1) = 0
                         then (num - 4, push_bit 4 word) else (num, word));
          (num, word) = (if word AND push_bit (BITS_PER_LONG - 2) (- 1) = 0
                         then (num - 2, push_bit 2 word) else (num, word))
      in if word AND push_bit (BITS_PER_LONG - 1) (- 1) = 0 then num - 1 else num)"

section \<open>Hamming weights\<close>

definition hweight32 :: "u32 \<Rightarrow> u32" where
  "hweight32 w =
     (let res = w - (drop_bit 1 w AND 0x55555555);
          res = (res AND 0x33333333) + (drop_bit 2 res AND 0x33333333);
          res = (res + drop_bit 4 res) AND 0x0F0F0F0F;
          res = res + drop_bit 8 res
      in (res + drop_bit 16 res) AND 0x000000FF)"

definition hweight16 :: "u32 \<Rightarrow> u32" where
  "hweight16 w =
     (let res = w - (drop_bit 1 w AND 0x5555);
          res = (res AND 0x3333) + (drop_bit 2 res AND 0x3333);
          res = (res + drop_bit 4 res) AND 0x0F0F
      in (res + drop_bit 8 res) AND 0x00FF)"

definition hweight8 :: "u32 \<Rightarrow> u32" where
  "hweight8 w =
     (let res = w - (drop_bit 1 w AND 0x55);
          res = (res AND 0x33) + (drop_bit 2 res AND 0x33)
      in (res + drop_bit 4 res) AND 0x0F)"

definition hweight64 :: "u64 \<Rightarrow> u32" where
  "hweight64 w = hweight32 (ucast (drop_bit 32 w)) + hweight32 (ucast w)"

definition hweight_long :: "ulong \<Rightarrow> ulong" where
  "hweight_long w = hweight32 w"

section \<open>Facts on masks\<close>

lemma bit_BIT_MASK [simp]: "bit (BIT_MASK nr) i \<longleftrightarrow> i = nr mod 32"
  by (auto simp: BIT_MASK_def bit_simps)

lemma word_eq_0_iff_bits: "(x :: 32 word) = 0 \<longleftrightarrow> (\<forall>i < 32. \<not> bit x i)"
  using bit_word_eqI [of x 0] by auto

lemma bit32D: "bit (x :: 32 word) i \<Longrightarrow> i < 32"
  using bit_imp_le_length [of x i] by simp

lemma and_BIT_MASK_eq_0: "x AND BIT_MASK nr = 0 \<longleftrightarrow> \<not> bit x (nr mod 32)"
  by (simp add: word_eq_0_iff_bits bit_and_iff) (metis bit32D)

lemma test_bit_iff: "test_bit nr addr \<longleftrightarrow> bit (addr (nr div 32)) (nr mod 32)"
  by (simp add: test_bit_def BIT_WORD_def bit_iff_odd_drop_bit and.commute [of 1] and_one_eq
      odd_iff_mod_2_eq_one)

lemma shift_mask_eq [mask_simps]: "push_bit n (1 :: 32 word) - 1 = mask n"
  by (simp add: mask_eq_exp_minus_1)

lemma ones_shl_bit [mask_simps]:
  "bit (push_bit n (- 1 :: 32 word)) i \<longleftrightarrow> n \<le> i \<and> i < 32"
  by (auto simp: bit_simps)

lemma ones_shr_eq [mask_simps]: "k \<le> 32 \<Longrightarrow> drop_bit (32 - k) (- 1 :: 32 word) = mask k"
  by (rule bit_word_eqI) (auto simp: bit_simps)

lemma and_mask_eq_0: "(x :: 32 word) AND mask k = 0 \<longleftrightarrow> (\<forall>i < k. \<not> bit x i)"
  by (simp add: word_eq_0_iff_bits bit_simps) (metis bit32D)

lemma and_high_eq_0:
  "(x :: 32 word) AND push_bit k (- 1) = 0 \<longleftrightarrow> (\<forall>i \<ge> k. \<not> bit x i)"
  by (simp add: word_eq_0_iff_bits bit_simps) (metis bit32D leD leI)

text \<open>The bit array after each single-bit update, for every index.\<close>

lemma bit_index_eq: "a div 32 = b div 32 \<Longrightarrow> a mod 32 = b mod 32 \<Longrightarrow> a = (b :: nat)"
  by (metis div_mult_mod_eq)

lemma test_set_bit [simp]: "test_bit i (uu_set_bit nr addr) \<longleftrightarrow> i = nr \<or> test_bit i addr"
  by (auto simp: test_bit_iff uu_set_bit_def Let_def BIT_WORD_def bit_or_iff dest: bit_index_eq)

lemma test_clear_bit [simp]:
  "test_bit i (uu_clear_bit nr addr) \<longleftrightarrow> i \<noteq> nr \<and> test_bit i addr"
  by (auto simp: test_bit_iff uu_clear_bit_def Let_def BIT_WORD_def bit_simps dest: bit_index_eq)

lemma test_change_bit [simp]:
  "test_bit i (uu_change_bit nr addr) \<longleftrightarrow> (i = nr) \<noteq> test_bit i addr"
  by (auto simp: test_bit_iff uu_change_bit_def Let_def BIT_WORD_def bit_xor_iff
      dest: bit_index_eq)

lemma test_and_ops_eq:
  "uu_test_and_set_bit nr addr = (test_bit nr addr, uu_set_bit nr addr)"
  "uu_test_and_clear_bit nr addr = (test_bit nr addr, uu_clear_bit nr addr)"
  "uu_test_and_change_bit nr addr = (test_bit nr addr, uu_change_bit nr addr)"
  by (simp_all add: uu_test_and_set_bit_def uu_set_bit_def uu_test_and_clear_bit_def
      uu_clear_bit_def uu_test_and_change_bit_def uu_change_bit_def Let_def test_bit_iff
      and_BIT_MASK_eq_0 BIT_WORD_def)

section \<open>Binary search for the lowest and the highest set bit\<close>

text \<open>One halving step of \<open>__ffs\<close> keeps the distance to the lowest set bit.\<close>

definition lowest_at :: "ulong \<Rightarrow> nat \<Rightarrow> bool" where
  "lowest_at w n \<longleftrightarrow> bit w n \<and> (\<forall>i < n. \<not> bit w i)"

lemma lowest_at_unique: "lowest_at w m \<Longrightarrow> lowest_at w n \<Longrightarrow> m = n"
  by (auto simp: lowest_at_def) (metis linorder_cases)

lemma lowest_at_ex: "w \<noteq> 0 \<Longrightarrow> \<exists>n < 32. lowest_at w n"
proof -
  assume "w \<noteq> 0"
  then obtain i where "bit w i" by (auto simp: word_eq_0_iff_bits)
  then have "lowest_at w (LEAST i. bit w i)"
    by (auto simp: lowest_at_def intro: LeastI dest: not_less_Least)
  then show ?thesis by (auto simp: lowest_at_def dest: bit32D)
qed

lemma lowest_step:
  assumes "lowest_at w n" "n < 2 * k"
  shows "w AND mask k = 0 \<longleftrightarrow> k \<le> n"
    and "k \<le> n \<Longrightarrow> lowest_at (drop_bit k w) (n - k) \<and> n - k < k"
proof -
  show "w AND mask k = 0 \<longleftrightarrow> k \<le> n"
    using assms unfolding and_mask_eq_0 lowest_at_def by (meson leI less_le_trans)
  show "k \<le> n \<Longrightarrow> lowest_at (drop_bit k w) (n - k) \<and> n - k < k"
    using assms by (auto simp: lowest_at_def bit_drop_bit_eq)
qed

definition ffs_step :: "nat \<Rightarrow> nat \<times> ulong \<Rightarrow> nat \<times> ulong" where
  "ffs_step k s = (case s of (num, w) \<Rightarrow>
     if w AND mask k = 0 then (num + k, drop_bit k w) else (num, w))"

definition ffs_inv :: "nat \<Rightarrow> nat \<Rightarrow> nat \<times> ulong \<Rightarrow> bool" where
  "ffs_inv n b s \<longleftrightarrow> (\<exists>m < b. lowest_at (snd s) m \<and> fst s + m = n)"

lemma ffs_step_inv: "ffs_inv n (2 * k) s \<Longrightarrow> ffs_inv n k (ffs_step k s)"
proof -
  assume inv: "ffs_inv n (2 * k) s"
  obtain num w where s: "s = (num, w)" by (cases s)
  from inv obtain m where m: "m < 2 * k" "lowest_at w m" "num + m = n"
    by (auto simp: ffs_inv_def s)
  show ?thesis
  proof (cases "k \<le> m")
    case True
    with lowest_step [OF m(2,1)] m show ?thesis
      by (auto simp: ffs_inv_def ffs_step_def s intro!: exI [of _ "m - k"])
  next
    case False
    with lowest_step [OF m(2,1)] m show ?thesis
      by (auto simp: ffs_inv_def ffs_step_def s intro!: exI [of _ m])
  qed
qed

lemma ffs_step_folds:
  "(if w AND 0xffff = 0 then (num + 16, drop_bit 16 w) else (num, w)) = ffs_step 16 (num, w)"
  "(if w AND 0xff = 0 then (num + 8, drop_bit 8 w) else (num, w)) = ffs_step 8 (num, w)"
  "(if w AND 0xf = 0 then (num + 4, drop_bit 4 w) else (num, w)) = ffs_step 4 (num, w)"
  "(if w AND 3 = 0 then (num + 2, drop_bit 2 w) else (num, w)) = ffs_step 2 (num, w)"
  "(if w AND 1 = 0 then (num + 1, drop_bit 1 w) else (num, w)) = ffs_step 1 (num, w)"
  "(if w AND 1 = 0 then num + 1 else num) = fst (ffs_step 1 (num, w))"
  by (simp_all add: ffs_step_def mask_eq_exp_minus_1)

lemma uu_ffs_steps:
  "uu_ffs w = fst (ffs_step 1 (ffs_step 2 (ffs_step 4 (ffs_step 8 (ffs_step 16 (0, w))))))"
  unfolding uu_ffs_def ffs_step_folds Let_def by (simp add: case_prod_beta)

lemma ffs_steps:
  "x \<noteq> 0 \<Longrightarrow>
   ffs x = fst (ffs_step 1 (ffs_step 2 (ffs_step 4 (ffs_step 8 (ffs_step 16 (1, x))))))"
  unfolding ffs_def ffs_step_folds Let_def by (simp add: case_prod_beta)

lemma ffs_chain:
  assumes "lowest_at w n"
  shows "fst (ffs_step 1 (ffs_step 2 (ffs_step 4 (ffs_step 8 (ffs_step 16 (a, w)))))) = a + n"
proof -
  from assms have "ffs_inv (a + n) (2 * 16) (a, w)"
    by (auto simp: ffs_inv_def lowest_at_def dest: bit32D)
  then have "ffs_inv (a + n) (2 * 8) (ffs_step 16 (a, w))"
    using ffs_step_inv by fastforce
  then have "ffs_inv (a + n) (2 * 4) (ffs_step 8 (ffs_step 16 (a, w)))"
    using ffs_step_inv by fastforce
  then have "ffs_inv (a + n) (2 * 2) (ffs_step 4 (ffs_step 8 (ffs_step 16 (a, w))))"
    using ffs_step_inv by fastforce
  then have "ffs_inv (a + n) (2 * 1) (ffs_step 2 (ffs_step 4 (ffs_step 8 (ffs_step 16 (a, w)))))"
    using ffs_step_inv by fastforce
  then show ?thesis
    using ffs_step_inv [of "a + n" 1] by (fastforce simp: ffs_inv_def)
qed

lemma uu_ffs_eq: "lowest_at w n \<Longrightarrow> uu_ffs w = n"
  by (simp only: uu_ffs_steps ffs_chain add_0)

lemma uu_ffs_lowest: "w \<noteq> 0 \<Longrightarrow> lowest_at w (uu_ffs w)"
  using lowest_at_ex [of w] uu_ffs_eq by metis

lemma ffs_eq_uu_ffs: "ffs w = (if w = 0 then 0 else uu_ffs w + 1)"
proof (cases "w = 0")
  case False
  then obtain n where "lowest_at w n" using lowest_at_ex by blast
  with False show ?thesis
    using ffs_steps [of w] ffs_chain [of w n 1] uu_ffs_eq [of w n] by simp
qed (simp add: ffs_def)

lemma ffz_lowest: "w \<noteq> - 1 \<Longrightarrow> lowest_at (NOT w) (ffz w)"
  unfolding ffz_def by (rule uu_ffs_lowest) (metis bit.double_compl bit.compl_zero)

definition highest_at :: "ulong \<Rightarrow> nat \<Rightarrow> bool" where
  "highest_at w n \<longleftrightarrow> bit w n \<and> (\<forall>i > n. \<not> bit w i)"

lemma highest_at_ex:
  assumes "w \<noteq> 0"
  shows "\<exists>n < 32. highest_at w n"
proof -
  define n where "n = Max {i. bit w i}"
  have fin: "finite {i. bit w i}"
    by (rule finite_subset [of _ "{..< 32}"]) (use bit32D in auto)
  obtain i where "bit w i" using assms word_eq_0_iff_bits [of w] by blast
  then have "{i. bit w i} \<noteq> {}" by blast
  then have hit: "bit w n" unfolding n_def using Max_in [OF fin] by simp
  have top: "\<not> bit w i" if "n < i" for i
  proof
    assume "bit w i"
    then have "i \<le> n" unfolding n_def by (intro Max_ge fin) simp
    with that show False by simp
  qed
  from hit top have "highest_at w n" unfolding highest_at_def by simp
  with bit32D [OF hit] show ?thesis by blast
qed

lemma highest_step:
  assumes "highest_at w m" "31 - m < 2 * k" "k \<le> 16"
  shows "w AND push_bit (32 - k) (- 1) = 0 \<longleftrightarrow> m + k < 32"
    and "m + k < 32 \<Longrightarrow> highest_at (push_bit k w) (m + k) \<and> 31 - (m + k) < k"
proof -
  have m: "bit w m" "\<And>i. m < i \<Longrightarrow> \<not> bit w i" using assms(1) by (auto simp: highest_at_def)
  have "w AND push_bit (32 - k) (- 1) \<noteq> 0" if "\<not> m + k < 32"
  proof -
    from that have "32 - k \<le> m" by arith
    with m(1) show ?thesis unfolding and_high_eq_0 by blast
  qed
  moreover have "w AND push_bit (32 - k) (- 1) = 0" if "m + k < 32"
  proof -
    from that have "m < 32 - k" by arith
    then show ?thesis unfolding and_high_eq_0 using m(2) by (meson less_le_trans)
  qed
  ultimately show "w AND push_bit (32 - k) (- 1) = 0 \<longleftrightarrow> m + k < 32" by blast
  show "highest_at (push_bit k w) (m + k) \<and> 31 - (m + k) < k" if "m + k < 32"
  proof -
    have "bit (push_bit k w) (m + k)" using m(1) that by (simp add: bit_simps)
    moreover have "\<not> bit (push_bit k w) i" if "m + k < i" for i
      using m(2) [of "i - k"] that by (auto simp: bit_simps)
    ultimately show ?thesis using assms(2) that by (auto simp: highest_at_def)
  qed
qed

definition fls_step :: "nat \<Rightarrow> ulong \<times> nat \<Rightarrow> ulong \<times> nat" where
  "fls_step k s = (case s of (x, r) \<Rightarrow>
     if x AND push_bit (32 - k) (- 1) = 0 then (push_bit k x, r - k) else (x, r))"

definition fls_inv :: "nat \<Rightarrow> nat \<Rightarrow> ulong \<times> nat \<Rightarrow> bool" where
  "fls_inv n b s \<longleftrightarrow> (\<exists>m < 32. 31 - m < b \<and> highest_at (fst s) m \<and> snd s + m = n + 31)"

lemma fls_step_inv: "fls_inv n (2 * k) s \<Longrightarrow> k \<le> 16 \<Longrightarrow> fls_inv n k (fls_step k s)"
proof -
  assume inv: "fls_inv n (2 * k) s" and k: "k \<le> 16"
  obtain x r where s: "s = (x, r)" by (cases s)
  from inv obtain m where m: "m < 32" "31 - m < 2 * k" "highest_at x m" "r + m = n + 31"
    by (auto simp: fls_inv_def s)
  show ?thesis
  proof (cases "m + k < 32")
    case True
    with highest_step [OF m(3,2) k] m show ?thesis
      by (auto simp: fls_inv_def fls_step_def s intro!: exI [of _ "m + k"])
  next
    case False
    with highest_step [OF m(3,2) k] m show ?thesis
      by (auto simp: fls_inv_def fls_step_def s intro!: exI [of _ m])
  qed
qed

lemma fls_chain:
  assumes "highest_at w n"
  shows "snd (fls_step 1 (fls_step 2 (fls_step 4 (fls_step 8 (fls_step 16 (w, a + 31)))))) = a + n"
proof -
  from assms have "fls_inv (a + n) (2 * 16) (w, a + 31)"
    by (auto simp: fls_inv_def highest_at_def dest: bit32D)
  then have "fls_inv (a + n) (2 * 8) (fls_step 16 (w, a + 31))"
    using fls_step_inv by fastforce
  then have "fls_inv (a + n) (2 * 4) (fls_step 8 (fls_step 16 (w, a + 31)))"
    using fls_step_inv by fastforce
  then have "fls_inv (a + n) (2 * 2) (fls_step 4 (fls_step 8 (fls_step 16 (w, a + 31))))"
    using fls_step_inv by fastforce
  then have "fls_inv (a + n) (2 * 1)
      (fls_step 2 (fls_step 4 (fls_step 8 (fls_step 16 (w, a + 31)))))"
    using fls_step_inv by fastforce
  then have "fls_inv (a + n) 1
      (fls_step 1 (fls_step 2 (fls_step 4 (fls_step 8 (fls_step 16 (w, a + 31))))))"
    by (rule fls_step_inv) simp
  then show ?thesis by (fastforce simp: fls_inv_def)
qed

lemma hi_masks:
  "push_bit (32 - 16) (- 1 :: 32 word) = 0xffff0000"
  "push_bit (32 - 8) (- 1 :: 32 word) = 0xff000000"
  "push_bit (32 - 4) (- 1 :: 32 word) = 0xf0000000"
  "push_bit (32 - 2) (- 1 :: 32 word) = 0xc0000000"
  "push_bit (32 - 1) (- 1 :: 32 word) = 0x80000000"
  by (simp_all add: mask_eq_exp_minus_1)

lemma fls_step_folds:
  "(if x AND 0xffff0000 = 0 then (push_bit 16 x, r - 16) else (x, r)) = fls_step 16 (x, r)"
  "(if x AND 0xff000000 = 0 then (push_bit 8 x, r - 8) else (x, r)) = fls_step 8 (x, r)"
  "(if x AND 0xf0000000 = 0 then (push_bit 4 x, r - 4) else (x, r)) = fls_step 4 (x, r)"
  "(if x AND 0xc0000000 = 0 then (push_bit 2 x, r - 2) else (x, r)) = fls_step 2 (x, r)"
  "(if x AND 0x80000000 = 0 then (push_bit 1 x, r - 1) else (x, r)) = fls_step 1 (x, r)"
  by (simp_all add: fls_step_def flip: hi_masks)

lemma fls_steps:
  "x \<noteq> 0 \<Longrightarrow>
   fls x = snd (fls_step 1 (fls_step 2 (fls_step 4 (fls_step 8 (fls_step 16 (x, 1 + 31))))))"
  unfolding fls_def fls_step_folds Let_def by (simp add: case_prod_beta)

lemma uu_fls_step_folds:
  "(if x AND push_bit (BITS_PER_LONG - k) (- 1) = 0 then (r - k, push_bit k x) else (r, x)) =
   prod.swap (fls_step k (x, r))"
  by (simp add: fls_step_def)

lemma uu_fls_last_fold:
  "(if x AND push_bit (BITS_PER_LONG - 1) (- 1) = 0 then r - 1 else r) =
   snd (fls_step 1 (x, r))"
  by (simp add: fls_step_def)

lemma uu_fls_steps:
  "uu_fls x = snd (fls_step 1 (fls_step 2 (fls_step 4 (fls_step 8 (fls_step 16 (x, 0 + 31))))))"
  unfolding uu_fls_def uu_fls_step_folds uu_fls_last_fold Let_def
  by (simp add: case_prod_beta)

lemma uu_fls_eq: "highest_at w n \<Longrightarrow> uu_fls w = n"
  using fls_chain [of w n 0] by (simp add: uu_fls_steps)

lemma uu_fls_highest: "w \<noteq> 0 \<Longrightarrow> highest_at w (uu_fls w)"
  using highest_at_ex [of w] uu_fls_eq by metis

lemma fls_eq_uu_fls: "fls w = (if w = 0 then 0 else uu_fls w + 1)"
proof (cases "w = 0")
  case False
  then obtain n where "highest_at w n" using highest_at_ex by blast
  with False show ?thesis
    using fls_steps [of w] fls_chain [of w n 1] uu_fls_eq [of w n] by simp
qed (simp add: fls_def)

section \<open>The Hamming weight by parallel field additions\<close>

text \<open>A word seen as \<open>m\<close> adjacent fields of \<open>k\<close> bits, the view on which the
  shift-and-mask steps of \<open>hweight32\<close> are additions of neighbouring fields.\<close>

definition fields :: "nat \<Rightarrow> nat \<Rightarrow> (nat \<Rightarrow> nat) \<Rightarrow> nat" where
  "fields k m f = (\<Sum>j < m. f j * 2 ^ (k * j))"

lemma fields_bound: "(\<And>j. f j < 2 ^ k) \<Longrightarrow> fields k m f < 2 ^ (k * m)"
proof (induction m)
  case (Suc m)
  then have IH: "fields k m f < 2 ^ (k * m)" by simp
  have "f m + 1 \<le> 2 ^ k" using Suc.prems [of m] by simp
  then have "(f m + 1) * 2 ^ (k * m) \<le> 2 ^ k * 2 ^ (k * m)" by (rule mult_le_mono1)
  then show ?case using IH by (simp add: fields_def power_add)
qed (simp add: fields_def)

lemma bit_split_nat:
  assumes "a < 2 ^ n"
  shows "bit (a + b * 2 ^ n :: nat) i \<longleftrightarrow> (if i < n then bit a i else bit b (i - n))"
proof -
  let ?x = "a + b * 2 ^ n"
  have t: "take_bit n ?x = a" and d: "drop_bit n ?x = b"
    using assms by (simp_all add: take_bit_eq_mod drop_bit_eq_div)
  show ?thesis
  proof (cases "i < n")
    case True
    then have "bit ?x i \<longleftrightarrow> bit (take_bit n ?x) i" by (simp only: bit_take_bit_iff simp_thms)
    with True t show ?thesis by simp
  next
    case False
    then have "bit ?x i \<longleftrightarrow> bit (drop_bit n ?x) (i - n)" by (simp only: bit_drop_bit_eq) simp
    with False d show ?thesis by simp
  qed
qed

lemma bit_beyond_nat: "(v :: nat) < 2 ^ k \<Longrightarrow> k \<le> n \<Longrightarrow> \<not> bit v n"
  by (metis bit_take_bit_iff not_le take_bit_nat_eq_self)

lemma bit_fields:
  assumes "\<And>j. f j < 2 ^ k" "0 < k"
  shows "bit (fields k m f) i \<longleftrightarrow> i div k < m \<and> bit (f (i div k)) (i mod k)"
proof (induction m)
  case 0
  then show ?case by (simp add: fields_def)
next
  case (Suc m)
  have "fields k (Suc m) f = fields k m f + f m * 2 ^ (k * m)" by (simp add: fields_def)
  then have eq: "bit (fields k (Suc m) f) i \<longleftrightarrow>
      (if i < k * m then bit (fields k m f) i else bit (f m) (i - k * m))"
    using bit_split_nat [OF fields_bound [OF assms(1)], where b = "f m" and i = i] by simp
  have i: "k * (i div k) \<le> i" by simp
  consider "i div k < m" | "i div k = m" | "m < i div k" by linarith
  then show ?case
  proof cases
    case 1
    then have "i < k * m" using assms(2) by (simp add: div_less_iff_less_mult mult.commute)
    with 1 eq Suc show ?thesis by simp
  next
    case 2
    then have "k * m \<le> i" using i by simp
    then have "\<not> i < k * m" by simp
    moreover have "i - k * m = i mod k" using 2 by (simp add: minus_mult_div_eq_mod flip: 2)
    ultimately show ?thesis using 2 eq by simp
  next
    case 3
    then have "k * Suc m \<le> k * (i div k)" by (intro mult_le_mono2) simp
    with i have "k + k * m \<le> i" by (simp only: mult_Suc_right)
    then have "\<not> i < k * m" "k \<le> i - k * m" by linarith+
    with 3 eq bit_beyond_nat [OF assms(1) [of m]] show ?thesis by simp
  qed
qed

lemma fields_regroup:
  "fields k (2 * m) f = fields (2 * k) m (\<lambda>j. f (2 * j) + f (2 * j + 1) * 2 ^ k)"
  by (induction m) (simp_all add: fields_def algebra_simps power_add)

lemma fields_mod: "f 0 < 2 ^ k \<Longrightarrow> fields k (Suc m) f mod 2 ^ k = f 0"
proof -
  assume "f 0 < 2 ^ k"
  moreover have "fields k (Suc m) f = f 0 + 2 ^ k * fields k m (\<lambda>j. f (Suc j))"
    unfolding fields_def sum.lessThan_Suc_shift sum_distrib_left
    by (auto simp: power_add algebra_simps intro: sum.cong)
  ultimately show ?thesis by simp
qed

lemma fields_add: "fields k m f + fields k m g = fields k m (\<lambda>j. f j + g j)"
  by (simp add: fields_def sum.distrib algebra_simps)

lemma unat_bits: "bit (unat (x :: 32 word)) i \<longleftrightarrow> bit x i"
  by (simp add: bit_unsigned_iff)

text \<open>Picking the even or the odd fields of a word with a mask.\<close>

lemma fields_pick:
  fixes x M :: u32
  assumes x: "unat x = fields k (2 * m) f" and f: "\<And>j. f j < 2 ^ k" and k: "0 < k"
    and M: "unat M = fields (2 * k) m (\<lambda>_. mask k)"
  shows "unat (x AND M) = fields (2 * k) m (\<lambda>j. f (2 * j))"
    and "unat (drop_bit k x AND M) = fields (2 * k) m (\<lambda>j. f (2 * j + 1))"
proof -
  have f2: "f j < 2 ^ (2 * k)" for j
    using f [of j] by (rule less_le_trans) (simp add: power_increasing)
  have low: "\<not> bit (f j) n" if "k \<le> n" for j n
    using bit_beyond_nat [OF f [of j] that] .
  have bx: "bit x i \<longleftrightarrow> i div k < 2 * m \<and> bit (f (i div k)) (i mod k)" for i
    using bit_fields [of f k "2 * m" i] f k by (simp add: unat_bits [symmetric] x)
  have mk: "mask k < (2 :: nat) ^ (2 * k)"
    by (rule less_le_trans [of _ "2 ^ k"]) (simp_all add: mask_eq_exp_minus_1 power_increasing)
  have bM: "bit M i \<longleftrightarrow> i div (2 * k) < m \<and> i mod (2 * k) < k" for i
    using bit_fields [of "\<lambda>_. mask k" "2 * k" m i] mk k
    by (simp add: unat_bits [symmetric] M bit_mask_iff)
  have dm: "i div k = 2 * (i div (2 * k)) \<and> i mod k = i mod (2 * k)"
    "(i + k) div k = 2 * (i div (2 * k)) + 1 \<and> (i + k) mod k = i mod (2 * k)"
    if "i mod (2 * k) < k" for i
  proof -
    have "i = k * (2 * (i div (2 * k))) + i mod (2 * k)"
      using mult_div_mod_eq [of "2 * k" i] by (simp add: algebra_simps)
    then have "k * (2 * (i div (2 * k))) \<le> i" "i < k * Suc (2 * (i div (2 * k)))"
      using that by simp_all
    then have d: "i div k = 2 * (i div (2 * k))" by (rule div_nat_eqI)
    have "i mod k = i - k * (2 * (i div (2 * k)))"
      by (simp add: d [symmetric] minus_mult_div_eq_mod)
    also have "\<dots> = i mod (2 * k)" by (simp add: mult.assoc [symmetric] mult.commute [of k 2]
          minus_mult_div_eq_mod)
    finally have r: "i mod k = i mod (2 * k)" .
    from d r show "i div k = 2 * (i div (2 * k)) \<and> i mod k = i mod (2 * k)" by simp
    from d r k show "(i + k) div k = 2 * (i div (2 * k)) + 1 \<and> (i + k) mod k = i mod (2 * k)"
      by (simp add: div_add_self2)
  qed
  show "unat (x AND M) = fields (2 * k) m (\<lambda>j. f (2 * j))"
  proof (rule bit_eqI)
    fix i
    show "bit (unat (x AND M)) i \<longleftrightarrow> bit (fields (2 * k) m (\<lambda>j. f (2 * j))) i"
      using bit_fields [of "\<lambda>j. f (2 * j)" "2 * k" m i] f2 k dm(1) [of i]
      by (cases "i mod (2 * k) < k") (auto simp: unat_bits bit_and_iff bx bM low)
  qed
  show "unat (drop_bit k x AND M) = fields (2 * k) m (\<lambda>j. f (2 * j + 1))"
  proof (rule bit_eqI)
    fix i
    show "bit (unat (drop_bit k x AND M)) i \<longleftrightarrow>
          bit (fields (2 * k) m (\<lambda>j. f (2 * j + 1))) i"
      using bit_fields [of "\<lambda>j. f (2 * j + 1)" "2 * k" m i] f2 k dm(2) [of i]
      by (cases "i mod (2 * k) < k")
        (auto simp: unat_bits bit_and_iff bit_drop_bit_eq bx bM low add.commute [of k])
  qed
qed

lemma fields_shift:
  fixes x :: u32
  assumes x: "unat x = fields k m f" and f: "\<And>j. f j < 2 ^ k" "\<And>j. m \<le> j \<Longrightarrow> f j = 0"
    and k: "0 < k"
  shows "unat (drop_bit (k * s) x) = fields k m (\<lambda>j. f (j + s))"
proof (rule bit_eqI)
  fix i
  have bx: "bit x i \<longleftrightarrow> i div k < m \<and> bit (f (i div k)) (i mod k)" for i
    using bit_fields [of f k m i] f k by (simp add: unat_bits [symmetric] x)
  have "(k * s + i) div k = i div k + s" "(k * s + i) mod k = i mod k" using k by simp_all
  then show "bit (unat (drop_bit (k * s) x)) i \<longleftrightarrow> bit (fields k m (\<lambda>j. f (j + s))) i"
    using bit_fields [of "\<lambda>j. f (j + s)" k m i] f k
    by (cases "i div k + s < m") (auto simp: unat_bits bit_drop_bit_eq bx add.commute [of s])
qed


definition popcount :: "'a::len word \<Rightarrow> nat" where
  "popcount w = card {i. i < LENGTH('a) \<and> bit w i}"

lemma popcount_sum: "popcount w = (\<Sum>i < LENGTH('a). of_bool (bit w i))"
  for w :: "'a::len word"
  by (simp add: popcount_def sum.If_cases of_bool_def Collect_conj_eq lessThan_def Int_commute
      flip: card_eq_sum)

lemma unat_fields_1: "unat w = fields 1 32 (\<lambda>i. of_bool (bit w i))" for w :: u32
proof (rule bit_eqI)
  fix i
  show "bit (unat w) i \<longleftrightarrow> bit (fields 1 32 (\<lambda>i. of_bool (bit w i))) i"
    using bit_fields [of "\<lambda>i. of_bool (bit w i)" 1 32 i] bit32D [of w i]
    by (auto simp: unat_bits bit_0)
qed

lemma pattern_masks:
  "unat (0x55555555 :: u32) = fields (2 * 1) 16 (\<lambda>_. mask 1)"
  "unat (0x33333333 :: u32) = fields (2 * 2) 8 (\<lambda>_. mask 2)"
  "unat (0x0F0F0F0F :: u32) = fields (2 * 4) 4 (\<lambda>_. mask 4)"
  by (simp_all add: fields_def mask_eq_exp_minus_1 lessThan_nat_numeral)

lemma unat_plus_fields:
  fixes x y :: u32
  assumes "unat x = fields k m f" "unat y = fields k m g"
    and "\<And>j. f j \<le> a" "\<And>j. g j \<le> a" "a + a < 2 ^ k" "k * m = 32"
  shows "unat (x + y) = fields k m (\<lambda>j. f j + g j)"
proof -
  have "f j + g j < 2 ^ k" for j using add_mono [OF assms(3,4)] assms(5) by (rule le_less_trans)
  then have "fields k m (\<lambda>j. f j + g j) < 2 ^ (k * m)" by (rule fields_bound)
  then show ?thesis using assms by (simp add: unat_word_ariths fields_add)
qed

lemma hweight32_stage1:
  fixes w :: u32
  defines "B \<equiv> \<lambda>i. of_bool (bit w i) :: nat"
  shows "unat (w - (drop_bit 1 w AND 0x55555555)) = fields 2 16 (\<lambda>j. B (2 * j) + B (2 * j + 1))"
proof -
  have w: "unat w = fields 1 (2 * 16) B" by (simp add: B_def unat_fields_1)
  have B: "B j < 2 ^ 1" for j by (simp add: B_def)
  let ?o = "drop_bit 1 w AND 0x55555555"
  have o: "unat ?o = fields 2 16 (\<lambda>j. B (2 * j + 1))"
    using fields_pick(2) [OF w B _ pattern_masks(1)] by simp
  have "unat w = fields 2 16 (\<lambda>j. B (2 * j) + B (2 * j + 1) * 2)"
    using w fields_regroup [of 1 16 B] by simp
  also have "\<dots> = unat ?o + fields 2 16 (\<lambda>j. B (2 * j) + B (2 * j + 1))"
    unfolding o fields_add by (rule arg_cong [where f = "fields 2 16"]) auto
  finally have "unat w = unat ?o + fields 2 16 (\<lambda>j. B (2 * j) + B (2 * j + 1))" .
  then show ?thesis by (simp add: unat_sub word_le_nat_alt)
qed

lemma hweight32_popcount: "unat (hweight32 w) = popcount w"
proof -
  define B where "B i = (of_bool (bit w i) :: nat)" for i
  have B1: "B i \<le> 1" for i by (simp add: B_def)
  have B0: "B i = 0" if "32 \<le> i" for i using that bit32D [of w i] by (auto simp: B_def)
  define g where "g j = B (2 * j) + B (2 * j + 1)" for j
  define h where "h j = g (2 * j) + g (2 * j + 1)" for j
  define p where "p j = h (2 * j) + h (2 * j + 1)" for j
  have g: "g j \<le> 2" "16 \<le> j \<Longrightarrow> g j = 0" for j
    using B1 [of "2 * j"] B1 [of "2 * j + 1"] by (auto simp: g_def B0)
  have h: "h j \<le> 4" "8 \<le> j \<Longrightarrow> h j = 0" for j
    using g(1) [of "2 * j"] g(1) [of "2 * j + 1"] by (auto simp: h_def g(2))
  have p: "p j \<le> 8" "4 \<le> j \<Longrightarrow> p j = 0" for j
    using h(1) [of "2 * j"] h(1) [of "2 * j + 1"] by (auto simp: p_def h(2))
  define r1 where "r1 = w - (drop_bit 1 w AND 0x55555555)"
  define r2 where "r2 = (r1 AND 0x33333333) + (drop_bit 2 r1 AND 0x33333333)"
  define r3 where "r3 = (r2 + drop_bit 4 r2) AND 0x0F0F0F0F"
  define r4 where "r4 = r3 + drop_bit 8 r3"
  have r1: "unat r1 = fields 2 (2 * 8) g"
    using hweight32_stage1 [of w] by (simp add: r1_def g_def [abs_def] B_def)
  have g4: "g j < 2 ^ 2" for j using g(1) [of j] by simp
  have r2: "unat r2 = fields 4 8 h"
    unfolding r2_def h_def [abs_def]
    using g(1) fields_pick [OF r1 g4 _ pattern_masks(2)]
    by (intro unat_plus_fields [where a = 2]) auto
  have "unat (drop_bit (4 * 1) r2) = fields 4 8 (\<lambda>j. h (j + 1))"
    using h by (intro fields_shift r2) (auto intro: le_less_trans [OF h(1)])
  then have s3: "unat (r2 + drop_bit 4 r2) = fields 4 (2 * 4) (\<lambda>j. h j + h (j + 1))"
    using r2 h(1) by (simp, intro unat_plus_fields [where a = 4]) auto
  have h16: "h j + h (j + 1) < 2 ^ 4" for j using add_mono [OF h(1) h(1), of j "j + 1"] by simp
  have r3: "unat r3 = fields 8 4 p"
    unfolding r3_def p_def [abs_def]
    using fields_pick(1) [OF s3 h16 _ pattern_masks(3)] by simp
  have "unat (drop_bit (8 * 1) r3) = fields 8 4 (\<lambda>j. p (j + 1))"
    using p by (intro fields_shift r3) (auto intro: le_less_trans [OF p(1)])
  then have r4: "unat r4 = fields 8 4 (\<lambda>j. p j + p (j + 1))"
    using r3 p(1) unfolding r4_def
    by (simp, intro unat_plus_fields [where a = 8]) auto
  have p16: "p j + p (j + 1) \<le> 16" for j using add_mono [OF p(1) p(1), of j "j + 1"] by simp
  have "unat (drop_bit (8 * 2) r4) = fields 8 4 (\<lambda>j. p (j + 2) + p (j + 2 + 1))"
    using p by (intro fields_shift r4) (auto intro: le_less_trans [OF p16 [unfolded One_nat_def add_Suc_right add_0_right]])
  then have r5: "unat (r4 + drop_bit 16 r4)
      = fields 8 4 (\<lambda>j. (p j + p (j + 1)) + (p (j + 2) + p (j + 2 + 1)))"
    using r4 p16 by (simp, intro unat_plus_fields [where a = 16]) auto
  have "unat (hweight32 w) = unat ((r4 + drop_bit 16 r4) AND mask 8)"
    by (simp add: hweight32_def Let_def r1_def r2_def r3_def r4_def mask_eq_exp_minus_1)
  also have "\<dots> = unat (r4 + drop_bit 16 r4) mod 2 ^ 8"
    by (simp add: take_bit_eq_mask [symmetric] take_bit_eq_mod unat_mod_distrib)
  also have "\<dots> = (p 0 + p 1) + (p 2 + p 3)"
    using p16 [of 0] p16 [of 2]
      fields_mod [of "\<lambda>j. (p j + p (j + 1)) + (p (j + 2) + p (j + 2 + 1))" 8 3]
    unfolding r5 by (simp add: numeral_2_eq_2 [symmetric] numeral_3_eq_3 [symmetric])
  also have "\<dots> = (\<Sum>i < 32. B i)"
    by (simp add: p_def h_def g_def lessThan_nat_numeral)
  finally show ?thesis by (simp add: popcount_sum B_def)
qed

section \<open>Properties\<close>

text \<open>
  C19: the binary-search routines of \<open>asm-generic/bitops\<close> find the extreme bits of a
  nonzero word: \<open>__ffs\<close> the lowest set bit, \<open>__fls\<close> the highest, \<open>ffs\<close> and \<open>fls\<close>
  the same positions counted from 1 with 0 for the zero word, and \<open>ffz\<close> the lowest clear
  bit of a word that has one.
\<close>
theorem extreme_bits:
  "(w \<noteq> 0 \<longrightarrow> bit w (uu_ffs w) \<and> (\<forall>i < uu_ffs w. \<not> bit w i) \<and>
           bit w (uu_fls w) \<and> (\<forall>i > uu_fls w. \<not> bit w i) \<and>
           ffs w = uu_ffs w + 1 \<and> fls w = uu_fls w + 1) \<and>
   ffs 0 = 0 \<and> fls 0 = 0 \<and>
   (w \<noteq> - 1 \<longrightarrow> \<not> bit w (ffz w) \<and> (\<forall>i < ffz w. bit w i))"
  using uu_ffs_lowest [of w] uu_fls_highest [of w] ffz_lowest [of w]
    bit_imp_le_length [of "NOT w" "ffz w"]
  by (auto simp: ffs_eq_uu_ffs fls_eq_uu_fls lowest_at_def highest_at_def bit_not_iff)

theorem extreme_bits_witness:
  "uu_ffs 0x57 = 0 \<and> uu_fls 0x57 = 6 \<and> bit (0x57 :: ulong) (uu_fls 0x57) \<and>
   fls 0x57 = 7 \<and> ffz 0x57 = 3 \<and> \<not> bit (0x57 :: ulong) 3"
proof -
  have "uu_ffs 0x57 = 0 \<and> uu_fls 0x57 = 6 \<and> ffz 0x57 = 3" by code_simp
  then show ?thesis using extreme_bits [of "0x57"] by simp
qed

text \<open>
  C18: the carry-free additions of \<open>hweight32\<close> count the set bits of the word.
\<close>
theorem hweight32_counts: "unat (hweight32 w) = card {i. i < 32 \<and> bit w i}"
  using hweight32_popcount [of w] by (simp add: popcount_def)

end
