(* ===== verification/FindBit.thy ===== *)
theory FindBit
  imports BitOps
begin

text \<open>
  Searching a bitmap: \<open>lib/find_next_bit.c\<close> and \<open>lib/find_last_bit.c\<close>. The \<open>goto\<close>
  targets \<open>found_first\<close> and \<open>found_middle\<close> are definitions of their own, the loop over
  whole words is a recursive function. Every search is proved equal to the linear reference
  search \<^const>\<open>first_in\<close>; the locale \<open>bit_search\<close> at the end is the interface the
  bitmap routines iterate with.
\<close>

section \<open>find_next_bit\<close>

definition fnb_found_first :: "nat \<Rightarrow> nat \<Rightarrow> ulong \<Rightarrow> nat" where
  "fnb_found_first result sz tmp =
     (let tmp = tmp AND drop_bit (BITS_PER_LONG - sz) (- 1)
      in if tmp = 0 then result + sz else result + uu_ffs tmp)"

fun fnb_loop :: "bitmap \<Rightarrow> nat \<Rightarrow> nat \<Rightarrow> nat \<Rightarrow> nat" where
  "fnb_loop addr p sz result =
     (if sz div BITS_PER_LONG \<noteq> 0 then
        let tmp = addr p in
        if tmp \<noteq> 0 then result + uu_ffs tmp
        else fnb_loop addr (p + 1) (sz - BITS_PER_LONG) (result + BITS_PER_LONG)
      else if sz = 0 then result
      else fnb_found_first result sz (addr p))"

definition find_next_bit :: "bitmap \<Rightarrow> nat \<Rightarrow> nat \<Rightarrow> nat" where
  "find_next_bit addr sz offset =
     (let p = offset div BITS_PER_LONG;
          result = BITS_PER_LONG * (offset div BITS_PER_LONG)
      in if offset \<ge> sz then sz
         else
           let sz = sz - result; offset = offset mod BITS_PER_LONG
           in if offset \<noteq> 0 then
                let tmp = addr p AND push_bit offset (- 1); p = p + 1
                in if sz < BITS_PER_LONG then fnb_found_first result sz tmp
                   else if tmp \<noteq> 0 then result + uu_ffs tmp
                   else fnb_loop addr p (sz - BITS_PER_LONG) (result + BITS_PER_LONG)
              else fnb_loop addr p sz result)"

section \<open>find_next_zero_bit\<close>

definition fnzb_found_first :: "nat \<Rightarrow> nat \<Rightarrow> ulong \<Rightarrow> nat" where
  "fnzb_found_first result sz tmp =
     (let tmp = tmp OR push_bit sz (- 1)
      in if tmp = - 1 then result + sz else result + ffz tmp)"

fun fnzb_loop :: "bitmap \<Rightarrow> nat \<Rightarrow> nat \<Rightarrow> nat \<Rightarrow> nat" where
  "fnzb_loop addr p sz result =
     (if sz div BITS_PER_LONG \<noteq> 0 then
        let tmp = addr p in
        if NOT tmp \<noteq> 0 then result + ffz tmp
        else fnzb_loop addr (p + 1) (sz - BITS_PER_LONG) (result + BITS_PER_LONG)
      else if sz = 0 then result
      else fnzb_found_first result sz (addr p))"

definition find_next_zero_bit :: "bitmap \<Rightarrow> nat \<Rightarrow> nat \<Rightarrow> nat" where
  "find_next_zero_bit addr sz offset =
     (let p = offset div BITS_PER_LONG;
          result = BITS_PER_LONG * (offset div BITS_PER_LONG)
      in if offset \<ge> sz then sz
         else
           let sz = sz - result; offset = offset mod BITS_PER_LONG
           in if offset \<noteq> 0 then
                let tmp = addr p OR drop_bit (BITS_PER_LONG - offset) (- 1); p = p + 1
                in if sz < BITS_PER_LONG then fnzb_found_first result sz tmp
                   else if NOT tmp \<noteq> 0 then result + ffz tmp
                   else fnzb_loop addr p (sz - BITS_PER_LONG) (result + BITS_PER_LONG)
              else fnzb_loop addr p sz result)"

section \<open>find_first_bit, find_first_zero_bit, find_last_bit\<close>

fun ffb_loop :: "bitmap \<Rightarrow> nat \<Rightarrow> nat \<Rightarrow> nat \<Rightarrow> nat" where
  "ffb_loop addr p sz result =
     (if sz div BITS_PER_LONG \<noteq> 0 then
        let tmp = addr p in
        if tmp \<noteq> 0 then result + uu_ffs tmp
        else ffb_loop addr (p + 1) (sz - BITS_PER_LONG) (result + BITS_PER_LONG)
      else if sz = 0 then result
      else
        let tmp = addr p AND drop_bit (BITS_PER_LONG - sz) (- 1)
        in if tmp = 0 then result + sz else result + uu_ffs tmp)"

definition find_first_bit :: "bitmap \<Rightarrow> nat \<Rightarrow> nat" where
  "find_first_bit addr sz = ffb_loop addr 0 sz 0"

fun ffzb_loop :: "bitmap \<Rightarrow> nat \<Rightarrow> nat \<Rightarrow> nat \<Rightarrow> nat" where
  "ffzb_loop addr p sz result =
     (if sz div BITS_PER_LONG \<noteq> 0 then
        let tmp = addr p in
        if NOT tmp \<noteq> 0 then result + ffz tmp
        else ffzb_loop addr (p + 1) (sz - BITS_PER_LONG) (result + BITS_PER_LONG)
      else if sz = 0 then result
      else
        let tmp = addr p OR push_bit sz (- 1)
        in if tmp = - 1 then result + sz else result + ffz tmp)"

definition find_first_zero_bit :: "bitmap \<Rightarrow> nat \<Rightarrow> nat" where
  "find_first_zero_bit addr sz = ffzb_loop addr 0 sz 0"

fun flb_loop :: "bitmap \<Rightarrow> nat \<Rightarrow> nat \<Rightarrow> nat" where
  "flb_loop addr sz 0 = sz"
| "flb_loop addr sz (Suc words) =
     (let tmp = addr words in
      if tmp \<noteq> 0 then words * BITS_PER_LONG + uu_fls tmp else flb_loop addr sz words)"

definition find_last_bit :: "bitmap \<Rightarrow> nat \<Rightarrow> nat" where
  "find_last_bit addr sz =
     (let words = sz div BITS_PER_LONG in
      if sz mod BITS_PER_LONG \<noteq> 0 then
        let tmp = addr words AND drop_bit (BITS_PER_LONG - sz mod BITS_PER_LONG) (- 1)
        in if tmp \<noteq> 0 then words * BITS_PER_LONG + uu_fls tmp else flb_loop addr sz words
      else flb_loop addr sz words)"

declare fnb_loop.simps [simp del] fnzb_loop.simps [simp del]
  ffb_loop.simps [simp del] ffzb_loop.simps [simp del]

section \<open>The searches find the first bit\<close>

text \<open>The index arithmetic of one word: bit \<open>32 * p + i\<close> is bit \<open>i\<close> of word \<open>p\<close>.\<close>

lemma test_bit_word: "i < 32 \<Longrightarrow> test_bit (32 * p + i) addr \<longleftrightarrow> bit (addr p) i"
  by (simp add: test_bit_iff)

lemma first_in_word:
  assumes "lowest_at tmp n" and "\<And>i. bit tmp i \<longleftrightarrow> lo \<le> i \<and> i < hi \<and> bit (addr p) i"
    and "hi \<le> 32" "32 * p + hi \<le> b"
  shows "first_in (\<lambda>i. test_bit i addr) (32 * p + lo) b = 32 * p + n"
proof (rule first_in_eqI)
  from assms(1,2) have n: "lo \<le> n" "n < hi" "bit (addr p) n" by (auto simp: lowest_at_def)
  then show "32 * p + lo \<le> 32 * p + n" "32 * p + n \<le> b" using assms(4) by auto
  show "test_bit (32 * p + n) addr" using n assms(3) by (simp add: test_bit_word)
  fix i assume i: "32 * p + lo \<le> i" "i < 32 * p + n"
  then obtain j where j: "i = 32 * p + j" "lo \<le> j" "j < n"
    by (metis add_diff_inverse_nat add_le_imp_le_left le_add1 le_trans nat_add_left_cancel_less
        not_le)
  with assms(1,2) n have "\<not> bit (addr p) j" by (auto simp: lowest_at_def)
  with j n assms(3) show "\<not> test_bit i addr" by (simp add: test_bit_word)
qed

lemma first_in_word_none:
  assumes "tmp = 0" and "\<And>i. bit tmp i \<longleftrightarrow> lo \<le> i \<and> i < hi \<and> bit (addr p) i"
    and "lo \<le> hi" "hi \<le> 32"
  shows "first_in (\<lambda>i. test_bit i addr) (32 * p + lo) (32 * p + hi) = 32 * p + hi"
proof (rule first_in_eqI)
  fix i assume i: "32 * p + lo \<le> i" "i < 32 * p + hi"
  define j where "j = i - 32 * p"
  from i have j: "i = 32 * p + j" "lo \<le> j" "j < hi" by (auto simp: j_def)
  with assms(1,2) have "\<not> bit (addr p) j" by auto
  with j assms(4) show "\<not> test_bit i addr" by (simp add: test_bit_word)
qed (use assms in auto)

abbreviation tb :: "bitmap \<Rightarrow> nat \<Rightarrow> bool" where
  "tb addr \<equiv> \<lambda>i. test_bit i addr"

lemma fnb_found_first_eq:
  assumes "\<And>i. bit tmp i \<longleftrightarrow> lo \<le> i \<and> bit (addr p) i" "lo \<le> sz" "sz \<le> 32"
  shows "fnb_found_first (32 * p) sz tmp = first_in (tb addr) (32 * p + lo) (32 * p + sz)"
proof -
  define t where "t = tmp AND drop_bit (32 - sz) (- 1)"
  have t: "bit t i \<longleftrightarrow> lo \<le> i \<and> i < sz \<and> bit (addr p) i" for i
    using assms by (auto simp: t_def ones_shr_eq bit_simps)
  show ?thesis
  proof (cases "t = 0")
    case True
    then have "fnb_found_first (32 * p) sz tmp = 32 * p + sz"
      by (simp add: fnb_found_first_def Let_def t_def)
    with first_in_word_none [where addr = addr and p = p, OF True t assms(2,3)] show ?thesis by simp
  next
    case False
    then have "fnb_found_first (32 * p) sz tmp = 32 * p + uu_ffs t"
      by (simp add: fnb_found_first_def Let_def t_def)
    with first_in_word [where addr = addr and p = p, OF uu_ffs_lowest [OF False] t assms(3)] show ?thesis by simp
  qed
qed

lemma fnb_full_word:
  assumes "\<And>i. bit tmp i \<longleftrightarrow> lo \<le> i \<and> bit (addr p) i" "lo \<le> 32" "32 * p + 32 \<le> b"
  shows "first_in (tb addr) (32 * p + lo) b =
         (if tmp \<noteq> 0 then 32 * p + uu_ffs tmp else first_in (tb addr) (32 * (p + 1)) b)"
proof -
  have t: "bit tmp i \<longleftrightarrow> lo \<le> i \<and> i < 32 \<and> bit (addr p) i" for i
    using assms(1) bit32D [of tmp i] by auto
  show ?thesis
  proof (cases "tmp = 0")
    case True
    have none: "first_in (tb addr) (32 * p + lo) (32 * p + 32) = 32 * p + 32"
      by (rule first_in_word_none [where addr = addr and p = p, OF True t assms(2)]) simp
    have "first_in (tb addr) (32 * p + lo) b = first_in (tb addr) (32 * p + 32) b"
      using first_in_append [of "32 * p + lo" "32 * p + 32" b "tb addr"] none assms(2,3) by simp
    with True show ?thesis by (simp add: add.commute)
  next
    case False
    with first_in_word [where addr = addr and p = p, OF uu_ffs_lowest [OF False] t _ assms(3)] show ?thesis by simp
  qed
qed

lemma fnb_loop_eq: "fnb_loop addr p sz (32 * p) = first_in (tb addr) (32 * p) (32 * p + sz)"
proof (induction sz arbitrary: p rule: less_induct)
  case (less sz)
  show ?case
  proof (cases "sz div 32 \<noteq> 0")
    case True
    then have ge: "32 \<le> sz" by (simp add: div_eq_0_iff)
    then have IH: "fnb_loop addr (p + 1) (sz - 32) (32 * (p + 1)) =
        first_in (tb addr) (32 * (p + 1)) (32 * p + sz)"
      using less [of "sz - 32" "p + 1"] by simp
    have "fnb_loop addr p sz (32 * p) = (if addr p \<noteq> 0 then 32 * p + uu_ffs (addr p)
        else fnb_loop addr (p + 1) (sz - 32) (32 * (p + 1)))"
      using True by (subst fnb_loop.simps) (simp add: Let_def add.commute)
    also have "\<dots> = first_in (tb addr) (32 * p) (32 * p + sz)"
      using ge fnb_full_word [of "addr p" 0 addr p "32 * p + sz"] IH by simp
    finally show ?thesis .
  next
    case False
    then have "sz < 32" by (simp add: div_eq_0_iff)
    then show ?thesis
      using False fnb_found_first_eq [of "addr p" 0 addr p sz]
      by (simp add: fnb_loop.simps [of addr p sz "32 * p"])
  qed
qed

lemma find_next_bit_eq: "find_next_bit addr sz offset = first_in (tb addr) offset sz"
proof (cases "offset < sz")
  case True
  define p where "p = offset div 32"
  define lo where "lo = offset mod 32"
  have off: "offset = 32 * p + lo" and lo: "lo < 32" by (auto simp: p_def lo_def)
  define n where "n = sz - 32 * p"
  have sz: "sz = 32 * p + n" "lo < n" using True by (auto simp: n_def off)
  have tmp: "bit (addr p AND push_bit lo (- 1)) i \<longleftrightarrow> lo \<le> i \<and> bit (addr p) i" for i
    using bit32D [of "addr p" i] by (auto simp: bit_simps)
  show ?thesis
  proof (cases "lo = 0")
    case True
    then show ?thesis using sz(2) lo
      by (simp add: find_next_bit_def Let_def off sz(1) fnb_loop_eq)
  next
    case False
    have "find_next_bit addr sz offset =
      (if n < 32 then fnb_found_first (32 * p) n (addr p AND push_bit lo (- 1))
       else if addr p AND push_bit lo (- 1) \<noteq> 0
       then 32 * p + uu_ffs (addr p AND push_bit lo (- 1))
       else fnb_loop addr (p + 1) (n - 32) (32 * (p + 1)))"
      using False sz(2) lo by (simp add: find_next_bit_def Let_def off sz(1) add.commute)
    also have "\<dots> = first_in (tb addr) offset sz"
      using fnb_found_first_eq [of _ lo addr p n, OF tmp] fnb_full_word [of _ lo addr p sz, OF tmp]
        sz(2) lo fnb_loop_eq [of addr "p + 1" "n - 32"]
      unfolding off sz(1) by (auto simp: add.commute)
    finally show ?thesis .
  qed
qed (simp add: find_next_bit_def)

text \<open>The searches for a zero bit are the searches for a set bit in the complement.\<close>

definition compl_map :: "bitmap \<Rightarrow> bitmap" where
  "compl_map addr = (\<lambda>k. NOT (addr k))"

lemma test_bit_compl [simp]: "test_bit i (compl_map addr) \<longleftrightarrow> \<not> test_bit i addr"
  by (simp add: test_bit_iff compl_map_def bit_not_iff)

lemma fnzb_found_first_eq:
  "sz \<le> 32 \<Longrightarrow> fnzb_found_first r sz tmp = fnb_found_first r sz (NOT tmp)"
proof -
  assume "sz \<le> 32"
  then have "NOT (tmp OR push_bit sz (- 1)) = NOT tmp AND drop_bit (32 - sz) (- 1)"
    by (simp add: ones_shr_eq push_bit_minus_one_eq_not_mask bit.de_Morgan_disj)
  moreover have "x = - 1 \<longleftrightarrow> NOT x = 0" for x :: ulong by (metis bit.double_compl bit.compl_zero)
  ultimately show ?thesis
    by (simp add: fnzb_found_first_def fnb_found_first_def Let_def ffz_def)
qed

lemma fnzb_loop_eq: "fnzb_loop addr p sz r = fnb_loop (compl_map addr) p sz r"
proof (induction addr p sz r rule: fnzb_loop.induct)
  case (1 addr p sz r)
  then show ?case
    using fnzb_found_first_eq [of sz r "addr p"]
    by (simp add: fnzb_loop.simps [of addr p sz r] fnb_loop.simps [of _ p sz r] Let_def
        compl_map_def ffz_def div_eq_0_iff)
qed

lemma find_next_zero_bit_eq:
  "find_next_zero_bit addr sz offset = first_in (\<lambda>i. \<not> test_bit i addr) offset sz"
proof -
  have "NOT (addr p OR drop_bit (32 - k) (- 1)) = NOT (addr p) AND push_bit k (- 1)" if "k < 32" for p k
    using that by (simp add: ones_shr_eq push_bit_minus_one_eq_not_mask bit.de_Morgan_disj)
  then have "find_next_zero_bit addr sz offset = find_next_bit (compl_map addr) sz offset"
    by (simp add: find_next_zero_bit_def find_next_bit_def Let_def fnzb_loop_eq
        fnzb_found_first_eq ffz_def compl_map_def)
  then show ?thesis by (simp add: find_next_bit_eq)
qed

lemma find_first_bit_eq: "find_first_bit addr sz = first_in (tb addr) 0 sz"
proof -
  have "ffb_loop addr p sz r = fnb_loop addr p sz r" for p r
  proof (induction addr p sz r rule: ffb_loop.induct)
    case (1 addr p sz r)
    then show ?case
      by (simp add: ffb_loop.simps [of addr p sz r] fnb_loop.simps [of addr p sz r]
          fnb_found_first_def Let_def)
  qed
  with fnb_loop_eq [of addr 0 sz] show ?thesis by (simp add: find_first_bit_def)
qed

lemma find_first_zero_bit_eq:
  "find_first_zero_bit addr sz = first_in (\<lambda>i. \<not> test_bit i addr) 0 sz"
proof -
  have "ffzb_loop addr p sz r = fnzb_loop addr p sz r" for p r
  proof (induction addr p sz r rule: ffzb_loop.induct)
    case (1 addr p sz r)
    then show ?case
      by (simp add: ffzb_loop.simps [of addr p sz r] fnzb_loop.simps [of addr p sz r]
          fnzb_found_first_def Let_def)
  qed
  with fnb_loop_eq [of "compl_map addr" 0 sz] show ?thesis
    by (simp add: find_first_zero_bit_def fnzb_loop_eq)
qed

section \<open>The last set bit\<close>

definition last_in :: "(nat \<Rightarrow> bool) \<Rightarrow> nat \<Rightarrow> nat \<Rightarrow> nat" where
  "last_in P n d = (if \<exists>i < n. P i then Max {i. i < n \<and> P i} else d)"

lemma last_in_eqI:
  assumes "r < n" "P r" "\<And>i. r < i \<Longrightarrow> i < n \<Longrightarrow> \<not> P i"
  shows "last_in P n d = r"
proof -
  have "Max {i. i < n \<and> P i} = r"
  proof (rule Max_eqI)
    show "i \<le> r" if "i \<in> {i. i < n \<and> P i}" for i using that assms(3) [of i] not_le by auto
  qed (use assms in auto)
  then show ?thesis using assms unfolding last_in_def by auto
qed

lemma last_in_mono:
  "m \<le> n \<Longrightarrow> (\<And>i. m \<le> i \<Longrightarrow> i < n \<Longrightarrow> \<not> P i) \<Longrightarrow> last_in P n d = last_in P m d"
proof -
  assume "m \<le> n" "\<And>i. m \<le> i \<Longrightarrow> i < n \<Longrightarrow> \<not> P i"
  then have "{i. i < n \<and> P i} = {i. i < m \<and> P i}" by (auto simp: not_le) (meson leI)
  then show ?thesis by (auto simp: last_in_def)
qed

lemma flb_word:
  assumes "tmp \<noteq> 0" and "\<And>i. bit tmp i \<longleftrightarrow> i < hi \<and> bit (addr p) i" and "hi \<le> 32"
  shows "last_in (tb addr) (32 * p + hi) d = 32 * p + uu_fls tmp"
proof (rule last_in_eqI)
  have hit: "bit tmp (uu_fls tmp)" and top: "\<And>i. uu_fls tmp < i \<Longrightarrow> \<not> bit tmp i"
    using uu_fls_highest [OF assms(1)] by (auto simp: highest_at_def)
  from hit assms(2) have n: "uu_fls tmp < hi" "bit (addr p) (uu_fls tmp)" by auto
  then show "32 * p + uu_fls tmp < 32 * p + hi" "test_bit (32 * p + uu_fls tmp) addr"
    using assms(3) by (simp_all add: test_bit_word)
  fix i assume i: "32 * p + uu_fls tmp < i" "i < 32 * p + hi"
  define j where "j = i - 32 * p"
  from i have "i = 32 * p + j" "uu_fls tmp < j" "j < hi" by (auto simp: j_def)
  with top [of j] assms(2) [of j] assms(3) show "\<not> test_bit i addr" by (simp add: test_bit_word)
qed

lemma flb_word_none:
  assumes "tmp = 0" and "\<And>i. bit tmp i \<longleftrightarrow> i < hi \<and> bit (addr p) i" and "hi \<le> 32"
  shows "last_in (tb addr) (32 * p + hi) d = last_in (tb addr) (32 * p) d"
proof (rule last_in_mono)
  fix i assume i: "32 * p \<le> i" "i < 32 * p + hi"
  define j where "j = i - 32 * p"
  from i have "i = 32 * p + j" "j < hi" by (auto simp: j_def)
  with assms(2) [of j] assms(1,3) show "\<not> test_bit i addr" by (simp add: test_bit_word)
qed simp

lemma flb_loop_eq: "flb_loop addr sz words = last_in (tb addr) (32 * words) sz"
proof (induction words)
  case 0
  then show ?case by (simp add: last_in_def)
next
  case (Suc words)
  have b: "bit (addr words) i \<longleftrightarrow> i < 32 \<and> bit (addr words) i" for i using bit32D by auto
  show ?case
    using Suc flb_word [where addr = addr and p = words and d = sz, OF _ b order_refl]
      flb_word_none [where addr = addr and p = words and d = sz, OF _ b order_refl]
    by (simp add: Let_def add.commute mult.commute)
qed

lemma find_last_bit_eq: "find_last_bit addr sz = last_in (tb addr) sz sz"
proof (cases "sz mod 32 = 0")
  case True
  then have "32 * (sz div 32) = sz" by auto
  with True show ?thesis by (simp add: find_last_bit_def Let_def flb_loop_eq)
next
  case False
  define p where "p = sz div 32"
  define hi where "hi = sz mod 32"
  have sz: "sz = 32 * p + hi" "hi < 32" by (auto simp: p_def hi_def)
  define tmp where "tmp = addr p AND drop_bit (32 - hi) (- 1)"
  have b: "bit tmp i \<longleftrightarrow> i < hi \<and> bit (addr p) i" for i
    using sz(2) by (auto simp: tmp_def ones_shr_eq bit_simps)
  have main: "find_last_bit addr sz = (if tmp \<noteq> 0 then p * 32 + uu_fls tmp else flb_loop addr sz p)"
    using False by (simp add: find_last_bit_def Let_def tmp_def p_def hi_def)
  note words = flb_word [where addr = addr and p = p and d = sz, OF _ b]
    flb_word_none [where addr = addr and p = p and d = sz, OF _ b]
  have "last_in (tb addr) sz sz = (if tmp \<noteq> 0 then p * 32 + uu_fls tmp else flb_loop addr sz p)"
    unfolding flb_loop_eq using sz words by (simp add: mult.commute)
  with main show ?thesis by simp
qed

section \<open>The search interface and loops over the set bits\<close>

text \<open>
  What a routine that walks over a bitmap relies on: the search returns the first position
  at or above its start that satisfies the test, or the limit. The bitmap routines rely on
  it for set bits, the allocators for clear bits.
\<close>

locale bit_search =
  fixes nxt :: "'m \<Rightarrow> nat \<Rightarrow> nat \<Rightarrow> nat"
    and tst :: "'m \<Rightarrow> nat \<Rightarrow> bool"
  assumes nxt_le: "nxt m n i \<le> n"
    and nxt_ge: "i \<le> n \<Longrightarrow> i \<le> nxt m n i"
    and nxt_hit: "nxt m n i < n \<Longrightarrow> tst m (nxt m n i)"
    and nxt_miss: "i \<le> j \<Longrightarrow> j < nxt m n i \<Longrightarrow> \<not> tst m j"
begin

lemma nxt_first_in: "i \<le> n \<Longrightarrow> nxt m n i = first_in (tst m) i n"
  using first_in_eqI [of i "nxt m n i" n "tst m"] nxt_ge nxt_le nxt_hit nxt_miss by fastforce

lemma nxt_none: "i \<le> n \<Longrightarrow> nxt m n i = n \<longleftrightarrow> (\<forall>j. i \<le> j \<and> j < n \<longrightarrow> \<not> tst m j)"
  by (metis leD nxt_ge nxt_hit nxt_le nxt_miss order_le_less)

lemma nxt_exists: "i \<le> j \<Longrightarrow> j < n \<Longrightarrow> tst m j \<Longrightarrow> nxt m n i \<le> j"
  using nxt_miss [of i j m n] by (meson leI)

text \<open>One iteration of a loop over the positions that satisfy the test.\<close>

lemma filter_nxt:
  assumes "i \<le> n"
  shows "filter (tst m) [i..<n] =
    (if nxt m n i < n then nxt m n i # filter (tst m) [Suc (nxt m n i)..<n] else [])"
proof -
  let ?k = "nxt m n i"
  have "i \<le> ?k" "?k \<le> n" using assms nxt_ge nxt_le by auto
  then have "[i..<n] = [i..<?k] @ [?k..<n]" by (metis le_add_diff_inverse upt_add_eq_append)
  moreover have "filter (tst m) [i..<?k] = []"
    using nxt_miss by (auto simp: filter_empty_conv)
  ultimately have "filter (tst m) [i..<n] = filter (tst m) [?k..<n]" by simp
  also have "\<dots> = (if ?k < n then ?k # filter (tst m) [Suc ?k..<n] else [])"
    using nxt_hit by (simp add: upt_conv_Cons)
  finally show ?thesis .
qed

end

interpretation set_search: bit_search find_next_bit "\<lambda>m i. test_bit i m"
  by unfold_locales
    (auto simp: find_next_bit_eq first_in_le first_in_ge dest: first_in_hit first_in_miss)

interpretation zero_search: bit_search find_next_zero_bit "\<lambda>m i. \<not> test_bit i m"
  by unfold_locales
    (auto simp: find_next_zero_bit_eq first_in_le first_in_ge dest: first_in_hit first_in_miss)

text \<open>The loop \<open>for_each_bit\<close> of \<open>include/linux/bitops.h\<close>, which \<open>lib/bitmap.c\<close>
  writes out by hand: it ends because the search always moves forward.\<close>

function for_each_bit_from ::
    "bitmap \<Rightarrow> nat \<Rightarrow> (nat \<Rightarrow> 's \<Rightarrow> 's) \<Rightarrow> nat \<Rightarrow> 's \<Rightarrow> 's" where
  "for_each_bit_from addr n f bt s =
     (if bt < n then for_each_bit_from addr n f (find_next_bit addr n (bt + 1)) (f bt s) else s)"
  by pat_completeness auto
termination
proof (relation "measure (\<lambda>(addr, n, f, bt, s). n - bt)", goal_cases)
  case (2 addr n f bt s)
  then have "bt + 1 \<le> find_next_bit addr n (bt + 1)" by (intro set_search.nxt_ge) simp
  with 2 show ?case by simp
qed simp

declare for_each_bit_from.simps [simp del]

definition for_each_bit :: "bitmap \<Rightarrow> nat \<Rightarrow> (nat \<Rightarrow> 's \<Rightarrow> 's) \<Rightarrow> 's \<Rightarrow> 's" where
  "for_each_bit addr n f s = for_each_bit_from addr n f (find_first_bit addr n) s"

lemma for_each_bit_from_fold:
  "i \<le> n \<Longrightarrow>
   for_each_bit_from addr n f (find_next_bit addr n i) s = fold f (filter (tb addr) [i..<n]) s"
proof (induction "n - i" arbitrary: i s rule: less_induct)
  case less
  let ?k = "find_next_bit addr n i"
  show ?case
  proof (cases "?k < n")
    case True
    have "i \<le> ?k" using less.prems by (rule set_search.nxt_ge)
    then have "for_each_bit_from addr n f (find_next_bit addr n (Suc ?k)) (f ?k s)
        = fold f (filter (tb addr) [Suc ?k..<n]) (f ?k s)"
      using True less.prems by (intro less.hyps) auto
    then show ?thesis
      using True set_search.filter_nxt [OF less.prems, of addr]
      by (subst for_each_bit_from.simps) simp
  next
    case False
    then show ?thesis
      using set_search.filter_nxt [OF less.prems, of addr] by (subst for_each_bit_from.simps) simp
  qed
qed

lemma for_each_bit_fold: "for_each_bit addr n f s = fold f (filter (tb addr) [0..<n]) s"
proof -
  have "find_first_bit addr n = find_next_bit addr n 0"
    by (simp add: find_first_bit_eq find_next_bit_eq)
  then show ?thesis using for_each_bit_from_fold [of 0 n] by (simp add: for_each_bit_def)
qed

section \<open>Properties\<close>

text \<open>
  C11: each of the five word-at-a-time searches returns what a bit-at-a-time scan returns:
  the first set (clear) bit at or after the start and below the size, the last set bit, or
  the size itself if there is none.
\<close>
theorem find_bit_scan:
  "find_next_bit addr sz off = first_in (\<lambda>i. test_bit i addr) off sz \<and>
   find_next_zero_bit addr sz off = first_in (\<lambda>i. \<not> test_bit i addr) off sz \<and>
   find_first_bit addr sz = first_in (\<lambda>i. test_bit i addr) 0 sz \<and>
   find_first_zero_bit addr sz = first_in (\<lambda>i. \<not> test_bit i addr) 0 sz \<and>
   find_last_bit addr sz =
     (if \<exists>i < sz. test_bit i addr then Max {i. i < sz \<and> test_bit i addr} else sz)"
  by (simp_all add: find_next_bit_eq find_next_zero_bit_eq find_first_bit_eq
      find_first_zero_bit_eq find_last_bit_eq last_in_def)

end
