(* ===== verification/Bitmap.thy ===== *)
theory Bitmap
  imports FindBit
begin

text \<open>
  The bitmap library: \<open>lib/bitmap.c\<close> (all routines but the text conversions, which are in
  theory \<open>BitmapText\<close>) and the inline wrappers of \<open>include/linux/bitmap.h\<close>. The
  abstract value of a bitmap of \<open>n\<close> bits is the set \<open>bset m n\<close> of the positions of its
  set bits; the unused bits of the last word are not part of it.

  A source operand may be the destination array itself, as in most callers; \<open>operand\<close>
  says which, and \<open>rd\<close> reads the operand while the destination is being written.
\<close>

datatype operand = Dst | Other bitmap

fun rd :: "operand \<Rightarrow> bitmap \<Rightarrow> bitmap" where
  "rd Dst d = d"
| "rd (Other b) d = b"

definition bset :: "bitmap \<Rightarrow> nat \<Rightarrow> nat set" where
  "bset m n = {i. i < n \<and> test_bit i m}"

definition BITMAP_LAST_WORD_MASK :: "nat \<Rightarrow> ulong" where
  "BITMAP_LAST_WORD_MASK nbits =
     (if nbits mod BITS_PER_LONG \<noteq> 0 then push_bit (nbits mod BITS_PER_LONG) 1 - 1 else NOT 0)"

text \<open>\<open>memset(&dst[from], 0, cnt * sizeof(long))\<close>; the start may lie before the array.\<close>

definition memset0 :: "bitmap \<Rightarrow> int \<Rightarrow> nat \<Rightarrow> bitmap" where
  "memset0 d from cnt = (\<lambda>j. if from \<le> int j \<and> int j < from + int cnt then 0 else d j)"

section \<open>Tests\<close>

definition uu_bitmap_empty :: "bitmap \<Rightarrow> nat \<Rightarrow> bool" where
  "uu_bitmap_empty bitmap bits =
     (let lim = bits div BITS_PER_LONG in
      if list_ex (\<lambda>k. bitmap k \<noteq> 0) [0..<lim] then False
      else if bits mod BITS_PER_LONG \<noteq> 0
        \<and> bitmap lim AND BITMAP_LAST_WORD_MASK bits \<noteq> 0 then False
      else True)"

definition uu_bitmap_full :: "bitmap \<Rightarrow> nat \<Rightarrow> bool" where
  "uu_bitmap_full bitmap bits =
     (let lim = bits div BITS_PER_LONG in
      if list_ex (\<lambda>k. NOT (bitmap k) \<noteq> 0) [0..<lim] then False
      else if bits mod BITS_PER_LONG \<noteq> 0
        \<and> NOT (bitmap lim) AND BITMAP_LAST_WORD_MASK bits \<noteq> 0 then False
      else True)"

definition uu_bitmap_equal :: "bitmap \<Rightarrow> bitmap \<Rightarrow> nat \<Rightarrow> bool" where
  "uu_bitmap_equal bitmap1 bitmap2 bits =
     (let lim = bits div BITS_PER_LONG in
      if list_ex (\<lambda>k. bitmap1 k \<noteq> bitmap2 k) [0..<lim] then False
      else if bits mod BITS_PER_LONG \<noteq> 0
        \<and> (bitmap1 lim XOR bitmap2 lim) AND BITMAP_LAST_WORD_MASK bits \<noteq> 0 then False
      else True)"

definition uu_bitmap_intersects :: "bitmap \<Rightarrow> bitmap \<Rightarrow> nat \<Rightarrow> bool" where
  "uu_bitmap_intersects bitmap1 bitmap2 bits =
     (let lim = bits div BITS_PER_LONG in
      if list_ex (\<lambda>k. bitmap1 k AND bitmap2 k \<noteq> 0) [0..<lim] then True
      else if bits mod BITS_PER_LONG \<noteq> 0
        \<and> (bitmap1 lim AND bitmap2 lim) AND BITMAP_LAST_WORD_MASK bits \<noteq> 0 then True
      else False)"

definition uu_bitmap_subset :: "bitmap \<Rightarrow> bitmap \<Rightarrow> nat \<Rightarrow> bool" where
  "uu_bitmap_subset bitmap1 bitmap2 bits =
     (let lim = bits div BITS_PER_LONG in
      if list_ex (\<lambda>k. bitmap1 k AND NOT (bitmap2 k) \<noteq> 0) [0..<lim] then False
      else if bits mod BITS_PER_LONG \<noteq> 0
        \<and> (bitmap1 lim AND NOT (bitmap2 lim)) AND BITMAP_LAST_WORD_MASK bits \<noteq> 0 then False
      else True)"

definition uu_bitmap_weight :: "bitmap \<Rightarrow> nat \<Rightarrow> nat" where
  "uu_bitmap_weight bitmap bits =
     (let lim = bits div BITS_PER_LONG;
          w = fold (\<lambda>k w. w + unat (hweight_long (bitmap k))) [0..<lim] 0
      in if bits mod BITS_PER_LONG \<noteq> 0
         then w + unat (hweight_long (bitmap lim AND BITMAP_LAST_WORD_MASK bits))
         else w)"

section \<open>Word-wise operations\<close>

definition uu_bitmap_complement :: "bitmap \<Rightarrow> operand \<Rightarrow> nat \<Rightarrow> bitmap" where
  "uu_bitmap_complement dst src bits =
     (let lim = bits div BITS_PER_LONG;
          dst = fold (\<lambda>k d. d(k := NOT (rd src d k))) [0..<lim] dst
      in if bits mod BITS_PER_LONG \<noteq> 0
         then dst(lim := NOT (rd src dst lim) AND BITMAP_LAST_WORD_MASK bits)
         else dst)"

definition uu_bitmap_and :: "bitmap \<Rightarrow> operand \<Rightarrow> operand \<Rightarrow> nat \<Rightarrow> bitmap" where
  "uu_bitmap_and dst bitmap1 bitmap2 bits =
     (let nr = BITS_TO_LONGS bits
      in fold (\<lambda>k d. d(k := rd bitmap1 d k AND rd bitmap2 d k)) [0..<nr] dst)"

definition uu_bitmap_or :: "bitmap \<Rightarrow> operand \<Rightarrow> operand \<Rightarrow> nat \<Rightarrow> bitmap" where
  "uu_bitmap_or dst bitmap1 bitmap2 bits =
     (let nr = BITS_TO_LONGS bits
      in fold (\<lambda>k d. d(k := rd bitmap1 d k OR rd bitmap2 d k)) [0..<nr] dst)"

definition uu_bitmap_xor :: "bitmap \<Rightarrow> operand \<Rightarrow> operand \<Rightarrow> nat \<Rightarrow> bitmap" where
  "uu_bitmap_xor dst bitmap1 bitmap2 bits =
     (let nr = BITS_TO_LONGS bits
      in fold (\<lambda>k d. d(k := rd bitmap1 d k XOR rd bitmap2 d k)) [0..<nr] dst)"

definition uu_bitmap_andnot :: "bitmap \<Rightarrow> operand \<Rightarrow> operand \<Rightarrow> nat \<Rightarrow> bitmap" where
  "uu_bitmap_andnot dst bitmap1 bitmap2 bits =
     (let nr = BITS_TO_LONGS bits
      in fold (\<lambda>k d. d(k := rd bitmap1 d k AND NOT (rd bitmap2 d k))) [0..<nr] dst)"

text \<open>The value the loop of \<open>__bitmap_shift_right\<close> stores into \<open>dst[k]\<close>, with the
  bits that \<open>src\<close> holds at that moment; then the loop and the final \<open>memset\<close>.\<close>

definition shr_value :: "operand \<Rightarrow> nat \<Rightarrow> nat \<Rightarrow> nat \<Rightarrow> nat \<Rightarrow> nat \<Rightarrow> bitmap \<Rightarrow> ulong" where
  "shr_value src off rem lim left k d =
     (let msk = push_bit left 1 - 1;
          upper = (if rem = 0 \<or> off + k + 1 \<ge> lim then 0
                   else let u = rd src d (off + k + 1)
                        in if off + k + 1 = lim - 1 \<and> left \<noteq> 0 then u AND msk else u);
          lower = rd src d (off + k);
          lower = (if left \<noteq> 0 \<and> off + k = lim - 1 then lower AND msk else lower);
          v = push_bit (BITS_PER_LONG - rem) upper OR drop_bit rem lower
      in if left \<noteq> 0 \<and> k = lim - 1 then v AND msk else v)"

definition uu_bitmap_shift_right :: "bitmap \<Rightarrow> operand \<Rightarrow> nat \<Rightarrow> nat \<Rightarrow> bitmap" where
  "uu_bitmap_shift_right dst src shift bits =
     (let lim = BITS_TO_LONGS bits; left = bits mod BITS_PER_LONG;
          off = shift div BITS_PER_LONG; rem = shift mod BITS_PER_LONG;
          dst = fold (\<lambda>k d. d(k := shr_value src off rem lim left k d)) [0..<lim - off] dst
      in if off \<noteq> 0 then memset0 dst (int lim - int off) off else dst)"

definition shl_value :: "operand \<Rightarrow> nat \<Rightarrow> nat \<Rightarrow> nat \<Rightarrow> nat \<Rightarrow> nat \<Rightarrow> bitmap \<Rightarrow> ulong" where
  "shl_value src off rem lim left k d =
     (let lower = (if rem \<noteq> 0 \<and> k > 0 then rd src d (k - 1) else 0);
          upper = rd src d k;
          upper = (if left \<noteq> 0 \<and> k = lim - 1 then upper AND (push_bit left 1 - 1) else upper);
          v = drop_bit (BITS_PER_LONG - rem) lower OR push_bit rem upper
      in if left \<noteq> 0 \<and> k + off = lim - 1 then v AND (push_bit left 1 - 1) else v)"

definition uu_bitmap_shift_left :: "bitmap \<Rightarrow> operand \<Rightarrow> nat \<Rightarrow> nat \<Rightarrow> bitmap" where
  "uu_bitmap_shift_left dst src shift bits =
     (let lim = BITS_TO_LONGS bits; left = bits mod BITS_PER_LONG;
          off = shift div BITS_PER_LONG; rem = shift mod BITS_PER_LONG;
          dst = fold (\<lambda>k d. d(k + off := shl_value src off rem lim left k d))
                  (rev [0..<lim - off]) dst
      in if off \<noteq> 0 then memset0 dst 0 off else dst)"

section \<open>Words and bits\<close>

text \<open>A statement on all bits below \<open>n\<close>, word by word: the whole words and the masked last
  word, as every test of \<open>lib/bitmap.c\<close> is written.\<close>

lemma bset_code [code]: "bset m n = set (filter (\<lambda>i. test_bit i m) [0..<n])"
  by (auto simp: bset_def)

lemma LAST_WORD_MASK_eq: "n mod 32 \<noteq> 0 \<Longrightarrow> BITMAP_LAST_WORD_MASK n = mask (n mod 32)"
  by (simp add: BITMAP_LAST_WORD_MASK_def mask_eq_exp_minus_1)

lemma bit_LAST_WORD_MASK:
  "n mod 32 \<noteq> 0 \<Longrightarrow> bit (BITMAP_LAST_WORD_MASK n) i \<longleftrightarrow> i < n mod 32"
  using mod_less_divisor [of 32 n] by (simp add: LAST_WORD_MASK_eq bit_mask_iff) linarith

lemma all_bits_split:
  "(\<forall>i < n. P (i div 32) (i mod 32)) \<longleftrightarrow>
   (\<forall>k < n div 32. \<forall>b < 32. P k b) \<and> (\<forall>b < n mod 32. P (n div 32) b)" for n :: nat
proof (intro iffI conjI allI impI)
  assume all: "\<forall>i < n. P (i div 32) (i mod 32)"
  { fix k b assume "k < n div 32" "b < (32::nat)"
    then have "32 * k + b < n" by linarith
    then show "P k b" using all [rule_format, of "32 * k + b"] \<open>b < 32\<close> by simp }
  { fix b assume b: "b < n mod 32"
    then have "32 * (n div 32) + b < n" using mult_div_mod_eq [of 32 n] by linarith
    moreover have "b < 32" using b mod_less_divisor [of 32 n] by linarith
    ultimately show "P (n div 32) b" using all [rule_format, of "32 * (n div 32) + b"] by simp }
next
  fix i assume *: "(\<forall>k < n div 32. \<forall>b < 32. P k b) \<and> (\<forall>b < n mod 32. P (n div 32) b)" "i < n"
  have "i div 32 \<le> n div 32" using *(2) by (simp add: div_le_mono)
  then consider "i div 32 < n div 32" | "i div 32 = n div 32" by linarith
  then show "P (i div 32) (i mod 32)"
  proof cases
    case 2
    with *(2) have "i mod 32 < n mod 32"
      using mult_div_mod_eq [of 32 n] mult_div_mod_eq [of 32 i] by linarith
    with 2 *(1) show ?thesis by simp
  qed (use * in simp)
qed

lemma masked_eq_0:
  "n mod 32 \<noteq> 0 \<Longrightarrow> x AND BITMAP_LAST_WORD_MASK n = 0 \<longleftrightarrow> (\<forall>b < n mod 32. \<not> bit x b)"
  by (simp add: LAST_WORD_MASK_eq and_mask_eq_0)

lemma no_bits_iff:
  "(\<not> list_ex (\<lambda>k. f k \<noteq> (0 :: ulong)) [0..<n div 32]) \<and>
   (n mod 32 \<noteq> 0 \<longrightarrow> f (n div 32) AND BITMAP_LAST_WORD_MASK n = 0) \<longleftrightarrow>
   (\<forall>i < n. \<not> bit (f (i div 32)) (i mod 32))"
proof -
  have "(\<not> list_ex (\<lambda>k. f k \<noteq> 0) [0..<n div 32]) \<longleftrightarrow> (\<forall>k < n div 32. \<forall>b < 32. \<not> bit (f k) b)"
    by (auto simp: list_ex_iff word_eq_0_iff_bits)
  moreover have "(n mod 32 \<noteq> 0 \<longrightarrow> f (n div 32) AND BITMAP_LAST_WORD_MASK n = 0) \<longleftrightarrow>
      (\<forall>b < n mod 32. \<not> bit (f (n div 32)) b)"
    using masked_eq_0 [of n "f (n div 32)"] by (cases "n mod 32 = 0") auto
  ultimately show ?thesis
    by (simp only: all_bits_split [where P = "\<lambda>k b. \<not> bit (f k) b"])
qed

lemma bset_bit: "i \<in> bset m n \<longleftrightarrow> i < n \<and> bit (m (i div 32)) (i mod 32)"
  by (simp add: bset_def test_bit_iff)

lemma empty_iff: "uu_bitmap_empty m n \<longleftrightarrow> bset m n = {}"
proof -
  have "uu_bitmap_empty m n \<longleftrightarrow> (\<forall>i < n. \<not> bit (m (i div 32)) (i mod 32))"
    unfolding uu_bitmap_empty_def Let_def BITS_PER_LONG_def no_bits_iff [symmetric] by simp
  then show ?thesis by (auto simp: set_eq_iff bset_bit)
qed

lemma full_iff: "uu_bitmap_full m n \<longleftrightarrow> bset m n = {..<n}"
proof -
  have "uu_bitmap_full m n \<longleftrightarrow> (\<forall>i < n. \<not> bit (NOT (m (i div 32))) (i mod 32))"
    unfolding uu_bitmap_full_def Let_def BITS_PER_LONG_def
      no_bits_iff [of "\<lambda>k. NOT (m k)", symmetric] by simp
  then show ?thesis by (simp add: set_eq_iff bset_bit bit_not_iff) blast
qed

lemma equal_iff: "uu_bitmap_equal m1 m2 n \<longleftrightarrow> bset m1 n = bset m2 n"
proof -
  have "x \<noteq> y \<longleftrightarrow> x XOR y \<noteq> 0" for x y :: ulong
    by (metis xor.assoc xor_self_eq xor.left_neutral)
  then have "uu_bitmap_equal m1 m2 n \<longleftrightarrow>
      (\<forall>i < n. \<not> bit (m1 (i div 32) XOR m2 (i div 32)) (i mod 32))"
    unfolding uu_bitmap_equal_def Let_def BITS_PER_LONG_def
      no_bits_iff [of "\<lambda>k. m1 k XOR m2 k", symmetric] by simp
  then show ?thesis by (simp add: set_eq_iff bset_bit bit_xor_iff) blast
qed

lemma intersects_iff: "uu_bitmap_intersects m1 m2 n \<longleftrightarrow> bset m1 n \<inter> bset m2 n \<noteq> {}"
proof -
  have "\<not> uu_bitmap_intersects m1 m2 n \<longleftrightarrow>
      (\<forall>i < n. \<not> bit (m1 (i div 32) AND m2 (i div 32)) (i mod 32))"
    unfolding uu_bitmap_intersects_def Let_def BITS_PER_LONG_def
      no_bits_iff [of "\<lambda>k. m1 k AND m2 k", symmetric] by simp
  then show ?thesis by (simp add: set_eq_iff bset_bit bit_and_iff) blast
qed

lemma subset_iff: "uu_bitmap_subset m1 m2 n \<longleftrightarrow> bset m1 n \<subseteq> bset m2 n"
proof -
  have "uu_bitmap_subset m1 m2 n \<longleftrightarrow>
      (\<forall>i < n. \<not> bit (m1 (i div 32) AND NOT (m2 (i div 32))) (i mod 32))"
    unfolding uu_bitmap_subset_def Let_def BITS_PER_LONG_def
      no_bits_iff [of "\<lambda>k. m1 k AND NOT (m2 k)", symmetric] by simp
  then show ?thesis by (auto simp: bset_bit bit_and_iff bit_not_iff)
qed

section \<open>The number of set bits\<close>

lemma finite_bset [simp]: "finite (bset m n)"
  by (rule finite_subset [of _ "{..<n}"]) (auto simp: bset_def)

lemma card_bset_word:
  assumes "r \<le> 32"
  shows "card (bset m (32 * q + r)) = card (bset m (32 * q)) + card {b. b < r \<and> bit (m q) b}"
proof -
  let ?B = "{b. b < r \<and> bit (m q) b}"
  have "bset m (32 * q + r) = bset m (32 * q) \<union> (+) (32 * q) ` ?B"
  proof (rule set_eqI)
    fix i
    show "i \<in> bset m (32 * q + r) \<longleftrightarrow> i \<in> bset m (32 * q) \<union> (+) (32 * q) ` ?B"
    proof (cases "i < 32 * q")
      case True
      then show ?thesis by (auto simp: bset_def)
    next
      case False
      then obtain b where "i = 32 * q + b" using le_Suc_ex not_le by blast
      then show ?thesis using assms by (auto simp: bset_def test_bit_word image_iff)
    qed
  qed
  moreover have "bset m (32 * q) \<inter> (+) (32 * q) ` ?B = {}" by (auto simp: bset_def)
  moreover have "card ((+) (32 * q) ` ?B) = card ?B" by (rule card_image) (simp add: inj_on_def)
  ultimately show ?thesis by (simp add: card_Un_disjoint)
qed

lemma card_bset_words: "card (bset m (32 * q)) = (\<Sum>k < q. popcount (m k))"
proof (induction q)
  case 0
  then show ?case by (simp add: bset_def)
next
  case (Suc q)
  have "popcount (m q) = card {b. b < 32 \<and> bit (m q) b}" by (simp add: popcount_def)
  with card_bset_word [of 32 m q] Suc show ?case by (simp add: add.commute)
qed

lemma fold_plus_sum: "fold (\<lambda>k w. w + f k) [0..<q] a = a + (\<Sum>k < q. f k)" for a :: nat
  by (induction q) simp_all

lemma weight_card: "uu_bitmap_weight m n = card (bset m n)"
proof -
  define q where "q = n div 32"
  define r where "r = n mod 32"
  have n: "n = 32 * q + r" "r < 32" by (auto simp: q_def r_def)
  have hw: "unat (hweight_long x) = popcount x" for x
    by (simp add: hweight_long_def hweight32_popcount)
  have "popcount (m q AND BITMAP_LAST_WORD_MASK n) = card {b. b < r \<and> bit (m q) b}" if "r \<noteq> 0"
    unfolding popcount_def using that n(2)
    by (intro arg_cong [where f = card]) (auto simp: bit_and_iff bit_LAST_WORD_MASK r_def)
  then have "uu_bitmap_weight m n = (\<Sum>k < q. popcount (m k)) + card {b. b < r \<and> bit (m q) b}"
    unfolding uu_bitmap_weight_def Let_def BITS_PER_LONG_def q_def [symmetric] r_def [symmetric]
      fold_plus_sum hw by (cases "r = 0") auto
  with card_bset_word [of r m q] n show ?thesis by (simp add: card_bset_words)
qed

section \<open>Word-wise operations\<close>

lemma rd_cong: "d k = d' k \<Longrightarrow> rd s d k = rd s d' k"
  by (cases s) simp_all

lemma BITS_TO_LONGS_eq: "BITS_TO_LONGS n = n div 32 + (if n mod 32 = 0 then 0 else 1)"
proof -
  define q where "q = n div 32"
  define r where "r = n mod 32"
  have n: "n = 32 * q + r" "r < 32" by (auto simp: q_def r_def)
  have "(n + 32 - 1) div 32 = q + (r + 31) div 32" using n(1) by simp
  moreover have "(r + 31) div 32 = (if r = 0 then 0 else 1)"
    using n(2) by (auto intro: div_nat_eqI)
  ultimately show ?thesis by (simp add: BITS_TO_LONGS_def q_def r_def)
qed

lemma BITS_TO_LONGS_less: "i < n \<Longrightarrow> i div 32 < BITS_TO_LONGS n"
  unfolding BITS_TO_LONGS_def by linarith

lemma word_op_eq:
  assumes "\<And>k d d'. d k = d' k \<Longrightarrow> g k d = g k d'"
  shows "fold (\<lambda>k d. d(k := g k d)) [0..<m] dst j = (if j < m then g j dst else dst j)"
  by (rule fold_upd_asc) (rule assms, simp)

lemma word_op2_eq:
  "fold (\<lambda>k d. d(k := f (rd s1 d k) (rd s2 d k))) [0..<m] dst j =
   (if j < m then f (rd s1 dst j) (rd s2 dst j) else dst j)"
  by (rule word_op_eq) (metis rd_cong)

lemma bset_word_op2:
  "i \<in> bset (fold (\<lambda>k d. d(k := f (rd s1 d k) (rd s2 d k))) [0..<BITS_TO_LONGS n] dst) n \<longleftrightarrow>
   i < n \<and> bit (f (rd s1 dst (i div 32)) (rd s2 dst (i div 32))) (i mod 32)"
  using BITS_TO_LONGS_less [of i n] by (auto simp: bset_bit word_op2_eq)

lemma bset_and:
  "bset (uu_bitmap_and dst s1 s2 n) n = bset (rd s1 dst) n \<inter> bset (rd s2 dst) n"
  unfolding uu_bitmap_and_def Let_def
  by (rule set_eqI, subst bset_word_op2 [of _ "(AND)"]) (auto simp: bset_bit bit_and_iff)

lemma bset_or:
  "bset (uu_bitmap_or dst s1 s2 n) n = bset (rd s1 dst) n \<union> bset (rd s2 dst) n"
  unfolding uu_bitmap_or_def Let_def
  by (rule set_eqI, subst bset_word_op2 [of _ "(OR)"]) (auto simp: bset_bit bit_or_iff)

lemma bset_xor:
  "bset (uu_bitmap_xor dst s1 s2 n) n =
   (bset (rd s1 dst) n - bset (rd s2 dst) n) \<union> (bset (rd s2 dst) n - bset (rd s1 dst) n)"
  unfolding uu_bitmap_xor_def Let_def
  by (rule set_eqI, subst bset_word_op2 [of _ "(XOR)"]) (auto simp: bset_bit bit_xor_iff)

lemma bset_andnot:
  "bset (uu_bitmap_andnot dst s1 s2 n) n = bset (rd s1 dst) n - bset (rd s2 dst) n"
  unfolding uu_bitmap_andnot_def Let_def
  by (rule set_eqI, subst bset_word_op2 [of _ "\<lambda>a b. a AND NOT b"]) (auto simp: bset_bit bit_and_iff bit_not_iff)

lemma bset_complement: "bset (uu_bitmap_complement dst s n) n = {..<n} - bset (rd s dst) n"
proof -
  define d1 where "d1 = fold (\<lambda>k d. d(k := NOT (rd s d k))) [0..<n div 32] dst"
  have d1: "d1 j = (if j < n div 32 then NOT (rd s dst j) else dst j)" for j
    unfolding d1_def by (rule word_op_eq) (metis rd_cong)
  have d1s: "rd s d1 (n div 32) = rd s dst (n div 32)"
    by (rule rd_cong) (simp add: d1)
  have eq: "uu_bitmap_complement dst s n =
      (if n mod 32 \<noteq> 0
       then d1(n div 32 := NOT (rd s dst (n div 32)) AND BITMAP_LAST_WORD_MASK n) else d1)"
    unfolding uu_bitmap_complement_def Let_def by (simp add: d1_def [symmetric] d1s)
  have "bit (uu_bitmap_complement dst s n (i div 32)) (i mod 32) \<longleftrightarrow>
      \<not> bit (rd s dst (i div 32)) (i mod 32)" if "i < n" for i
  proof (cases "i div 32 = n div 32")
    case True
    then have "i mod 32 < n mod 32"
      using that mult_div_mod_eq [of 32 n] mult_div_mod_eq [of 32 i] by linarith
    then have "i mod 32 < n mod 32" "n mod 32 \<noteq> 0" by simp_all
    with True show ?thesis by (simp add: eq bit_and_iff bit_not_iff bit_LAST_WORD_MASK)
  next
    case False
    moreover have "i div 32 \<le> n div 32" using that by (simp add: div_le_mono)
    ultimately show ?thesis by (simp add: eq d1 bit_not_iff)
  qed
  then show ?thesis by (auto simp: bset_bit)
qed

text \<open>No operation touches the words above the bitmap.\<close>

lemma word_ops_frame:
  assumes "BITS_TO_LONGS n \<le> j"
  shows "uu_bitmap_and dst s1 s2 n j = dst j" "uu_bitmap_or dst s1 s2 n j = dst j"
    "uu_bitmap_xor dst s1 s2 n j = dst j" "uu_bitmap_andnot dst s1 s2 n j = dst j"
    "uu_bitmap_complement dst s1 n j = dst j"
proof -
  have nc: "n div 32 < j \<or> n mod 32 = 0 \<and> n div 32 \<le> j"
    using assms by (auto simp: BITS_TO_LONGS_eq split: if_splits)
  show "uu_bitmap_and dst s1 s2 n j = dst j" "uu_bitmap_or dst s1 s2 n j = dst j"
    "uu_bitmap_xor dst s1 s2 n j = dst j"
    using assms word_op2_eq [of "(AND)" s1 s2] word_op2_eq [of "(OR)" s1 s2] word_op2_eq [of "(XOR)" s1 s2]
    by (simp_all add: uu_bitmap_and_def uu_bitmap_or_def uu_bitmap_xor_def Let_def)
  show "uu_bitmap_andnot dst s1 s2 n j = dst j"
    using assms word_op2_eq [of "\<lambda>a b. a AND NOT b" s1 s2] by (simp add: uu_bitmap_andnot_def Let_def)
  have "fold (\<lambda>k d. d(k := NOT (rd s1 d k))) [0..<n div 32] dst j = dst j"
    using nc by (subst word_op_eq) (metis rd_cong, auto)
  then show "uu_bitmap_complement dst s1 n j = dst j"
    using nc by (auto simp: uu_bitmap_complement_def Let_def)
qed

section \<open>Shifts\<close>

text \<open>The word \<open>j\<close> of an operand with the bits at or above \<open>n\<close> cleared: what the shifts
  feed into their result.\<close>

definition clean_word :: "bitmap \<Rightarrow> nat \<Rightarrow> nat \<Rightarrow> ulong" where
  "clean_word m n j =
     (if n mod 32 \<noteq> 0 \<and> j = BITS_TO_LONGS n - 1 then m j AND mask (n mod 32) else m j)"

lemma bit_clean_word:
  assumes "j < BITS_TO_LONGS n" "b < 32"
  shows "bit (clean_word m n j) b \<longleftrightarrow> 32 * j + b < n \<and> bit (m j) b"
proof -
  define q where "q = n div 32"
  define r where "r = n mod 32"
  have n: "n = 32 * q + r" "r < 32" by (auto simp: q_def r_def)
  have lim: "BITS_TO_LONGS n = q + (if r = 0 then 0 else 1)"
    by (simp add: BITS_TO_LONGS_eq q_def r_def)
  show ?thesis
  proof (cases "j < q")
    case True
    then have "32 * j + b < n" using n assms(2) by simp
    moreover have "clean_word m n j = m j" using True lim by (auto simp: clean_word_def r_def)
    ultimately show ?thesis by simp
  next
    case False
    with assms(1) lim have "j = q" "r \<noteq> 0" by (auto split: if_splits)
    then show ?thesis using n assms(2) lim
      by (auto simp: clean_word_def bit_and_iff bit_mask_iff r_def [symmetric])
  qed
qed

lemma test_bit_clean:
  assumes "j < BITS_TO_LONGS n" "b < 32"
  shows "bit (clean_word m n j) b \<longleftrightarrow> 32 * j + b \<in> bset m n"
  using bit_clean_word [OF assms] assms(2) by (simp add: bset_def test_bit_word)


lemma shr_value_clean:
  "shr_value src off rm (BITS_TO_LONGS n) (n mod 32) k d =
    (let lim = BITS_TO_LONGS n;
         upper = (if rm = 0 \<or> off + k + 1 \<ge> lim then 0 else clean_word (rd src d) n (off + k + 1));
         v = push_bit (32 - rm) upper OR drop_bit rm (clean_word (rd src d) n (off + k))
     in if n mod 32 \<noteq> 0 \<and> k = lim - 1 then v AND mask (n mod 32) else v)"
  unfolding shr_value_def clean_word_def Let_def BITS_PER_LONG_def shift_mask_eq
  by (simp add: conj_commute)

lemma shl_value_clean:
  "shl_value src off rm (BITS_TO_LONGS n) (n mod 32) k d =
    (let lim = BITS_TO_LONGS n;
         lower = (if rm \<noteq> 0 \<and> k > 0 then rd src d (k - 1) else 0);
         v = drop_bit (32 - rm) lower OR push_bit rm (clean_word (rd src d) n k)
     in if n mod 32 \<noteq> 0 \<and> k + off = lim - 1 then v AND mask (n mod 32) else v)"
  unfolding shl_value_def clean_word_def Let_def BITS_PER_LONG_def shift_mask_eq
  by simp

lemma last_word_mask_bit:
  fixes v :: ulong
  assumes "32 * k + b < n" "b < 32"
  shows "bit (if n mod 32 \<noteq> 0 \<and> k = BITS_TO_LONGS n - 1 then v AND mask (n mod 32) else v) b
         \<longleftrightarrow> bit v b"
proof -
  have "b < n mod 32" if "n mod 32 \<noteq> 0" "k = BITS_TO_LONGS n - 1"
  proof -
    have "k = n div 32" using that by (simp add: BITS_TO_LONGS_eq)
    then show ?thesis using assms(1) mult_div_mod_eq [of 32 n] by linarith
  qed
  then show ?thesis using assms(2) by (auto simp: bit_and_iff bit_mask_iff)
qed

lemma shr_value_bit:
  assumes "32 * k + b < n" "b < 32" "k + shift div 32 < BITS_TO_LONGS n"
  shows "bit (shr_value src (shift div 32) (shift mod 32) (BITS_TO_LONGS n) (n mod 32) k d) b
         \<longleftrightarrow> 32 * k + b + shift \<in> bset (rd src d) n"
proof -
  define off where "off = shift div 32"
  define rm where "rm = shift mod 32"
  have sh: "shift = 32 * off + rm" "rm < 32" by (auto simp: off_def rm_def)
  let ?C = "clean_word (rd src d) n"
  let ?u = "if rm = 0 \<or> off + k + 1 \<ge> BITS_TO_LONGS n then 0 else ?C (off + k + 1)"
  have "bit (shr_value src off rm (BITS_TO_LONGS n) (n mod 32) k d) b \<longleftrightarrow>
      bit (push_bit (32 - rm) ?u OR drop_bit rm (?C (off + k))) b"
    unfolding shr_value_clean Let_def by (rule last_word_mask_bit [OF assms(1,2)])
  also have "\<dots> \<longleftrightarrow> (if b + rm < 32 then bit (?C (off + k)) (b + rm) else bit ?u (b + rm - 32))"
    using assms(2) sh(2) bit32D [of "?C (off + k)" "rm + b"]
    by (auto simp: bit_simps add.commute)
  also have "\<dots> \<longleftrightarrow> 32 * k + b + shift \<in> bset (rd src d) n"
  proof (cases "b + rm < 32")
    case True
    then show ?thesis
      using test_bit_clean [of "off + k" n "b + rm" "rd src d"] assms(3) sh(1)
      by (simp add: off_def [symmetric] algebra_simps)
  next
    case False
    define c where "c = b + rm - 32"
    have c: "b + rm = 32 + c" "c < 32" "rm \<noteq> 0" using False assms(2) sh(2) by (auto simp: c_def)
    have pos: "32 * k + b + shift = 32 * (off + k + 1) + c" using sh(1) c(1) by simp
    show ?thesis
    proof (cases "off + k + 1 < BITS_TO_LONGS n")
      case True
      then show ?thesis
        using False test_bit_clean [OF True c(2), of "rd src d"] c(3)
        by (simp add: pos c_def [symmetric])
    next
      case out: False
      then have "\<not> 32 * k + b + shift < n"
        unfolding pos using BITS_TO_LONGS_less [of "32 * (off + k + 1) + c" n] c(2) by auto
      with False out show ?thesis by (auto simp: bset_def)
    qed
  qed
  finally show ?thesis by (simp add: off_def rm_def)
qed

lemma shr_value_cong:
  assumes "\<And>i. k \<le> i \<Longrightarrow> d i = d' i"
  shows "shr_value src off rm lim left k d = shr_value src off rm lim left k d'"
proof -
  have "rd src d (off + k) = rd src d' (off + k)"
    "rd src d (off + k + 1) = rd src d' (off + k + 1)"
    by (auto intro!: rd_cong assms)
  then show ?thesis unfolding shr_value_def by (simp only:)
qed

lemma shift_right_word:
  "uu_bitmap_shift_right dst src shift n j =
    (let off = shift div 32; lim = BITS_TO_LONGS n
     in if j < lim - off then shr_value src off (shift mod 32) lim (n mod 32) j dst
        else if j < lim then 0 else dst j)"
  using fold_upd_asc [of "shr_value src (shift div 32) (shift mod 32) (BITS_TO_LONGS n) (n mod 32)",
      OF shr_value_cong]
  by (auto simp: uu_bitmap_shift_right_def Let_def memset0_def)

lemma bset_shift_right:
  "bset (uu_bitmap_shift_right dst src shift n) n = {i. i + shift \<in> bset (rd src dst) n}"
proof (rule set_eqI)
  fix i
  show "i \<in> bset (uu_bitmap_shift_right dst src shift n) n \<longleftrightarrow>
        i \<in> {i. i + shift \<in> bset (rd src dst) n}"
  proof (cases "i < n")
    case True
    have i: "32 * (i div 32) + i mod 32 = i" by simp
    show ?thesis
    proof (cases "i div 32 + shift div 32 < BITS_TO_LONGS n")
      case in_range: True
      then have "i div 32 < BITS_TO_LONGS n - shift div 32" by simp
      with True shr_value_bit [of "i div 32" "i mod 32" n shift src dst] in_range show ?thesis
        by (simp add: bset_bit shift_right_word Let_def)
    next
      case False
      have "i div 32 + shift div 32 \<le> (i + shift) div 32" by (subst div_add1_eq) simp
      with False have "BITS_TO_LONGS n \<le> (i + shift) div 32" by (meson le_trans not_less)
      then have "\<not> i + shift < n" using BITS_TO_LONGS_less [of "i + shift" n] by (meson not_less)
      with False True BITS_TO_LONGS_less [OF True] show ?thesis
        by (auto simp: bset_bit shift_right_word Let_def)
    qed
  next
    case False
    then show ?thesis by (auto simp: bset_def)
  qed
qed

lemma shl_value_bit:
  assumes i: "i = 32 * (k + off) + b" "i < n" "b < 32" and sh: "shift = 32 * off + rm" "rm < 32"
  shows "bit (shl_value src off rm (BITS_TO_LONGS n) (n mod 32) k d) b
         \<longleftrightarrow> shift \<le> i \<and> i - shift \<in> bset (rd src d) n"
proof -
  let ?C = "clean_word (rd src d) n"
  let ?l = "if rm \<noteq> 0 \<and> k > 0 then rd src d (k - 1) else 0"
  have lim: "k + off < BITS_TO_LONGS n"
    using BITS_TO_LONGS_less [OF i(2)] i by simp
  have "bit (shl_value src off rm (BITS_TO_LONGS n) (n mod 32) k d) b \<longleftrightarrow>
      bit (drop_bit (32 - rm) ?l OR push_bit rm (?C k)) b"
    unfolding shl_value_clean Let_def by (rule last_word_mask_bit) (use i in auto)
  also have "\<dots> \<longleftrightarrow> (if rm \<le> b then bit (?C k) (b - rm) else bit ?l (32 - rm + b))"
    using i(3) sh(2) bit32D [of ?l "32 - rm + b"] by (auto simp: bit_simps)
  also have "\<dots> \<longleftrightarrow> shift \<le> i \<and> i - shift \<in> bset (rd src d) n"
  proof (cases "rm \<le> b")
    case True
    then have "i - shift = 32 * k + (b - rm)" "shift \<le> i" using i(1) sh(1) by auto
    then show ?thesis using True test_bit_clean [of k n "b - rm" "rd src d"] lim i(3) by simp
  next
    case False
    show ?thesis
    proof (cases "k = 0")
      case True
      with False i(1) sh(1) show ?thesis by simp
    next
      case k: False
      define c where "c = 32 - rm + b"
      have c: "c < 32" "c + rm = 32 + b" using False sh(2) by (auto simp: c_def)
      have "32 * k = 32 * (k - 1) + 32" using k by (cases k) auto
      then have pos: "i - shift = 32 * (k - 1) + c" "shift \<le> i"
        using i(1) sh(1) c by auto
      then have "i - shift < n" using i(2) by simp
      with False k pos c(1) show ?thesis
        by (simp add: bset_def test_bit_word c_def [symmetric])
    qed
  qed
  finally show ?thesis .
qed

lemma shl_value_cong:
  assumes "\<And>i. i \<le> k + off \<Longrightarrow> d i = d' i"
  shows "shl_value src off rm lim left k d = shl_value src off rm lim left k d'"
proof -
  have "rd src d k = rd src d' k" "rd src d (k - 1) = rd src d' (k - 1)"
    by (auto intro!: rd_cong assms)
  then show ?thesis unfolding shl_value_def by (simp only:)
qed

lemma shift_left_word:
  "uu_bitmap_shift_left dst src shift n j =
    (let off = shift div 32; lim = BITS_TO_LONGS n
     in if j < off then 0
        else if j < lim then shl_value src off (shift mod 32) lim (n mod 32) (j - off) dst
        else dst j)"
  using fold_upd_desc [of "shift div 32"
      "shl_value src (shift div 32) (shift mod 32) (BITS_TO_LONGS n) (n mod 32)",
      OF shl_value_cong]
  by (auto simp: uu_bitmap_shift_left_def Let_def memset0_def)

lemma bset_shift_left:
  "bset (uu_bitmap_shift_left dst src shift n) n =
   {i. i < n \<and> shift \<le> i \<and> i - shift \<in> bset (rd src dst) n}"
proof (rule set_eqI)
  fix i
  show "i \<in> bset (uu_bitmap_shift_left dst src shift n) n \<longleftrightarrow>
        i \<in> {i. i < n \<and> shift \<le> i \<and> i - shift \<in> bset (rd src dst) n}"
  proof (cases "i < n")
    case True
    have sh: "shift = 32 * (shift div 32) + shift mod 32" by simp
    show ?thesis
    proof (cases "i div 32 < shift div 32")
      case low: True
      then have "\<not> shift \<le> i" by (meson div_le_mono leD)
      with low show ?thesis by (simp add: bset_bit shift_left_word Let_def)
    next
      case False
      then have i: "i = 32 * (i div 32 - shift div 32 + shift div 32) + i mod 32" by simp
      show ?thesis
        using False True BITS_TO_LONGS_less [OF True] shl_value_bit [OF i True _ sh, of src dst]
        by (simp add: bset_bit [of i] shift_left_word Let_def)
    qed
  next
    case False
    then show ?thesis by (simp add: bset_def)
  qed
qed

section \<open>Properties\<close>



text \<open>
  C13: the predicates decide emptiness, fullness, equality, intersection and inclusion of the
  sets of valid bits, and the weight is the number of valid bits: bits of the last word
  beyond \<open>n\<close> never matter.
\<close>
theorem bitmap_tests:
  "(uu_bitmap_empty m n \<longleftrightarrow> bset m n = {}) \<and> (uu_bitmap_full m n \<longleftrightarrow> bset m n = {..<n}) \<and>
   (uu_bitmap_equal m m' n \<longleftrightarrow> bset m n = bset m' n) \<and>
   (uu_bitmap_intersects m m' n \<longleftrightarrow> bset m n \<inter> bset m' n \<noteq> {}) \<and>
   (uu_bitmap_subset m m' n \<longleftrightarrow> bset m n \<subseteq> bset m' n) \<and>
   uu_bitmap_weight m n = card (bset m n)"
  by (simp add: empty_iff full_iff equal_iff intersects_iff subset_iff weight_card)


end
