(* ===== verification/BitmapRegion.thy ===== *)
theory BitmapRegion
  imports Bitmap
begin

text \<open>
  The region allocator of \<open>lib/bitmap.c\<close> (\<open>__reg_op\<close> and the three
  \<open>bitmap_*_region\<close> routines): regions are aligned runs of \<open>2 ^ ord\<close> bits. The
  lemmas show which bits \<open>__reg_op\<close> tests and writes for every order (a run inside one
  word or a run of whole words) and that the search returns the lowest free region.
\<close>

datatype reg_op = REG_OP_ISFREE | REG_OP_ALLOC | REG_OP_RELEASE

definition uu_reg_op :: "bitmap \<Rightarrow> nat \<Rightarrow> nat \<Rightarrow> reg_op \<Rightarrow> bool \<times> bitmap" where
  "uu_reg_op bitmap pos ord op =
     (let nbits_reg = 2 ^ ord;
          index = pos div BITS_PER_LONG;
          offset = pos - index * BITS_PER_LONG;
          nlongs_reg = BITS_TO_LONGS nbits_reg;
          nbitsinlong = min nbits_reg BITS_PER_LONG;
          msk = push_bit (nbitsinlong - 1) (1 :: ulong);
          msk = msk + (msk - 1);
          msk = push_bit offset msk
      in case op of
           REG_OP_ISFREE \<Rightarrow>
             if list_ex (\<lambda>i. bitmap (index + i) AND msk \<noteq> 0) [0..<nlongs_reg]
             then (False, bitmap) else (True, bitmap)
         | REG_OP_ALLOC \<Rightarrow>
             (False, fold (\<lambda>i b. b(index + i := b (index + i) OR msk)) [0..<nlongs_reg] bitmap)
         | REG_OP_RELEASE \<Rightarrow>
             (False, fold (\<lambda>i b. b(index + i := b (index + i) AND NOT msk)) [0..<nlongs_reg]
                       bitmap))"

function ffr_loop :: "bitmap \<Rightarrow> nat \<Rightarrow> nat \<Rightarrow> nat \<Rightarrow> errno + (nat \<times> bitmap)" where
  "ffr_loop bitmap bits ord pos =
     (let rend = pos + 2 ^ ord in
      if rend \<le> bits then
        if \<not> fst (uu_reg_op bitmap pos ord REG_OP_ISFREE) then ffr_loop bitmap bits ord rend
        else Inr (pos, snd (uu_reg_op bitmap pos ord REG_OP_ALLOC))
      else Inl ENOMEM)"
  by pat_completeness auto
termination
proof (relation "measure (\<lambda>(bitmap, bits, ord, pos). bits - pos)", goal_cases)
  case (2 bitmap bits ord pos rend)
  have "(0::nat) < 2 ^ ord" by simp
  with 2 have "bits - rend < bits - pos" by linarith
  then show ?case by simp
qed simp

definition bitmap_find_free_region :: "bitmap \<Rightarrow> nat \<Rightarrow> nat \<Rightarrow> errno + (nat \<times> bitmap)" where
  "bitmap_find_free_region bitmap bits ord = ffr_loop bitmap bits ord 0"

definition bitmap_release_region :: "bitmap \<Rightarrow> nat \<Rightarrow> nat \<Rightarrow> bitmap" where
  "bitmap_release_region bitmap pos ord = snd (uu_reg_op bitmap pos ord REG_OP_RELEASE)"

definition bitmap_allocate_region :: "bitmap \<Rightarrow> nat \<Rightarrow> nat \<Rightarrow> errno + bitmap" where
  "bitmap_allocate_region bitmap pos ord =
     (if \<not> fst (uu_reg_op bitmap pos ord REG_OP_ISFREE) then Inl EBUSY
      else Inr (snd (uu_reg_op bitmap pos ord REG_OP_ALLOC)))"

declare ffr_loop.simps [simp del]

section \<open>The mask of a region\<close>

definition reg_mask :: "nat \<Rightarrow> nat \<Rightarrow> ulong" where
  "reg_mask pos ord = push_bit (pos mod 32) (mask (min (2 ^ ord) 32))"

lemma two_mask_eq: "0 < n \<Longrightarrow> push_bit (n - 1) 1 + (push_bit (n - 1) 1 - 1) = (mask n :: ulong)"
  by (cases n) (simp_all add: mask_eq_exp_minus_1)

lemma reg_op_eq:
  "uu_reg_op m pos ord op =
     (let q = pos div 32; nl = BITS_TO_LONGS (2 ^ ord) in
      case op of
        REG_OP_ISFREE \<Rightarrow> (\<not> list_ex (\<lambda>i. m (q + i) AND reg_mask pos ord \<noteq> 0) [0..<nl], m)
      | REG_OP_ALLOC \<Rightarrow> (False, fold (\<lambda>i b. b(q + i := b (q + i) OR reg_mask pos ord)) [0..<nl] m)
      | REG_OP_RELEASE \<Rightarrow>
          (False, fold (\<lambda>i b. b(q + i := b (q + i) AND NOT (reg_mask pos ord))) [0..<nl] m))"
proof -
  have "pos - pos div 32 * 32 = pos mod 32" by (simp add: minus_div_mult_eq_mod)
  then have "push_bit (pos - pos div 32 * 32)
     (push_bit (min (2 ^ ord) 32 - 1) 1 + (push_bit (min (2 ^ ord) 32 - 1) 1 - 1)) = reg_mask pos ord"
    using two_mask_eq [of "min (2 ^ ord) 32"] by (simp add: reg_mask_def)
  then show ?thesis
    unfolding uu_reg_op_def Let_def BITS_PER_LONG_def by (auto split: reg_op.split)
qed

text \<open>The words and bits an aligned region covers.\<close>

lemma region_bits:
  assumes al: "2 ^ ord dvd pos" and b: "b < 32"
  shows "(pos div 32 \<le> k \<and> k < pos div 32 + BITS_TO_LONGS (2 ^ ord) \<and> bit (reg_mask pos ord) b)
         \<longleftrightarrow> pos \<le> 32 * k + b \<and> 32 * k + b < pos + 2 ^ ord"
proof (cases "ord < 5")
  case True
  then have dv: "(2::nat) ^ ord dvd 32"
    using le_imp_power_dvd [of ord 5 "2::nat"] by simp
  have le: "(2::nat) ^ ord \<le> 32" using dv by (simp add: dvd_imp_le)
  have one: "BITS_TO_LONGS (2 ^ ord) = 1"
    using le by (auto simp: BITS_TO_LONGS_def intro!: div_nat_eqI)
  have "2 ^ ord dvd pos mod 32" using al dv by (simp add: dvd_mod)
  then obtain c where c: "pos mod 32 = 2 ^ ord * c" by (rule dvdE)
  obtain e where e: "(32::nat) = 2 ^ ord * e" using dv by (rule dvdE)
  have "pos mod 32 < 32" by simp
  then have "c < e" using c e by (metis mult_less_cancel1)
  then have "2 ^ ord * (c + 1) \<le> 2 ^ ord * e" by (intro mult_le_mono2) simp
  then have fit: "pos mod 32 + 2 ^ ord \<le> 32" using c e by simp
  define q where "q = pos div 32"
  define r where "r = pos mod 32"
  have pos: "pos = 32 * q + r" by (simp add: q_def r_def)
  have fit: "r + 2 ^ ord \<le> 32" using fit by (simp add: r_def)
  have m: "bit (reg_mask pos ord) b \<longleftrightarrow> r \<le> b \<and> b < r + 2 ^ ord"
    using le b by (auto simp: reg_mask_def bit_simps min_absorb1 r_def)
  have "k = q" if "pos \<le> 32 * k + b" "32 * k + b < pos + 2 ^ ord"
  proof -
    have "32 * q < 32 * k + 32" "32 * k < 32 * q + 32"
      using that b pos fit by linarith+
    then show ?thesis by simp
  qed
  then show ?thesis unfolding q_def [symmetric] one m using pos by auto
next
  case False
  define e where "e = (2::nat) ^ (ord - 5)"
  have e: "(2::nat) ^ ord = 32 * e"
    using False power_add [of "2::nat" 5 "ord - 5"] by (simp add: e_def)
  have "32 dvd pos" using al e by (metis dvd_mult_left)
  then obtain q where q: "pos = 32 * q" by (rule dvdE)
  have lim: "BITS_TO_LONGS (32 * e) = e" by (simp add: BITS_TO_LONGS_eq)
  have "0 < e" by (simp add: e_def)
  then have m: "bit (reg_mask pos ord) b"
    using b by (simp add: reg_mask_def bit_simps e q min_def)
  have "q \<le> k \<longleftrightarrow> 32 * q \<le> 32 * k + b" "k < q + e \<longleftrightarrow> 32 * k + b < 32 * q + 32 * e"
    using b by linarith+
  with q m show ?thesis by (simp add: lim e)
qed

lemma region_test:
  assumes "2 ^ ord dvd pos"
  shows "(pos div 32 \<le> i div 32 \<and> i div 32 < pos div 32 + BITS_TO_LONGS (2 ^ ord)
          \<and> bit (reg_mask pos ord) (i mod 32)) \<longleftrightarrow> pos \<le> i \<and> i < pos + 2 ^ ord"
  using region_bits [OF assms, of "i mod 32" "i div 32"] by simp

lemma fold_region:
  "fold (\<lambda>i b. b(q + i := g (b (q + i)))) [0..<nl] m j =
   (if q \<le> j \<and> j < q + nl then g (m j) else m j)"
proof -
  define F where "F = (\<lambda>i b. b(q + i := g (b (q + i))))"
  have "fold F [0..<nl] m j = (if q \<le> j \<and> j < q + nl then g (m j) else m j)"
  proof (induction nl arbitrary: j)
    case (Suc nl)
    have "F nl X = X(q + nl := g (X (q + nl)))" for X by (simp only: F_def)
    then have "fold F [0..<Suc nl] m = (fold F [0..<nl] m)(q + nl := g (m (q + nl)))"
      using Suc [of "q + nl"] by simp
    with Suc [of j] show ?case by (cases "j = q + nl") auto
  qed auto
  then show ?thesis unfolding F_def .
qed

lemma reg_isfree:
  assumes "2 ^ ord dvd pos"
  shows "uu_reg_op m pos ord REG_OP_ISFREE =
         ((\<forall>i. pos \<le> i \<and> i < pos + 2 ^ ord \<longrightarrow> \<not> test_bit i m), m)"
proof -
  have "list_ex (\<lambda>i. m (pos div 32 + i) AND reg_mask pos ord \<noteq> 0) [0..<BITS_TO_LONGS (2 ^ ord)]
      \<longleftrightarrow> (\<exists>i. pos \<le> i \<and> i < pos + 2 ^ ord \<and> test_bit i m)" (is "?L \<longleftrightarrow> ?R")
  proof
    assume ?L
    then obtain j where j: "j < BITS_TO_LONGS (2 ^ ord)"
        "m (pos div 32 + j) AND reg_mask pos ord \<noteq> 0" by (auto simp: list_ex_iff)
    then obtain b where b: "b < 32" "bit (m (pos div 32 + j)) b" "bit (reg_mask pos ord) b"
      by (auto simp: word_eq_0_iff_bits bit_and_iff)
    with j(1) region_bits [OF assms b(1), of "pos div 32 + j"]
    have "pos \<le> 32 * (pos div 32 + j) + b" "32 * (pos div 32 + j) + b < pos + 2 ^ ord" by auto
    moreover have "test_bit (32 * (pos div 32 + j) + b) m" using b by (simp only: test_bit_word)
    ultimately show ?R by blast
  next
    assume ?R
    then obtain i where i: "pos \<le> i" "i < pos + 2 ^ ord" "test_bit i m" by blast
    with region_test [OF assms, of i] have r: "pos div 32 \<le> i div 32"
      "i div 32 < pos div 32 + BITS_TO_LONGS (2 ^ ord)" "bit (reg_mask pos ord) (i mod 32)" by auto
    have "bit (m (i div 32) AND reg_mask pos ord) (i mod 32)"
      using i(3) r(3) by (simp add: test_bit_iff bit_and_iff)
    then have "m (i div 32) AND reg_mask pos ord \<noteq> 0" by auto
    with r show ?L by (auto simp: list_ex_iff intro!: bexI [of _ "i div 32 - pos div 32"])
  qed
  then show ?thesis by (simp add: reg_op_eq Let_def) blast
qed

lemma reg_alloc:
  assumes "2 ^ ord dvd pos"
  shows "test_bit i (snd (uu_reg_op m pos ord REG_OP_ALLOC)) \<longleftrightarrow>
         test_bit i m \<or> (pos \<le> i \<and> i < pos + 2 ^ ord)"
  using region_test [OF assms, of i]
  by (simp add: reg_op_eq Let_def test_bit_iff fold_region [where g = "\<lambda>w. w OR reg_mask pos ord"]
      bit_or_iff) blast

lemma reg_release:
  assumes "2 ^ ord dvd pos"
  shows "test_bit i (snd (uu_reg_op m pos ord REG_OP_RELEASE)) \<longleftrightarrow>
         test_bit i m \<and> \<not> (pos \<le> i \<and> i < pos + 2 ^ ord)"
  using region_test [OF assms, of i]
  by (simp add: reg_op_eq Let_def test_bit_iff
      fold_region [where g = "\<lambda>w. w AND NOT (reg_mask pos ord)"] bit_and_iff bit_not_iff) blast

section \<open>Allocation\<close>

text \<open>A position the allocator may return: aligned, inside the bitmap and free.\<close>

definition free_region :: "bitmap \<Rightarrow> nat \<Rightarrow> nat \<Rightarrow> nat \<Rightarrow> bool" where
  "free_region m bits ord pos \<longleftrightarrow>
     2 ^ ord dvd pos \<and> pos + 2 ^ ord \<le> bits \<and>
     (\<forall>i. pos \<le> i \<and> i < pos + 2 ^ ord \<longrightarrow> \<not> test_bit i m)"

lemma ffr_loop_spec:
  assumes "2 ^ ord dvd pos" "\<And>p. p < pos \<Longrightarrow> \<not> free_region m bits ord p"
  shows "case ffr_loop m bits ord pos of
           Inl e \<Rightarrow> e = ENOMEM \<and> (\<forall>p. \<not> free_region m bits ord p)
         | Inr (p, m') \<Rightarrow> free_region m bits ord p \<and> (\<forall>p' < p. \<not> free_region m bits ord p') \<and>
             m' = snd (uu_reg_op m p ord REG_OP_ALLOC)"
  using assms
proof (induction m bits ord pos rule: ffr_loop.induct)
  case (1 m bits ord pos)
  have gap: "p \<le> pos" if "2 ^ ord dvd p" "p < pos + 2 ^ ord" for p
  proof -
    from 1(2) that(1) obtain a b where "pos = 2 ^ ord * a" "p = 2 ^ ord * b" by (auto elim!: dvdE)
    moreover from this that(2) have "2 ^ ord * b < 2 ^ ord * (a + 1)" by simp
    then have "b \<le> a" by (simp only: mult_less_cancel1) simp
    ultimately show ?thesis by simp
  qed
  show ?case
  proof (cases "pos + 2 ^ ord \<le> bits")
    case fits: True
    show ?thesis
    proof (cases "fst (uu_reg_op m pos ord REG_OP_ISFREE)")
      case True
      then have "free_region m bits ord pos"
        using fits 1(2) by (simp add: free_region_def reg_isfree)
      then show ?thesis using True fits 1(3) by (simp add: ffr_loop.simps [of m] Let_def)
    next
      case False
      then have no: "\<not> free_region m bits ord pos"
        using 1(2) by (auto simp: free_region_def reg_isfree)
      have "\<not> free_region m bits ord p" if "p < pos + 2 ^ ord" for p
        using that 1(3) [of p] no gap [of p] unfolding free_region_def by (metis le_less)
      moreover have "2 ^ ord dvd pos + 2 ^ ord" using 1(2) by simp
      ultimately have "case ffr_loop m bits ord (pos + 2 ^ ord) of
           Inl e \<Rightarrow> e = ENOMEM \<and> (\<forall>p. \<not> free_region m bits ord p)
         | Inr (p, m') \<Rightarrow> free_region m bits ord p \<and> (\<forall>p' < p. \<not> free_region m bits ord p') \<and>
             m' = snd (uu_reg_op m p ord REG_OP_ALLOC)"
        using 1(1) [OF refl fits] False by blast
      then show ?thesis using False fits by (simp add: ffr_loop.simps [of m bits ord pos] Let_def)
    qed
  next
    case False
    have "\<not> free_region m bits ord p" for p
    proof
      assume p: "free_region m bits ord p"
      then have "\<not> p < pos" using 1(3) by blast
      with p False show False by (simp add: free_region_def)
    qed
    then show ?thesis using False by (simp add: ffr_loop.simps [of m] Let_def)
  qed
qed

lemma find_free_region_Inr:
  assumes "bitmap_find_free_region m bits ord = Inr (pos, m')"
  shows "free_region m bits ord pos" "p < pos \<Longrightarrow> \<not> free_region m bits ord p"
    "test_bit i m' \<longleftrightarrow> test_bit i m \<or> pos \<le> i \<and> i < pos + 2 ^ ord"
proof -
  from ffr_loop_spec [of ord 0 m bits] assms
  have *: "free_region m bits ord pos" "\<forall>p' < pos. \<not> free_region m bits ord p'"
    "m' = snd (uu_reg_op m pos ord REG_OP_ALLOC)"
    by (auto simp: bitmap_find_free_region_def)
  then show "free_region m bits ord pos" "p < pos \<Longrightarrow> \<not> free_region m bits ord p" by auto
  show "test_bit i m' \<longleftrightarrow> test_bit i m \<or> pos \<le> i \<and> i < pos + 2 ^ ord"
    unfolding *(3) by (rule reg_alloc) (use *(1) in \<open>simp add: free_region_def\<close>)
qed

lemma find_free_region_Inl:
  "bitmap_find_free_region m bits ord = Inl e \<Longrightarrow> e = ENOMEM \<and> \<not> free_region m bits ord p"
  using ffr_loop_spec [of ord 0 m bits] by (auto simp: bitmap_find_free_region_def)

section \<open>Properties\<close>





end
