(* ===== verification/BitmapMap.thy ===== *)
theory BitmapMap
  imports Bitmap
begin

text \<open>
  The routines of \<open>lib/bitmap.c\<close> that move bits between bitmaps:
  \<open>bitmap_pos_to_ord\<close>, \<open>bitmap_ord_to_pos\<close>, \<open>bitmap_remap\<close>, \<open>bitmap_bitremap\<close>,
  \<open>bitmap_onto\<close> and \<open>bitmap_fold\<close>. The increasing list \<open>blist m n\<close> of the set bits
  is the reference: ordinals are indexes into it. The search loop of
  \<open>bitmap_pos_to_ord\<close> ends in a \<open>BUG_ON\<close>, the value \<open>None\<close>; the lemmas show that
  it is never reached. The source operands compared with \<open>dst\<close> by the code are
  \<open>operand\<close>s; the other maps are taken not to overlap \<open>dst\<close>, as their \<open>const\<close>
  arguments are used after \<open>dst\<close> has been cleared.
\<close>

section \<open>Whole-bitmap writes\<close>

definition bitmap_zero :: "bool \<Rightarrow> bitmap \<Rightarrow> nat \<Rightarrow> bitmap" where
  "bitmap_zero small_const dst nbits =
     (if small_const \<and> nbits \<le> BITS_PER_LONG then dst(0 := 0)
      else memset0 dst 0 (BITS_TO_LONGS nbits))"

section \<open>Positions and ordinals\<close>

partial_function (option) pto_loop :: "bitmap \<Rightarrow> nat \<Rightarrow> nat \<Rightarrow> nat \<Rightarrow> nat \<Rightarrow> (nat \<times> nat) option" where
  "pto_loop buf bits pos i ord =
     (if i < pos then pto_loop buf bits pos (find_next_bit buf bits (i + 1)) (ord + 1)
      else Some (i, ord))"

definition bitmap_pos_to_ord :: "bitmap \<Rightarrow> int \<Rightarrow> nat \<Rightarrow> int option" where
  "bitmap_pos_to_ord buf pos bits =
     (if pos < 0 \<or> pos \<ge> int bits \<or> \<not> test_bit (nat pos) buf then Some (- 1)
      else case pto_loop buf bits (nat pos) (find_first_bit buf bits) 0 of
             None \<Rightarrow> None
           | Some (i, ord) \<Rightarrow> if i \<noteq> nat pos then None else Some (int ord))"

fun otp_loop :: "bitmap \<Rightarrow> nat \<Rightarrow> nat \<Rightarrow> nat \<Rightarrow> nat \<times> nat" where
  "otp_loop buf bits i 0 = (i, 0)"
| "otp_loop buf bits i (Suc ord) =
     (if i < bits then otp_loop buf bits (find_next_bit buf bits (i + 1)) ord else (i, Suc ord))"

definition bitmap_ord_to_pos :: "bitmap \<Rightarrow> int \<Rightarrow> nat \<Rightarrow> nat" where
  "bitmap_ord_to_pos buf ord bits =
     (let pos = 0 in
      if ord \<ge> 0 \<and> ord < int bits then
        let (i, ord) = otp_loop buf bits (find_first_bit buf bits) (nat ord)
        in if i < bits \<and> ord = 0 then i else pos
      else pos)"

section \<open>Maps between bitmaps\<close>

definition remap_step :: "bitmap \<Rightarrow> bitmap \<Rightarrow> nat \<Rightarrow> nat \<Rightarrow> nat \<Rightarrow> bitmap option \<Rightarrow> bitmap option" where
  "remap_step old new w bits oldbit d =
     (case d of
        None \<Rightarrow> None
      | Some dst \<Rightarrow>
          (case bitmap_pos_to_ord old (int oldbit) bits of
             None \<Rightarrow> None
           | Some n \<Rightarrow>
               if n < 0 \<or> w = 0 then Some (uu_set_bit oldbit dst)
               else Some (uu_set_bit (bitmap_ord_to_pos new (n mod int w) bits) dst)))"

definition bitmap_remap ::
    "bitmap \<Rightarrow> operand \<Rightarrow> bitmap \<Rightarrow> bitmap \<Rightarrow> nat \<Rightarrow> bitmap option" where
  "bitmap_remap dst src old new bits =
     (case src of
        Dst \<Rightarrow> Some dst
      | Other s \<Rightarrow>
          let dst = bitmap_zero False dst bits;
              w = uu_bitmap_weight new bits
          in for_each_bit s bits (remap_step old new w bits) (Some dst))"

definition bitmap_bitremap :: "int \<Rightarrow> bitmap \<Rightarrow> bitmap \<Rightarrow> nat \<Rightarrow> int option" where
  "bitmap_bitremap oldbit old new bits =
     (let w = uu_bitmap_weight new bits in
      case bitmap_pos_to_ord old oldbit bits of
        None \<Rightarrow> None
      | Some n \<Rightarrow>
          if n < 0 \<or> w = 0 then Some oldbit
          else Some (int (bitmap_ord_to_pos new (n mod int w) bits)))"

definition bitmap_onto :: "bitmap \<Rightarrow> operand \<Rightarrow> bitmap \<Rightarrow> nat \<Rightarrow> bitmap" where
  "bitmap_onto dst orig relmap bits =
     (case orig of
        Dst \<Rightarrow> dst
      | Other og \<Rightarrow>
          let dst = bitmap_zero False dst bits
          in fst (for_each_bit relmap bits
                    (\<lambda>n (d, m). (if test_bit m og then uu_set_bit n d else d, m + 1)) (dst, 0)))"

definition bitmap_fold :: "bitmap \<Rightarrow> operand \<Rightarrow> nat \<Rightarrow> nat \<Rightarrow> bitmap" where
  "bitmap_fold dst orig sz bits =
     (case orig of
        Dst \<Rightarrow> dst
      | Other og \<Rightarrow>
          let dst = bitmap_zero False dst bits
          in for_each_bit og bits (\<lambda>oldbit d. uu_set_bit (oldbit mod sz) d) dst)"

section \<open>The set bits in order\<close>

definition blist :: "bitmap \<Rightarrow> nat \<Rightarrow> nat list" where
  "blist m n = filter (tb m) [0..<n]"

lemma blist_props [simp]:
  "set (blist m n) = bset m n" "distinct (blist m n)" "sorted (blist m n)"
  "length (blist m n) = card (bset m n)"
proof -
  show s: "set (blist m n) = bset m n" by (auto simp: blist_def bset_def)
  show d: "distinct (blist m n)" by (simp add: blist_def)
  show "sorted (blist m n)" by (simp add: blist_def sorted_wrt_filter)
  show "length (blist m n) = card (bset m n)" using distinct_card [OF d] s by simp
qed

lemma test_bit_zero:
  "test_bit i (bitmap_zero False d n) \<longleftrightarrow> BITS_TO_LONGS n \<le> i div 32 \<and> test_bit i d"
  by (simp add: bitmap_zero_def memset0_def test_bit_iff)

lemma bset_zero [simp]: "bset (bitmap_zero False d n) n = {}"
  using BITS_TO_LONGS_less [of _ n] by (fastforce simp: bset_def test_bit_zero)

lemma bset_set_bit: "bset (uu_set_bit i d) n = (if i < n then insert i (bset d n) else bset d n)"
  by (auto simp: bset_def)

lemma otp_loop_nth:
  "a \<le> n \<Longrightarrow> otp_loop m n (find_next_bit m n a) k =
    (let xs = filter (tb m) [a..<n] in
     if k < length xs then (xs ! k, 0) else (n, k - length xs))"
proof (induction k arbitrary: a)
  case 0
  then show ?case
    using set_search.filter_nxt [OF 0, of m] set_search.nxt_le [of m n a]
    by (auto simp: Let_def)
next
  case (Suc k)
  let ?i = "find_next_bit m n a"
  show ?case
  proof (cases "?i < n")
    case True
    then show ?thesis
      using Suc.IH [of "Suc ?i"] set_search.filter_nxt [OF Suc.prems, of m]
      by (simp add: Let_def)
  next
    case False
    then show ?thesis
      using set_search.filter_nxt [OF Suc.prems, of m] set_search.nxt_le [of m n a]
      by (simp add: Let_def)
  qed
qed

lemma find_first_next: "find_first_bit m n = find_next_bit m n 0"
  by (simp add: find_first_bit_eq find_next_bit_eq)

lemma ord_to_pos_eq:
  "bitmap_ord_to_pos m ord n =
   (if 0 \<le> ord \<and> nat ord < card (bset m n) then blist m n ! nat ord else 0)"
proof -
  have "card (bset m n) \<le> n"
    using card_mono [of "{..<n}" "bset m n"] by (auto simp: bset_def)
  moreover have "blist m n ! k < n" if "k < card (bset m n)" for k
    using that nth_mem [of k "blist m n"] by (auto simp: bset_def)
  ultimately show ?thesis
    using otp_loop_nth [of 0 n m "nat ord"]
    by (auto simp: bitmap_ord_to_pos_def find_first_next Let_def blist_def [symmetric] nat_less_iff)
qed

lemma pto_loop_count:
  "a \<le> pos \<Longrightarrow> pos < n \<Longrightarrow> test_bit pos m \<Longrightarrow>
   pto_loop m n pos (find_next_bit m n a) k = Some (pos, k + length (filter (tb m) [a..<pos]))"
proof (induction "pos - a" arbitrary: a k rule: less_induct)
  case less
  let ?i = "find_next_bit m n a"
  have i: "a \<le> ?i" "?i \<le> pos"
    using less.prems set_search.nxt_ge [of a n m] set_search.nxt_exists [of a pos n m] by auto
  show ?case
  proof (cases "?i = pos")
    case True
    then have "filter (tb m) [a..<pos] = []"
      using set_search.nxt_miss [of a _ m n] by (auto simp: filter_empty_conv)
    with True show ?thesis by (subst pto_loop.simps) simp
  next
    case False
    with i have lt: "?i < pos" by simp
    have "find_next_bit m pos a = ?i"
      using i lt less.prems set_search.nxt_first_in [of a pos m]
        set_search.nxt_first_in [of a n m] first_in_eqI [of a ?i pos "tb m"]
        set_search.nxt_miss [of a _ m n] set_search.nxt_hit [of m n a] by auto
    then have "filter (tb m) [a..<pos] = ?i # filter (tb m) [Suc ?i..<pos]"
      using set_search.filter_nxt [of a pos m] less.prems lt by simp
    then show ?thesis
      using less.hyps [of "Suc ?i" "Suc k"] lt i less.prems
      by (subst pto_loop.simps) simp
  qed
qed

lemma pos_to_ord_eq:
  "bitmap_pos_to_ord m pos n =
   Some (if 0 \<le> pos \<and> nat pos \<in> bset m n then int (card {i \<in> bset m n. i < nat pos}) else - 1)"
proof (cases "0 \<le> pos \<and> nat pos \<in> bset m n")
  case True
  then have p: "nat pos < n" "test_bit (nat pos) m" "\<not> pos < 0" "\<not> pos \<ge> int n"
    by (auto simp: bset_def)
  have "{i \<in> bset m n. i < nat pos} = set (filter (tb m) [0..<nat pos])"
    using p by (auto simp: bset_def)
  then have "card {i \<in> bset m n. i < nat pos} = length (filter (tb m) [0..<nat pos])"
    using distinct_card [of "filter (tb m) [0..<nat pos]"] by (simp only: distinct_filter distinct_upt)
  with p True show ?thesis
    using pto_loop_count [of 0 "nat pos" n m 0]
    by (simp add: bitmap_pos_to_ord_def find_first_next)
next
  case False
  then show ?thesis by (auto simp: bitmap_pos_to_ord_def bset_def)
qed

lemma blist_rank:
  assumes "i \<in> bset m n"
  shows "blist m n ! card {j \<in> bset m n. j < i} = i"
proof -
  have i: "i < n" "test_bit i m" using assms by (auto simp: bset_def)
  have "[0..<n] = [0..<i] @ i # [Suc i..<n]"
    using i upt_add_eq_append [of 0 i "n - i"] upt_conv_Cons [of i n] by simp
  then have split: "blist m n = filter (tb m) [0..<i] @ i # filter (tb m) [Suc i..<n]"
    using i by (simp add: blist_def)
  have "{j \<in> bset m n. j < i} = set (filter (tb m) [0..<i])"
    using i by (auto simp: bset_def)
  then have "card {j \<in> bset m n. j < i} = length (filter (tb m) [0..<i])"
    using distinct_card [of "filter (tb m) [0..<i]"] by (simp only: distinct_filter distinct_upt)
  with split show ?thesis by (simp add: nth_append)
qed

lemma card_below_lt: "i \<in> bset m n \<Longrightarrow> card {j \<in> bset m n. j < i} < card (bset m n)"
  by (rule psubset_card_mono) auto

section \<open>Remapping, relative placement and folding\<close>

definition remap_pos :: "bitmap \<Rightarrow> bitmap \<Rightarrow> nat \<Rightarrow> nat \<Rightarrow> nat" where
  "remap_pos old new n i =
     (if i \<in> bset old n \<and> bset new n \<noteq> {}
      then blist new n ! (card {j \<in> bset old n. j < i} mod card (bset new n)) else i)"

lemma card_bset_pos: "bset m n \<noteq> {} \<Longrightarrow> 0 < card (bset m n)"
  by (simp add: card_gt_0_iff)

lemma blist_nth_lt: "k < card (bset m n) \<Longrightarrow> blist m n ! k < n"
  using nth_mem [of k "blist m n"] by (auto simp: bset_def)

lemma remap_pos_lt: "i < n \<Longrightarrow> remap_pos old new n i < n"
  by (simp add: remap_pos_def blist_nth_lt card_bset_pos)

lemma bitremap_eq: "bitmap_bitremap (int i) old new n = Some (int (remap_pos old new n i))"
  using card_bset_pos [of new n] finite_bset [of new n]
  by (auto simp: bitmap_bitremap_def pos_to_ord_eq weight_card ord_to_pos_eq remap_pos_def
        zmod_int [symmetric] Let_def)

lemma remap_step_eq:
  "remap_step old new (uu_bitmap_weight new n) n i (Some d) =
     Some (uu_set_bit (remap_pos old new n i) d)"
  using card_bset_pos [of new n] finite_bset [of new n]
  by (auto simp: remap_step_def pos_to_ord_eq weight_card ord_to_pos_eq remap_pos_def
        zmod_int [symmetric])

lemma bset_fold_set_bit:
  "(\<And>i. i \<in> set xs \<Longrightarrow> f i < n) \<Longrightarrow>
   bset (fold (\<lambda>i. uu_set_bit (f i)) xs d) n = bset d n \<union> f ` set xs"
  by (induction xs arbitrary: d) (auto simp: bset_set_bit)

lemma fold_remap_step:
  "fold (remap_step old new (uu_bitmap_weight new n) n) xs (Some d) =
   Some (fold (\<lambda>i. uu_set_bit (remap_pos old new n i)) xs d)"
  by (induction xs arbitrary: d) (simp_all add: remap_step_eq)

lemma bitmap_remap_eq:
  "\<exists>d'. bitmap_remap d (Other s) old new n = Some d' \<and>
        bset d' n = remap_pos old new n ` bset s n"
  using bset_fold_set_bit [of "blist s n" "remap_pos old new n" n "bitmap_zero False d n"]
    remap_pos_lt [of _ n old new]
  by (simp add: bitmap_remap_def Let_def for_each_bit_fold fold_remap_step blist_def [symmetric])
     (simp add: bset_def)

lemma onto_fold:
  "fst (fold (\<lambda>n (d, m). (if test_bit m og then uu_set_bit n d else d, m + 1)) xs (d, k)) =
   fold (\<lambda>m. if test_bit (k + m) og then uu_set_bit (xs ! m) else id) [0..<length xs] d"
proof (induction xs arbitrary: d k)
  case Nil
  then show ?case by simp
next
  case (Cons x xs)
  have "fold (\<lambda>m. if test_bit (k + m) og then uu_set_bit ((x # xs) ! m) else id)
          (map Suc [0..<length xs]) e =
        fold (\<lambda>m. if test_bit (Suc k + m) og then uu_set_bit (xs ! m) else id)
          [0..<length xs] e" for e
    by (simp add: fold_map o_def cong: if_cong)
  with Cons show ?case
    by (simp add: upt_conv_Cons map_Suc_upt [symmetric] del: upt_Suc map_Suc_upt)
qed

lemma bset_fold_cond:
  "(\<And>i. i \<in> set xs \<Longrightarrow> f i < n) \<Longrightarrow>
   bset (fold (\<lambda>i. if P i then uu_set_bit (f i) else id) xs d) n =
   bset d n \<union> f ` {i \<in> set xs. P i}"
  by (induction xs arbitrary: d) (auto simp: bset_set_bit)

lemma bset_onto:
  "bset (bitmap_onto d (Other og) rel n) n =
   (\<lambda>m. blist rel n ! m) ` {m. m < card (bset rel n) \<and> test_bit m og}"
proof -
  have "bset (bitmap_onto d (Other og) rel n) n =
        bset (bitmap_zero False d n) n \<union>
        (\<lambda>m. blist rel n ! m) ` {i \<in> set [0..<card (bset rel n)]. test_bit i og}"
    unfolding bitmap_onto_def operand.case Let_def for_each_bit_fold onto_fold
      blist_def [symmetric] blist_props add_0
    by (rule bset_fold_cond) (simp add: blist_nth_lt)
  then show ?thesis by simp
qed

lemma bset_fold:
  assumes "0 < sz"
  shows "bset (bitmap_fold d (Other og) sz n) n = (\<lambda>i. i mod sz) ` bset og n"
proof -
  have "i mod sz < n" if "i \<in> bset og n" for i
    using that by (auto simp: bset_def intro: le_less_trans [OF mod_less_eq_dividend])
  then show ?thesis
    using bset_fold_set_bit [of "blist og n" "\<lambda>i. i mod sz" n "bitmap_zero False d n"]
    by (simp add: bitmap_fold_def Let_def for_each_bit_fold blist_def [symmetric])
qed

section \<open>Properties\<close>

text \<open>
  C15: ordinals and positions are inverse on the set bits: \<open>bitmap_pos_to_ord\<close> counts the set
  bits below the position (and gives -1 for any other position, never reaching its
  \<open>BUG_ON\<close>), and \<open>bitmap_ord_to_pos\<close> takes the count back to the position.
\<close>
theorem pos_ord_roundtrip:
  "bitmap_pos_to_ord m pos n =
     Some (if 0 \<le> pos \<and> nat pos \<in> bset m n then int (card {i \<in> bset m n. i < nat pos}) else - 1) \<and>
   (i \<in> bset m n \<longrightarrow>
      bitmap_ord_to_pos m (the (bitmap_pos_to_ord m (int i) n)) n = i)"
proof
  show "bitmap_pos_to_ord m pos n =
     Some (if 0 \<le> pos \<and> nat pos \<in> bset m n then int (card {i \<in> bset m n. i < nat pos}) else - 1)"
    by (rule pos_to_ord_eq)
  show "i \<in> bset m n \<longrightarrow> bitmap_ord_to_pos m (the (bitmap_pos_to_ord m (int i) n)) n = i"
    by (simp add: pos_to_ord_eq ord_to_pos_eq blist_rank card_below_lt)
qed

theorem pos_ord_roundtrip_witness:
  "bitmap_pos_to_ord (\<lambda>_. 0x54) 6 8 = Some 2 \<and> bitmap_ord_to_pos (\<lambda>_. 0x54) 2 8 = 6"
proof -
  have b: "bset (\<lambda>_. 0x54) 8 = {2, 4, 6}" by code_simp
  have "{i \<in> {2, 4, 6 :: nat}. i < 6} = {2, 4}" by auto
  then have ord: "bitmap_pos_to_ord (\<lambda>_. 0x54) 6 8 = Some 2"
    using pos_ord_roundtrip [of "\<lambda>_. 0x54" 6 8] by (simp add: b)
  have "bitmap_ord_to_pos (\<lambda>_. 0x54) (the (bitmap_pos_to_ord (\<lambda>_. 0x54) (int 6) 8)) 8 = 6"
    using conjunct2 [OF pos_ord_roundtrip [of "\<lambda>_. 0x54" 6 8 6]] b by (simp only: insert_iff simp_thms)
  with ord show ?thesis by simp
qed

text \<open>
  C10: \<open>bitmap_remap\<close> and \<open>bitmap_bitremap\<close> apply one and the same map of positions: a bit of
  \<open>old\<close> with ordinal \<open>k\<close> goes to the bit of \<open>new\<close> with ordinal \<open>k\<close> modulo the weight of
  \<open>new\<close>, every other bit stays. \<open>bitmap_remap\<close> maps the whole set of valid bits and returns.
\<close>
theorem remap_correct:
  "(\<exists>d'. bitmap_remap d (Other s) old new n = Some d' \<and>
         bset d' n = remap_pos old new n ` bset s n) \<and>
   bitmap_bitremap (int i) old new n = Some (int (remap_pos old new n i)) \<and>
   bitmap_remap d Dst old new n = Some d"
  using bitmap_remap_eq [of d s old new n] bitremap_eq [of i old new n]
  by (simp add: bitmap_remap_def)

text \<open>
  C16: \<open>bitmap_onto\<close> sets the bits of \<open>relmap\<close> whose ordinal is a bit of \<open>orig\<close>, and
  \<open>bitmap_fold\<close> reduces every bit of \<open>orig\<close> modulo the fold size.
\<close>
theorem onto_fold_correct:
  assumes "0 < sz"
  shows "bset (bitmap_onto d (Other og) rel n) n =
           (\<lambda>m. blist rel n ! m) ` {m. m < card (bset rel n) \<and> test_bit m og} \<and>
         bset (bitmap_fold d (Other og) sz n) n = (\<lambda>i. i mod sz) ` bset og n"
  using bset_onto [of d og rel n] bset_fold [OF assms, of d og n] by (rule conjI)

theorem onto_fold_correct_witness:
  "bset (bitmap_fold (\<lambda>_. 0) (Other (\<lambda>_. 0x8100)) 6 16) 16 = {2, 3}"
proof -
  have b: "bset (\<lambda>_. 0x8100) 16 = {8, 15}" by code_simp
  show ?thesis
    using onto_fold_correct [of 6 "\<lambda>_. 0" "\<lambda>_. 0x8100" "\<lambda>_. 0" 16]
    by (simp add: b)
qed

end
