(* ===== verification/BitmapInline.thy ===== *)
theory BitmapInline
  imports BitmapMap
begin

text \<open>
  The inline wrappers of \<open>include/linux/bitmap.h\<close>. The first argument of each is
  \<open>__builtin_constant_p(nbits)\<close>: when it holds and \<open>nbits\<close> is at most one word, the
  wrapper works on word 0 alone, otherwise it calls the routine of \<open>lib/bitmap.c\<close>.
  The lemmas give both paths the same meaning on the set of valid bits;
  \<open>bitmap_shift_right\<close> needs the extra condition that the source word has no bits
  beyond \<open>nbits\<close>, because its fast path does not mask the source.
\<close>

definition small_const_nbits :: "bool \<Rightarrow> nat \<Rightarrow> bool" where
  "small_const_nbits const_p nbits \<longleftrightarrow> const_p \<and> nbits \<le> BITS_PER_LONG"

definition bitmap_fill :: "bool \<Rightarrow> bitmap \<Rightarrow> nat \<Rightarrow> bitmap" where
  "bitmap_fill c dst nbits =
     (let nlongs = BITS_TO_LONGS nbits;
          dst = (if \<not> small_const_nbits c nbits
                 then fold (\<lambda>k d. d(k := - 1)) [0..<nlongs - 1] dst else dst)
      in dst(nlongs - 1 := BITMAP_LAST_WORD_MASK nbits))"

definition bitmap_copy :: "bool \<Rightarrow> bitmap \<Rightarrow> bitmap \<Rightarrow> nat \<Rightarrow> bitmap" where
  "bitmap_copy c dst src nbits =
     (if small_const_nbits c nbits then dst(0 := src 0)
      else fold (\<lambda>k d. d(k := src k)) [0..<BITS_TO_LONGS nbits] dst)"

definition bitmap_and :: "bool \<Rightarrow> bitmap \<Rightarrow> operand \<Rightarrow> operand \<Rightarrow> nat \<Rightarrow> bitmap" where
  "bitmap_and c dst src1 src2 nbits =
     (if small_const_nbits c nbits then dst(0 := rd src1 dst 0 AND rd src2 dst 0)
      else uu_bitmap_and dst src1 src2 nbits)"

definition bitmap_or :: "bool \<Rightarrow> bitmap \<Rightarrow> operand \<Rightarrow> operand \<Rightarrow> nat \<Rightarrow> bitmap" where
  "bitmap_or c dst src1 src2 nbits =
     (if small_const_nbits c nbits then dst(0 := rd src1 dst 0 OR rd src2 dst 0)
      else uu_bitmap_or dst src1 src2 nbits)"

definition bitmap_xor :: "bool \<Rightarrow> bitmap \<Rightarrow> operand \<Rightarrow> operand \<Rightarrow> nat \<Rightarrow> bitmap" where
  "bitmap_xor c dst src1 src2 nbits =
     (if small_const_nbits c nbits then dst(0 := rd src1 dst 0 XOR rd src2 dst 0)
      else uu_bitmap_xor dst src1 src2 nbits)"

definition bitmap_andnot :: "bool \<Rightarrow> bitmap \<Rightarrow> operand \<Rightarrow> operand \<Rightarrow> nat \<Rightarrow> bitmap" where
  "bitmap_andnot c dst src1 src2 nbits =
     (if small_const_nbits c nbits then dst(0 := rd src1 dst 0 AND NOT (rd src2 dst 0))
      else uu_bitmap_andnot dst src1 src2 nbits)"

definition bitmap_complement :: "bool \<Rightarrow> bitmap \<Rightarrow> operand \<Rightarrow> nat \<Rightarrow> bitmap" where
  "bitmap_complement c dst src nbits =
     (if small_const_nbits c nbits
      then dst(0 := NOT (rd src dst 0) AND BITMAP_LAST_WORD_MASK nbits)
      else uu_bitmap_complement dst src nbits)"

definition bitmap_equal :: "bool \<Rightarrow> bitmap \<Rightarrow> bitmap \<Rightarrow> nat \<Rightarrow> bool" where
  "bitmap_equal c src1 src2 nbits =
     (if small_const_nbits c nbits
      then (src1 0 XOR src2 0) AND BITMAP_LAST_WORD_MASK nbits = 0
      else uu_bitmap_equal src1 src2 nbits)"

definition bitmap_intersects :: "bool \<Rightarrow> bitmap \<Rightarrow> bitmap \<Rightarrow> nat \<Rightarrow> bool" where
  "bitmap_intersects c src1 src2 nbits =
     (if small_const_nbits c nbits
      then (src1 0 AND src2 0) AND BITMAP_LAST_WORD_MASK nbits \<noteq> 0
      else uu_bitmap_intersects src1 src2 nbits)"

definition bitmap_subset :: "bool \<Rightarrow> bitmap \<Rightarrow> bitmap \<Rightarrow> nat \<Rightarrow> bool" where
  "bitmap_subset c src1 src2 nbits =
     (if small_const_nbits c nbits
      then (src1 0 AND NOT (src2 0)) AND BITMAP_LAST_WORD_MASK nbits = 0
      else uu_bitmap_subset src1 src2 nbits)"

definition bitmap_empty :: "bool \<Rightarrow> bitmap \<Rightarrow> nat \<Rightarrow> bool" where
  "bitmap_empty c src nbits =
     (if small_const_nbits c nbits then src 0 AND BITMAP_LAST_WORD_MASK nbits = 0
      else uu_bitmap_empty src nbits)"

definition bitmap_full :: "bool \<Rightarrow> bitmap \<Rightarrow> nat \<Rightarrow> bool" where
  "bitmap_full c src nbits =
     (if small_const_nbits c nbits then NOT (src 0) AND BITMAP_LAST_WORD_MASK nbits = 0
      else uu_bitmap_full src nbits)"

definition bitmap_weight :: "bool \<Rightarrow> bitmap \<Rightarrow> nat \<Rightarrow> nat" where
  "bitmap_weight c src nbits =
     (if small_const_nbits c nbits
      then unat (hweight_long (src 0 AND BITMAP_LAST_WORD_MASK nbits))
      else uu_bitmap_weight src nbits)"

definition bitmap_shift_right :: "bool \<Rightarrow> bitmap \<Rightarrow> operand \<Rightarrow> nat \<Rightarrow> nat \<Rightarrow> bitmap" where
  "bitmap_shift_right c dst src n nbits =
     (if small_const_nbits c nbits then dst(0 := drop_bit n (rd src dst 0))
      else uu_bitmap_shift_right dst src n nbits)"

definition bitmap_shift_left :: "bool \<Rightarrow> bitmap \<Rightarrow> operand \<Rightarrow> nat \<Rightarrow> nat \<Rightarrow> bitmap" where
  "bitmap_shift_left c dst src n nbits =
     (if small_const_nbits c nbits
      then dst(0 := push_bit n (rd src dst 0) AND BITMAP_LAST_WORD_MASK nbits)
      else uu_bitmap_shift_left dst src n nbits)"

definition cpu_to_le32 :: "ulong \<Rightarrow> ulong" where
  "cpu_to_le32 x = x"

definition bitmap_copy_le :: "bitmap \<Rightarrow> bitmap \<Rightarrow> nat \<Rightarrow> bitmap" where
  "bitmap_copy_le dst src nbits =
     fold (\<lambda>i d. d(i := cpu_to_le32 (src i))) [0..<nbits div BITS_PER_LONG] dst"

section \<open>The one-word fast paths\<close>

lemma bset_one_word: "n \<le> 32 \<Longrightarrow> i \<in> bset m n \<longleftrightarrow> i < n \<and> bit (m 0) i"
  by (auto simp: bset_bit)

lemma bit_LAST_WORD_MASK_small:
  assumes "0 < n" "n \<le> 32"
  shows "bit (BITMAP_LAST_WORD_MASK n) i \<longleftrightarrow> i < n"
proof (cases "n = 32")
  case True
  then show ?thesis by (simp add: BITMAP_LAST_WORD_MASK_def)
next
  case False
  with assms have "n mod 32 = n" by simp
  with assms show ?thesis using bit_LAST_WORD_MASK [of n i] by simp
qed

lemma masked_eq_0_small:
  assumes "0 < n" "n \<le> 32"
  shows "x AND BITMAP_LAST_WORD_MASK n = 0 \<longleftrightarrow> (\<forall>i < n. \<not> bit x i)"
  using assms
  by (auto simp: word_eq_0_iff_bits bit_and_iff bit_LAST_WORD_MASK_small [OF assms])
     (meson less_le_trans)

lemmas one_word = small_const_nbits_def bset_one_word bit_and_iff bit_or_iff bit_xor_iff bit_not_iff

lemma fast_ops_bset:
  "bset (bitmap_and c d s1 s2 n) n = bset (rd s1 d) n \<inter> bset (rd s2 d) n"
  "bset (bitmap_or c d s1 s2 n) n = bset (rd s1 d) n \<union> bset (rd s2 d) n"
  "bset (bitmap_xor c d s1 s2 n) n =
     (bset (rd s1 d) n - bset (rd s2 d) n) \<union> (bset (rd s2 d) n - bset (rd s1 d) n)"
  "bset (bitmap_andnot c d s1 s2 n) n = bset (rd s1 d) n - bset (rd s2 d) n"
  by (auto simp: bitmap_and_def bset_and bitmap_or_def bset_or bitmap_xor_def bset_xor
      bitmap_andnot_def bset_andnot one_word)

lemma fast_complement_bset:
  "0 < n \<Longrightarrow> bset (bitmap_complement c d s n) n = {..<n} - bset (rd s d) n"
  by (auto simp: bitmap_complement_def bset_complement one_word bit_LAST_WORD_MASK_small)

lemma fast_shift_left_bset:
  "0 < n \<Longrightarrow> bset (bitmap_shift_left c d s k n) n =
    {i. i < n \<and> k \<le> i \<and> i - k \<in> bset (rd s d) n}"
  by (auto simp: bitmap_shift_left_def bset_shift_left one_word bit_LAST_WORD_MASK_small
      bit_push_bit_iff)

lemma fast_shift_right_bset:
  assumes "n = 32 \<or> \<not> c \<or> (\<forall>i < 32. bit (rd s d 0) i \<longrightarrow> i < n)"
  shows "bset (bitmap_shift_right c d s k n) n = {i. i + k \<in> bset (rd s d) n}"
proof (cases "small_const_nbits c n")
  case True
  have "k + x < n" if "bit (rd s d 0) (k + x)" for x
    using bit32D [OF that] assms that True by (auto simp: small_const_nbits_def)
  then have "x \<in> bset (bitmap_shift_right c d s k n) n \<longleftrightarrow> k + x \<in> bset (rd s d) n" for x
    using True by (auto simp: bitmap_shift_right_def one_word bit_drop_bit_eq
        intro: le_less_trans [OF le_add2])
  then show ?thesis by (auto simp: add.commute)
next
  case False
  then show ?thesis by (simp add: bitmap_shift_right_def bset_shift_right)
qed

lemma no_bits_small:
  assumes "0 < n" "n \<le> 32"
  shows "x AND BITMAP_LAST_WORD_MASK n = 0 \<longleftrightarrow> {i. i < n \<and> bit x i} = {}"
  using masked_eq_0_small [OF assms] by blast

lemma bset_word0: "n \<le> 32 \<Longrightarrow> bset m n = {i. i < n \<and> bit (m 0) i}"
  by (auto simp: bset_one_word)

lemma fast_tests:
  assumes "0 < n"
  shows fast_empty: "bitmap_empty c a n \<longleftrightarrow> bset a n = {}"
    and fast_full: "bitmap_full c a n \<longleftrightarrow> bset a n = {..<n}"
    and fast_equal: "bitmap_equal c a b n \<longleftrightarrow> bset a n = bset b n"
    and fast_intersects: "bitmap_intersects c a b n \<longleftrightarrow> bset a n \<inter> bset b n \<noteq> {}"
    and fast_subset: "bitmap_subset c a b n \<longleftrightarrow> bset a n \<subseteq> bset b n"
proof -
  show "bitmap_empty c a n \<longleftrightarrow> bset a n = {}"
    by (simp add: bitmap_empty_def small_const_nbits_def empty_iff no_bits_small [OF assms] bset_word0)
  show "bitmap_full c a n \<longleftrightarrow> bset a n = {..<n}"
    by (simp add: bitmap_full_def small_const_nbits_def full_iff no_bits_small [OF assms] bset_word0
        bit_not_iff) fastforce
  show "bitmap_equal c a b n \<longleftrightarrow> bset a n = bset b n"
    by (simp add: bitmap_equal_def small_const_nbits_def equal_iff no_bits_small [OF assms] bset_word0
        bit_xor_iff) blast
  show "bitmap_intersects c a b n \<longleftrightarrow> bset a n \<inter> bset b n \<noteq> {}"
    by (simp add: bitmap_intersects_def small_const_nbits_def intersects_iff no_bits_small [OF assms]
        bset_word0 bit_and_iff) blast
  show "bitmap_subset c a b n \<longleftrightarrow> bset a n \<subseteq> bset b n"
  proof (cases "small_const_nbits c n")
    case True
    then have n: "n \<le> 32" by (simp add: small_const_nbits_def)
    have "{i. i < n \<and> bit (a 0 AND NOT (b 0)) i} = bset a n - bset b n"
      using n by (auto simp: bset_word0 bit_and_iff bit_not_iff)
    with True show ?thesis
      by (simp add: bitmap_subset_def no_bits_small [OF assms n] del: Collect_empty_eq)
  next
    case False
    then show ?thesis by (simp add: bitmap_subset_def Bitmap.subset_iff)
  qed
qed

lemma fast_weight:
  assumes "0 < n"
  shows "bitmap_weight c m n = card (bset m n)"
proof (cases "small_const_nbits c n")
  case True
  then have n: "n \<le> 32" by (simp add: small_const_nbits_def)
  have "{i. i < 32 \<and> bit (m 0 AND BITMAP_LAST_WORD_MASK n) i} = bset m n"
    using n by (auto simp: bset_one_word [OF n] bit_and_iff bit_LAST_WORD_MASK_small [OF assms n])
  with True show ?thesis
    by (simp add: bitmap_weight_def hweight_long_def hweight32_popcount popcount_def)
next
  case False
  then show ?thesis by (simp add: bitmap_weight_def weight_card)
qed

lemma bset_copy: "bset (bitmap_copy c d s n) n = bset s n"
  using BITS_TO_LONGS_less [of _ n]
  by (auto simp: bitmap_copy_def fold_fun_upd_upt bset_bit small_const_nbits_def)

lemma bset_fill:
  assumes "0 < n"
  shows "bset (bitmap_fill c d n) n = {..<n}"
proof -
  define L where "L = BITS_TO_LONGS n"
  have word: "bitmap_fill c d n j =
      (if j = L - 1 then BITMAP_LAST_WORD_MASK n
       else if \<not> small_const_nbits c n \<and> j < L - 1 then - 1 else d j)" for j
    by (simp add: bitmap_fill_def fold_fun_upd_upt L_def Let_def)
  have "bit (bitmap_fill c d n (i div 32)) (i mod 32)" if "i < n" for i
  proof (cases "i div 32 = L - 1")
    case True
    have "bit (BITMAP_LAST_WORD_MASK n) (i mod 32)"
    proof (cases "n mod 32 = 0")
      case True
      then show ?thesis by (simp add: BITMAP_LAST_WORD_MASK_def)
    next
      case False
      with \<open>i div 32 = L - 1\<close> have "i div 32 = n div 32" by (simp add: L_def BITS_TO_LONGS_eq)
      with \<open>i < n\<close> have "i mod 32 < n mod 32"
        using mult_div_mod_eq [of 32 i] mult_div_mod_eq [of 32 n] by linarith
      with False show ?thesis by (simp add: bit_LAST_WORD_MASK)
    qed
    with True show ?thesis by (simp add: word)
  next
    case False
    with BITS_TO_LONGS_less [OF that] have lt: "i div 32 < L - 1" by (simp add: L_def)
    then have "\<not> small_const_nbits c n"
      by (auto simp: small_const_nbits_def L_def BITS_TO_LONGS_def)
    with lt False show ?thesis by (simp add: word)
  qed
  then show ?thesis by (auto simp: bset_bit)
qed

lemma bset_copy_le:
  assumes "n mod 32 = 0"
  shows "bset (bitmap_copy_le d s n) n = bset s n"
proof -
  have "i div 32 < n div 32" if "i < n" for i
    using that assms BITS_TO_LONGS_less [OF that] by (simp add: BITS_TO_LONGS_eq)
  then show ?thesis
    by (auto simp: bitmap_copy_le_def cpu_to_le32_def fold_fun_upd_upt bset_bit)
qed

section \<open>Properties\<close>

text \<open>
  C14: for a nonempty bitmap the inline wrappers compute the same sets and answers as the
  routines of \<open>lib/bitmap.c\<close>, whether or not the compiler takes the one-word fast path.
\<close>
theorem inline_equivalence:
  assumes "0 < n"
  shows "bset (bitmap_and c d s1 s2 n) n = bset (uu_bitmap_and d s1 s2 n) n \<and>
    bset (bitmap_or c d s1 s2 n) n = bset (uu_bitmap_or d s1 s2 n) n \<and>
    bset (bitmap_xor c d s1 s2 n) n = bset (uu_bitmap_xor d s1 s2 n) n \<and>
    bset (bitmap_andnot c d s1 s2 n) n = bset (uu_bitmap_andnot d s1 s2 n) n \<and>
    bset (bitmap_complement c d s1 n) n = bset (uu_bitmap_complement d s1 n) n \<and>
    bset (bitmap_shift_left c d s1 k n) n = bset (uu_bitmap_shift_left d s1 k n) n \<and>
    bitmap_empty c a n = uu_bitmap_empty a n \<and> bitmap_full c a n = uu_bitmap_full a n \<and>
    bitmap_equal c a b n = uu_bitmap_equal a b n \<and>
    bitmap_intersects c a b n = uu_bitmap_intersects a b n \<and>
    bitmap_subset c a b n = uu_bitmap_subset a b n \<and>
    bitmap_weight c a n = uu_bitmap_weight a n"
  by (simp add: fast_ops_bset fast_complement_bset fast_shift_left_bset fast_tests fast_weight assms
      bset_and bset_or bset_xor bset_andnot bset_complement bset_shift_left
      empty_iff full_iff equal_iff intersects_iff Bitmap.subset_iff weight_card)

theorem inline_equivalence_witness:
  "bitmap_weight True (\<lambda>_. 0xff) 5 = 5 \<and> uu_bitmap_weight (\<lambda>_. 0xff) 5 = 5"
proof -
  have "bitmap_weight True (\<lambda>_. 0xff) 5 = 5" by code_simp
  then show ?thesis using inline_equivalence [of 5 True _ _ _ _ "\<lambda>_. 0xff"] by simp
qed


end
