(* ===== verification/Log2.thy ===== *)
theory Log2
  imports BitOps
begin

text \<open>
  \<open>include/linux/log2.h\<close>: powers of two by bit scans. The macros select an expression
  for compile-time constants; that choice is the argument \<open>const_p\<close>.
\<close>

section \<open>Powers of two\<close>

definition fls_long :: "ulong \<Rightarrow> nat" where
  "fls_long l = fls l"

definition uu_ilog2_u32 :: "u32 \<Rightarrow> int" where
  "uu_ilog2_u32 n = int (fls n) - 1"

definition is_power_of_2 :: "ulong \<Rightarrow> bool" where
  "is_power_of_2 n \<longleftrightarrow> n \<noteq> 0 \<and> n AND (n - 1) = 0"

definition uu_roundup_pow_of_two :: "ulong \<Rightarrow> ulong" where
  "uu_roundup_pow_of_two n = push_bit (fls_long (n - 1)) 1"

definition uu_rounddown_pow_of_two :: "ulong \<Rightarrow> ulong" where
  "uu_rounddown_pow_of_two n = push_bit (fls_long n - 1) 1"

definition roundup_pow_of_two :: "bool \<Rightarrow> ulong \<Rightarrow> ulong" where
  "roundup_pow_of_two const_p n =
     (if const_p then (if n = 1 then 1 else push_bit (nat (uu_ilog2_u32 (n - 1) + 1)) 1)
      else uu_roundup_pow_of_two n)"

definition rounddown_pow_of_two :: "bool \<Rightarrow> ulong \<Rightarrow> ulong" where
  "rounddown_pow_of_two const_p n =
     (if const_p then (if n = 1 then 0 else push_bit (nat (uu_ilog2_u32 n)) 1)
      else uu_rounddown_pow_of_two n)"

lemma highest_at_bounds:
  assumes "highest_at w k"
  shows "2 ^ k \<le> unat w" "unat w < 2 ^ (k + 1)"
proof -
  have k: "bit w k" "\<And>i. i > k \<Longrightarrow> \<not> bit w i" using assms by (auto simp: highest_at_def)
  have "w = take_bit (k + 1) w"
    using k(2) by (intro bit_word_eqI) (auto simp: bit_take_bit_iff not_less Suc_le_eq intro: ccontr)
  then have "unat w = take_bit (k + 1) (unat w)" by (metis unsigned_take_bit_eq)
  then show "unat w < 2 ^ (k + 1)" by (metis take_bit_nat_less_exp)
  have "bit (unat w) k" using k(1) by (simp add: bit_unsigned_iff)
  then show "2 ^ k \<le> unat w" by (metis bit_iff_odd div_less even_zero not_le)
qed

lemma fls_bounds:
  assumes "w \<noteq> 0"
  shows "2 ^ (fls w - 1) \<le> unat w" "unat w < 2 ^ fls w" "fls w \<le> 32" "0 < fls w"
  using highest_at_bounds [OF uu_fls_highest [OF assms]] uu_fls_highest [OF assms] assms
    bit32D [of w "uu_fls w"]
  by (auto simp: fls_eq_uu_fls highest_at_def)

lemma unat_pow2: "k < 32 \<Longrightarrow> unat ((2 :: ulong) ^ k) = 2 ^ k"
proof -
  assume "k < 32"
  then have "take_bit 32 ((2 :: nat) ^ k) = 2 ^ k"
    by (intro take_bit_nat_eq_self power_strict_increasing) auto
  moreover have "unat (of_nat (2 ^ k) :: ulong) = take_bit 32 (2 ^ k)"
    by (subst unsigned_of_nat) simp
  ultimately show ?thesis by simp
qed

lemma is_power_of_2_iff: "is_power_of_2 n \<longleftrightarrow> (\<exists>k < 32. n = 2 ^ k)"
proof
  assume a: "is_power_of_2 n"
  then have nz: "n \<noteq> 0" and z: "n AND (n - 1) = 0" by (auto simp: is_power_of_2_def)
  define k where "k = uu_fls n"
  have h: "highest_at n k" using uu_fls_highest [OF nz] by (simp add: k_def)
  then have k: "k < 32" by (auto simp: highest_at_def dest: bit32D)
  note b = highest_at_bounds [OF h]
  have "unat n = 2 ^ k"
  proof (rule ccontr)
    assume "unat n \<noteq> 2 ^ k"
    with b have g: "2 ^ k < unat n" by simp
    have u: "unat (n - 1) = unat n - 1" using nz by (simp add: unat_minus_one)
    have "unat (n - 1) div 2 ^ k = 1"
      using g b(2) by (intro div_nat_eqI) (auto simp: u)
    then have "bit (unat (n - 1)) k" by (simp add: bit_iff_odd)
    then have "bit (n - 1) k" using k by (simp add: bit_unsigned_iff)
    with h have "bit (n AND (n - 1)) k" by (simp add: bit_and_iff highest_at_def)
    with z show False by simp
  qed
  then have "n = 2 ^ k"
    using unat_pow2 [OF k] by (simp add: word_unat_eq_iff)
  with k show "\<exists>k < 32. n = 2 ^ k" by blast
next
  assume "\<exists>k < 32. n = 2 ^ k"
  then obtain k where k: "k < 32" "n = 2 ^ k" by blast
  have "n AND (n - 1) = 0"
    using k by (intro bit_word_eqI) (auto simp: bit_and_iff bit_exp_iff bit_mask_iff simp flip: mask_eq_exp_minus_1)
  moreover have "n \<noteq> 0" using unat_pow2 [OF k(1)] k by auto
  ultimately show "is_power_of_2 n" by (simp add: is_power_of_2_def)
qed

lemma shl_1: "push_bit k (1 :: ulong) = 2 ^ k"
  by (simp add: push_bit_eq_mult)

lemma roundup_ilog2: "2 \<le> unat n \<Longrightarrow> roundup_pow_of_two c n = uu_roundup_pow_of_two n"
proof -
  assume n: "2 \<le> unat n"
  then have "n - 1 \<noteq> 0" "n \<noteq> 1" by (auto simp: unat_1)
  then show ?thesis
    using fls_bounds(4) [of "n - 1"]
    by (simp add: roundup_pow_of_two_def uu_roundup_pow_of_two_def uu_ilog2_u32_def fls_long_def)
qed

lemma roundup_bounds:
  assumes "0 < unat n" "unat n \<le> 2 ^ 31"
  shows "unat (uu_roundup_pow_of_two n) = 2 ^ fls (n - 1)" "fls (n - 1) < 32"
    "unat n \<le> 2 ^ fls (n - 1)" "unat n \<le> 2 ^ k \<Longrightarrow> 2 ^ fls (n - 1) \<le> (2 :: nat) ^ k"
proof -
  have u: "unat (n - 1) = unat n - 1" using assms by (intro unat_minus_one) auto
  have *: "fls (n - 1) < 32 \<and> unat n \<le> 2 ^ fls (n - 1) \<and> (unat n \<le> 2 ^ k \<longrightarrow> 2 ^ fls (n - 1) \<le> (2 :: nat) ^ k)" for k
  proof (cases "n - 1 = 0")
    case True
    with u assms have "unat n = 1" by simp
    then show ?thesis using True by (simp add: fls_eq_uu_fls)
  next
    case False
    note b = fls_bounds [OF False]
    have "2 ^ (fls (n - 1) - 1) < (2 :: nat) ^ 31" using b(1) u assms by linarith
    then have "fls (n - 1) - 1 < 31" by (rule power_less_imp_less_exp [rotated]) simp
    moreover have "2 ^ fls (n - 1) \<le> (2 :: nat) ^ k" if "unat n \<le> 2 ^ k"
    proof -
      have "2 ^ (fls (n - 1) - 1) < (2 :: nat) ^ k" using b(1) u assms that by linarith
      then have "fls (n - 1) - 1 < k" by (rule power_less_imp_less_exp [rotated]) simp
      then show ?thesis using b(4) by (intro power_increasing) auto
    qed
    ultimately show ?thesis using b u by auto
  qed
  then show "fls (n - 1) < 32" "unat n \<le> 2 ^ fls (n - 1)" "unat n \<le> 2 ^ k \<Longrightarrow> 2 ^ fls (n - 1) \<le> (2 :: nat) ^ k"
    by auto
  then show "unat (uu_roundup_pow_of_two n) = 2 ^ fls (n - 1)"
    by (simp add: uu_roundup_pow_of_two_def fls_long_def shl_1 unat_pow2)
qed

lemma rounddown_bounds:
  assumes "n \<noteq> 0"
  shows "unat (uu_rounddown_pow_of_two n) = 2 ^ (fls n - 1)"
    "2 ^ (fls n - 1) \<le> unat n" "unat n < 2 * 2 ^ (fls n - 1)"
  using fls_bounds [OF assms] power_Suc [of "2 :: nat" "fls n - 1"]
  by (simp_all add: uu_rounddown_pow_of_two_def fls_long_def shl_1 unat_pow2)

section \<open>Properties\<close>

text \<open>
  C30: \<open>__roundup_pow_of_two\<close> of a value between 1 and \<open>2 ^ 31\<close> is a power of two
  (\<open>is_power_of_2\<close> accepts it, as it accepts exactly the powers of two), not below
  the value, and below every other such power of two.
\<close>
theorem roundup_least_power:
  assumes "0 < unat n" "unat n \<le> 2 ^ 31"
  shows "is_power_of_2 (uu_roundup_pow_of_two n) \<and> n \<le> uu_roundup_pow_of_two n \<and>
    (\<forall>m. is_power_of_2 m \<and> n \<le> m \<longrightarrow> uu_roundup_pow_of_two n \<le> m)"
proof (intro conjI allI impI)
  note b = roundup_bounds [OF assms]
  show "is_power_of_2 (uu_roundup_pow_of_two n)"
    using b(2) by (auto simp: is_power_of_2_iff uu_roundup_pow_of_two_def fls_long_def shl_1)
  show "n \<le> uu_roundup_pow_of_two n" using b by (simp add: word_le_nat_alt)
  fix m assume "is_power_of_2 m \<and> n \<le> m"
  then obtain k where "k < 32" "m = 2 ^ k" "n \<le> m" by (auto simp: is_power_of_2_iff)
  then have "unat m = 2 ^ k" "unat n \<le> 2 ^ k" by (auto simp: unat_pow2 word_le_nat_alt)
  then show "uu_roundup_pow_of_two n \<le> m" using b(1) b(4) [of k] by (simp add: word_le_nat_alt)
qed

theorem roundup_least_power_witness:
  "uu_roundup_pow_of_two 100 = 128 \<and> is_power_of_2 128 \<and> (100 :: ulong) \<le> 128"
proof -
  have "uu_roundup_pow_of_two 100 = 128" by code_simp
  then show ?thesis using roundup_least_power [of 100] by simp
qed



end
