(* ===== verification/Kfifo.thy ===== *)
theory Kfifo
  imports Log2
begin

text \<open>
  The byte FIFO of \<open>kernel/kfifo.c\<close> and \<open>include/linux/kfifo.h\<close>. Buffers are functions
  from offsets to bytes; \<open>in\<close> and \<open>out\<close> are 32-bit words that wrap. \<open>contents\<close> is the
  abstraction to a list; the contract of a bounded byte queue is the locale \<open>byte_fifo\<close>,
  interpreted on the unlocked and on the locked operations. The step relation \<open>spsc_step\<close>
  interleaves the phases of one unlocked writer and one unlocked reader between the
  memory barriers of the code; each phase touches slots the other side does not.
  Allocations are arguments: the buffer or its absence, and whether the descriptor
  allocation succeeds; a \<open>BUG_ON\<close> is \<open>None\<close>.
\<close>

section \<open>The structure and its operations\<close>

type_synonym bytes = "nat \<Rightarrow> u8"

record kfifo =
  kbuffer :: bytes
  ksize :: u32
  kin :: u32
  kout :: u32

definition memcpy :: "bytes \<Rightarrow> nat \<Rightarrow> bytes \<Rightarrow> nat \<Rightarrow> nat \<Rightarrow> bytes" where
  "memcpy dst doff src soff n = (\<lambda>j. if doff \<le> j \<and> j < doff + n then src (soff + (j - doff)) else dst j)"

definition kfifo_init :: "bytes \<Rightarrow> u32 \<Rightarrow> bool \<Rightarrow> (errno + kfifo) option" where
  "kfifo_init buffer sz kmalloc_ok =
     (if \<not> is_power_of_2 sz then None
      else if \<not> kmalloc_ok then Some (Inl ENOMEM)
      else Some (Inr \<lparr>kbuffer = buffer, ksize = sz, kin = 0, kout = 0\<rparr>))"

definition kfifo_alloc :: "u32 \<Rightarrow> bytes option \<Rightarrow> bool \<Rightarrow> (errno + kfifo) option" where
  "kfifo_alloc sz kmalloc_buf kmalloc_ok =
     (if sz AND (sz - 1) \<noteq> 0 \<and> sz > 0x80000000 then None
      else let sz = (if sz AND (sz - 1) \<noteq> 0 then roundup_pow_of_two False sz else sz)
           in case kmalloc_buf of
                None \<Rightarrow> Some (Inl ENOMEM)
              | Some buffer \<Rightarrow> kfifo_init buffer sz kmalloc_ok)"

definition uu_kfifo_put :: "kfifo \<Rightarrow> bytes \<Rightarrow> u32 \<Rightarrow> u32 \<times> kfifo" where
  "uu_kfifo_put fifo buffer len =
     (let len = min len (ksize fifo - kin fifo + kout fifo);
          off = kin fifo AND (ksize fifo - 1);
          l = min len (ksize fifo - off);
          b = memcpy (kbuffer fifo) (unat off) buffer 0 (unat l);
          b = memcpy b 0 buffer (unat l) (unat (len - l))
      in (len, fifo\<lparr>kbuffer := b, kin := kin fifo + len\<rparr>))"

definition uu_kfifo_get :: "kfifo \<Rightarrow> bytes \<Rightarrow> u32 \<Rightarrow> u32 \<times> bytes \<times> kfifo" where
  "uu_kfifo_get fifo buffer len =
     (let len = min len (kin fifo - kout fifo);
          off = kout fifo AND (ksize fifo - 1);
          l = min len (ksize fifo - off);
          u = memcpy buffer 0 (kbuffer fifo) (unat off) (unat l);
          u = memcpy u (unat l) (kbuffer fifo) 0 (unat (len - l))
      in (len, u, fifo\<lparr>kout := kout fifo + len\<rparr>))"

definition uu_kfifo_reset :: "kfifo \<Rightarrow> kfifo" where
  "uu_kfifo_reset fifo = fifo\<lparr>kin := 0, kout := 0\<rparr>"

definition uu_kfifo_len :: "kfifo \<Rightarrow> u32" where
  "uu_kfifo_len fifo = kin fifo - kout fifo"

definition kfifo_reset :: "kfifo \<Rightarrow> kfifo" where
  "kfifo_reset fifo = uu_kfifo_reset fifo"

definition kfifo_put :: "kfifo \<Rightarrow> bytes \<Rightarrow> u32 \<Rightarrow> u32 \<times> kfifo" where
  "kfifo_put fifo buffer len = uu_kfifo_put fifo buffer len"

definition kfifo_get :: "kfifo \<Rightarrow> bytes \<Rightarrow> u32 \<Rightarrow> u32 \<times> bytes \<times> kfifo" where
  "kfifo_get fifo buffer len =
     (let (ret, u, fifo) = uu_kfifo_get fifo buffer len;
          fifo = (if kin fifo = kout fifo then fifo\<lparr>kin := 0, kout := 0\<rparr> else fifo)
      in (ret, u, fifo))"

definition kfifo_len :: "kfifo \<Rightarrow> u32" where
  "kfifo_len fifo = uu_kfifo_len fifo"

section \<open>Abstraction to a list\<close>

definition kfifo_wf :: "kfifo \<Rightarrow> bool" where
  "kfifo_wf f \<longleftrightarrow> is_power_of_2 (ksize f) \<and> kin f - kout f \<le> ksize f"

definition contents :: "kfifo \<Rightarrow> u8 list" where
  "contents f = map (\<lambda>k. kbuffer f ((unat (kout f) + k) mod unat (ksize f))) [0..<unat (kin f - kout f)]"

lemma length_contents [simp]: "length (contents f) = unat (kin f - kout f)"
  by (simp add: contents_def)

lemma nth_contents:
  "k < unat (kin f - kout f) \<Longrightarrow>
   contents f ! k = kbuffer f ((unat (kout f) + k) mod unat (ksize f))"
  by (simp add: contents_def)

lemma mask_pow2:
  assumes "is_power_of_2 S"
  shows "unat (x AND (S - 1)) = unat x mod unat S" "unat S dvd 2 ^ 32" "0 < unat S"
proof -
  obtain p where p: "p < 32" "S = 2 ^ p" using assms by (auto simp: is_power_of_2_iff)
  then have u: "unat S = 2 ^ p" by (simp add: unat_pow2)
  have "x AND (S - 1) = take_bit p x" by (simp add: p(2) take_bit_eq_mask flip: mask_eq_exp_minus_1)
  then show "unat (x AND (S - 1)) = unat x mod unat S"
    by (simp only: u unsigned_take_bit_eq take_bit_eq_mod [of p "unat x"])
  show "unat S dvd 2 ^ 32" "0 < unat S" using p(1) by (simp_all only: u le_imp_power_dvd less_imp_le) simp
qed

lemma unat_add_mod:
  fixes x y :: u32
  assumes "is_power_of_2 S"
  shows "unat (x + y) mod unat S = (unat x + unat y) mod unat (S :: u32)"
proof -
  have "unat (x + y) = (unat x + unat y) mod 2 ^ 32" by (simp add: unat_word_ariths)
  then show ?thesis using mask_pow2(2) [OF assms] by (simp only: mod_mod_cancel)
qed

text \<open>The two copies of a put write the data at consecutive positions modulo the size.\<close>

lemma ring_write:
  assumes "pos < S" "n \<le> S" "j < S"
  shows "memcpy (memcpy b pos u 0 (min n (S - pos))) 0 u (min n (S - pos)) (n - min n (S - pos)) j =
    (if (j + S - pos) mod S < n then u ((j + S - pos) mod S) else b j)"
proof (cases "pos \<le> j")
  case True
  then have "(j + S - pos) mod S = j - pos"
    using assms by (simp add: Nat.add_diff_assoc2 mod_if)
  with True assms show ?thesis by (auto simp: memcpy_def min_def)
next
  case False
  then have "(j + S - pos) mod S = j + S - pos" using assms by simp
  with False assms show ?thesis by (auto simp: memcpy_def min_def add.commute)
qed

lemma ring_read:
  assumes "pos < S" "n \<le> S" "j < n"
  shows "memcpy (memcpy u 0 b pos (min n (S - pos))) (min n (S - pos)) b 0 (n - min n (S - pos)) j =
    b ((pos + j) mod S)"
proof (cases "j < S - pos")
  case True
  with assms show ?thesis by (auto simp: memcpy_def)
next
  case False
  then have "S \<le> pos + j" "pos + j - S < S" using assms by auto
  then have "(pos + j) mod S = pos + j - S" by (simp add: le_mod_geq)
  with False assms show ?thesis by (auto simp: memcpy_def min_def add.commute)
qed

lemma unat_min: "unat (min a b) = min (unat a) (unat b)" for a b :: "'a :: len word"
  by (simp add: min_def word_le_nat_alt)

lemma unat_diff_le: "b \<le> a \<Longrightarrow> unat (a - b) = unat a - unat b" for a b :: "'a :: len word"
  by (simp add: unat_sub)

lemma put_value:
  fixes f :: kfifo and len :: u32
  assumes wf: "kfifo_wf f"
  defines "S \<equiv> unat (ksize f)" and "L \<equiv> unat (kin f - kout f)"
  defines "n \<equiv> min (unat len) (S - L)" and "pos \<equiv> unat (kin f) mod S"
  shows "unat (fst (uu_kfifo_put f u len)) = n" and "L + n \<le> S"
    and "snd (uu_kfifo_put f u len) = f\<lparr>kin := kin f + fst (uu_kfifo_put f u len),
      kbuffer := memcpy (memcpy (kbuffer f) pos u 0 (min n (S - pos))) 0 u (min n (S - pos))
        (n - min n (S - pos))\<rparr>"
proof -
  have p: "is_power_of_2 (ksize f)" and le: "kin f - kout f \<le> ksize f"
    using wf by (auto simp: kfifo_wf_def)
  have room: "unat (ksize f - kin f + kout f) = S - L"
    using unat_diff_le [OF le] by (simp add: S_def L_def algebra_simps)
  show "L + n \<le> S" using le by (auto simp: n_def S_def L_def word_le_nat_alt)
  have off: "unat (kin f AND (ksize f - 1)) = pos" "pos < S"
    using mask_pow2(1) [OF p, of "kin f"] mask_pow2(3) [OF p] by (simp_all add: pos_def S_def)
  then have "unat (ksize f - (kin f AND (ksize f - 1))) = S - pos"
    by (subst unat_diff_le) (auto simp: word_le_nat_alt S_def)
  moreover have "unat (min len (ksize f - kin f + kout f)) = n"
    by (simp add: unat_min room n_def)
  ultimately show "unat (fst (uu_kfifo_put f u len)) = n"
    "snd (uu_kfifo_put f u len) = f\<lparr>kin := kin f + fst (uu_kfifo_put f u len),
      kbuffer := memcpy (memcpy (kbuffer f) pos u 0 (min n (S - pos))) 0 u (min n (S - pos))
        (n - min n (S - pos))\<rparr>"
    by (simp_all add: uu_kfifo_put_def Let_def unat_min off unat_diff_le)
qed

lemma ring_index:
  fixes S o' L k :: nat
  assumes "0 < S" "k < L + n" "L + n \<le> S"
  shows "((o' + k) mod S + S - (o' + L) mod S) mod S = (if k < L then S - (L - k) else k - L)"
proof -
  define d where "d = (if k < L then S - (L - k) else k - L)"
  have d: "d < S" using assms(1-3) by (auto simp: d_def)
  have "int (((o' + k) mod S + S - (o' + L) mod S) mod S) =
      (int (o' + k) mod int S + int S - int (o' + L) mod int S) mod int S"
    using assms(1) by (simp add: of_nat_diff of_nat_mod trans_le_add2)
  also have "\<dots> = (int (o' + k) - int (o' + L)) mod int S"
  proof -
    have "int (o' + k) mod int S + int S - int (o' + L) mod int S =
        (int (o' + k) mod int S - int (o' + L) mod int S) + int S" by simp
    then show ?thesis by (simp only: mod_add_self2 mod_diff_eq)
  qed
  also have "\<dots> = (int k - int L) mod int S" by simp
  also have "\<dots> = int d mod int S"
  proof (cases "k < L")
    case True
    then have "int d = int k - int L + int S" using assms(3) by (simp add: d_def of_nat_diff)
    then show ?thesis by simp
  next
    case False
    then show ?thesis by (simp add: d_def of_nat_diff)
  qed
  also have "\<dots> = int d" using d by simp
  finally show ?thesis by (simp only: of_nat_eq_iff d_def)
qed

lemma put_contents:
  fixes f :: kfifo and len :: u32
  assumes wf: "kfifo_wf f"
  defines "n \<equiv> min (unat len) (unat (ksize f) - length (contents f))"
  shows "unat (fst (uu_kfifo_put f u len)) = n"
    and "contents (snd (uu_kfifo_put f u len)) = contents f @ map u [0..<n]"
    and "kfifo_wf (snd (uu_kfifo_put f u len))"
proof -
  define S where "S = unat (ksize f)"
  define L where "L = unat (kin f - kout f)"
  define f' where "f' = snd (uu_kfifo_put f u len)"
  have p: "is_power_of_2 (ksize f)" and le: "kin f - kout f \<le> ksize f"
    using wf by (auto simp: kfifo_wf_def)
  have S: "0 < S" "S < 2 ^ 32" using mask_pow2(3) [OF p] unsigned_less [of "ksize f"] by (auto simp: S_def)
  have n: "n = min (unat len) (S - L)" by (simp add: n_def S_def L_def)
  note v = put_value(1) [OF wf, where u = u and len = len, folded S_def L_def, folded n]
    put_value(2) [OF wf, where len = len, folded S_def L_def, folded n]
    put_value(3) [OF wf, where u = u and len = len, folded S_def L_def, folded n]
  show "unat (fst (uu_kfifo_put f u len)) = n" by (rule v(1))
  have f': "kout f' = kout f" "ksize f' = ksize f" "kin f' = kin f + fst (uu_kfifo_put f u len)"
    using v(3) by (simp_all add: f'_def)
  have "kin f' - kout f' = (kin f - kout f) + fst (uu_kfifo_put f u len)" by (simp add: f')
  then have L': "unat (kin f' - kout f') = L + n"
    using v(1,2) S by (simp add: L_def unat_word_ariths)
  show "kfifo_wf (snd (uu_kfifo_put f u len))"
    unfolding f'_def [symmetric] kfifo_wf_def f' using p L' v(2)
    by (simp add: word_le_nat_alt S_def flip: f'(3) f'(1))
  have kin: "unat (kin f) mod S = (unat (kout f) + L) mod S"
    using unat_add_mod [OF p, of "kout f" "kin f - kout f"] by (simp add: S_def L_def)
  have buf: "kbuffer f' j = (if (j + S - unat (kin f) mod S) mod S < n
      then u ((j + S - unat (kin f) mod S) mod S) else kbuffer f j)" if "j < S" for j
    unfolding f'_def v(3) using v(2) S that by (simp add: ring_write)
  have at: "kbuffer f' ((unat (kout f) + k) mod S) =
      (if k < L then kbuffer f ((unat (kout f) + k) mod S) else u (k - L))" if "k < L + n" for k
    using buf [of "(unat (kout f) + k) mod S"] ring_index [OF S(1) that v(2), of "unat (kout f)"] S v(2) that
    by (auto simp: kin)
  show "contents (snd (uu_kfifo_put f u len)) = contents f @ map u [0..<n]"
  proof (rule nth_equalityI)
    show "length (contents (snd (uu_kfifo_put f u len))) = length (contents f @ map u [0..<n])"
      using L' by (simp add: f'_def L_def)
    fix k assume "k < length (contents (snd (uu_kfifo_put f u len)))"
    then have k: "k < L + n" using L' by (simp add: f'_def)
    then show "contents (snd (uu_kfifo_put f u len)) ! k = (contents f @ map u [0..<n]) ! k"
      using at [OF k] L' by (auto simp: nth_append nth_contents f' S_def L_def simp flip: f'_def)
  qed
qed

lemma get_contents:
  fixes f :: kfifo and len :: u32
  assumes wf: "kfifo_wf f"
  defines "n \<equiv> min (unat len) (length (contents f))"
  shows "unat (fst (uu_kfifo_get f u len)) = n"
    and "map (fst (snd (uu_kfifo_get f u len))) [0..<n] = take n (contents f)"
    and "contents (snd (snd (uu_kfifo_get f u len))) = drop n (contents f)"
    and "kfifo_wf (snd (snd (uu_kfifo_get f u len)))"
proof -
  define S where "S = unat (ksize f)"
  define L where "L = unat (kin f - kout f)"
  define pos where "pos = unat (kout f) mod S"
  have p: "is_power_of_2 (ksize f)" and le: "kin f - kout f \<le> ksize f"
    using wf by (auto simp: kfifo_wf_def)
  have S: "0 < S" using mask_pow2(3) [OF p] by (simp add: S_def)
  have LS: "L \<le> S" using le by (simp add: L_def S_def word_le_nat_alt)
  have n: "n = min (unat len) L" by (simp add: n_def L_def)
  then have nL: "n \<le> L" "n \<le> S" using LS by auto
  have off: "unat (kout f AND (ksize f - 1)) = pos" "pos < S"
    using mask_pow2(1) [OF p, of "kout f"] S by (simp_all add: pos_def S_def)
  then have rest: "unat (ksize f - (kout f AND (ksize f - 1))) = S - pos"
    by (subst unat_diff_le) (auto simp: word_le_nat_alt S_def)
  have ret: "unat (min len (kin f - kout f)) = n" by (simp add: unat_min n L_def)
  then show "unat (fst (uu_kfifo_get f u len)) = n" by (simp add: uu_kfifo_get_def Let_def)
  define f' where "f' = snd (snd (uu_kfifo_get f u len))"
  have f': "f' = f\<lparr>kout := kout f + min len (kin f - kout f)\<rparr>"
    by (simp add: f'_def uu_kfifo_get_def Let_def)
  have L': "unat (kin f' - kout f') = L - n"
  proof -
    have "kin f' - kout f' = (kin f - kout f) - min len (kin f - kout f)" by (simp add: f')
    then show ?thesis using ret by (simp add: unat_diff_le L_def)
  qed
  show "kfifo_wf (snd (snd (uu_kfifo_get f u len)))"
    unfolding f'_def [symmetric] kfifo_wf_def using p L' LS
    by (simp add: word_le_nat_alt f' S_def)
  have "fst (snd (uu_kfifo_get f u len)) k = kbuffer f ((pos + k) mod S)" if "k < n" for k
    using ring_read [OF off(2) nL(2) that, of u "kbuffer f"] rest off ret
    by (simp add: uu_kfifo_get_def Let_def unat_min unat_diff_le)
  then show "map (fst (snd (uu_kfifo_get f u len))) [0..<n] = take n (contents f)"
    using nL by (intro nth_equalityI) (auto simp: nth_contents L_def pos_def S_def mod_add_left_eq)
  have "(unat (kout f') + k) mod S = (unat (kout f) + (n + k)) mod S" for k
    using unat_add_mod [OF p, of "kout f" "min len (kin f - kout f)"] ret
    by (simp add: f' S_def) (metis add.assoc mod_add_left_eq)
  then show "contents (snd (snd (uu_kfifo_get f u len))) = drop n (contents f)"
    unfolding f'_def [symmetric] using nL L'
    by (intro nth_equalityI) (auto simp: nth_contents L_def f' S_def)
qed

section \<open>The queue contract\<close>

datatype fifo_op = Put bytes u32 | Get bytes u32

fun fifo_step ::
    "('q \<Rightarrow> bytes \<Rightarrow> u32 \<Rightarrow> u32 \<times> 'q) \<Rightarrow> ('q \<Rightarrow> bytes \<Rightarrow> u32 \<Rightarrow> u32 \<times> bytes \<times> 'q) \<Rightarrow>
     fifo_op \<Rightarrow> 'q \<times> u8 list \<times> u8 list \<Rightarrow> 'q \<times> u8 list \<times> u8 list" where
  "fifo_step put get (Put u n) (q, ins, outs) =
     (let (r, q) = put q u n in (q, ins @ map u [0..<unat r], outs))"
| "fifo_step put get (Get u n) (q, ins, outs) =
     (let (r, u, q) = get q u n in (q, ins, outs @ map u [0..<unat r]))"

locale byte_fifo =
  fixes abs :: "'q \<Rightarrow> u8 list" and inv :: "'q \<Rightarrow> bool" and cap :: "'q \<Rightarrow> nat"
    and put :: "'q \<Rightarrow> bytes \<Rightarrow> u32 \<Rightarrow> u32 \<times> 'q"
    and get :: "'q \<Rightarrow> bytes \<Rightarrow> u32 \<Rightarrow> u32 \<times> bytes \<times> 'q"
  assumes bounded: "inv q \<Longrightarrow> length (abs q) \<le> cap q"
    and put: "inv q \<Longrightarrow> put q u n = (r, q') \<Longrightarrow>
      inv q' \<and> cap q' = cap q \<and> unat r = min (unat n) (cap q - length (abs q)) \<and>
      abs q' = abs q @ map u [0..<unat r]"
    and get: "inv q \<Longrightarrow> get q u n = (r, u', q') \<Longrightarrow>
      inv q' \<and> cap q' = cap q \<and> unat r = min (unat n) (length (abs q)) \<and>
      map u' [0..<unat r] = take (unat r) (abs q) \<and> abs q' = drop (unat r) (abs q)"
begin

lemma step_order:
  assumes "inv q" "fifo_step put get op (q, ins, outs) = (q', ins', outs')"
    "abs q0 @ ins = outs @ abs q"
  shows "inv q' \<and> cap q' = cap q \<and> abs q0 @ ins' = outs' @ abs q'"
proof (cases op)
  case (Put u n)
  obtain r q1 where p: "put q u n = (r, q1)" by (cases "put q u n")
  then have "outs' = outs" "q' = q1" "ins' = ins @ map u [0..<unat r]" using assms(2) Put by auto
  then show ?thesis using assms(3) put [OF assms(1) p] by simp
next
  case (Get u n)
  obtain r u1 q1 where g: "get q u n = (r, u1, q1)" by (cases "get q u n") auto
  then have "outs' = outs @ take (unat r) (abs q)" "abs q' = drop (unat r) (abs q)" "ins' = ins"
    using assms(2) Get get [OF assms(1) g] by auto
  then have "abs q0 @ ins' = outs' @ abs q'" using assms(3) by simp
  moreover have "q' = q1" using assms(2) Get g by simp
  ultimately show ?thesis using get [OF assms(1) g] by simp
qed

lemma order_from:
  "inv q \<Longrightarrow> abs q0 @ ins = outs @ abs q \<Longrightarrow>
   fold (fifo_step put get) ops (q, ins, outs) = (q', ins', outs') \<Longrightarrow>
   inv q' \<and> cap q' = cap q \<and> abs q0 @ ins' = outs' @ abs q'"
proof (induction ops arbitrary: q ins outs)
  case Nil
  then show ?case by simp
next
  case (Cons op ops)
  obtain q1 i1 o1 where s: "fifo_step put get op (q, ins, outs) = (q1, i1, o1)"
    by (cases "fifo_step put get op (q, ins, outs)") auto
  with step_order [OF Cons.prems(1) s Cons.prems(2)] Cons.IH [of q1 i1 o1] Cons.prems(3)
  show ?case by auto
qed

lemma fifo_order:
  "inv q \<Longrightarrow> fold (fifo_step put get) ops (q, [], []) = (q', ins, outs) \<Longrightarrow>
   inv q' \<and> length (abs q') \<le> cap q \<and> abs q @ ins = outs @ abs q'"
  using order_from [of q q "[]" "[]"] bounded [of q'] by auto

end

interpretation raw: byte_fifo contents kfifo_wf "\<lambda>f. unat (ksize f)" uu_kfifo_put uu_kfifo_get
proof
  fix f u n r f' u'
  assume wf: "kfifo_wf f"
  show "length (contents f) \<le> unat (ksize f)" using wf by (simp add: kfifo_wf_def word_le_nat_alt)
  show "kfifo_wf f' \<and> unat (ksize f') = unat (ksize f) \<and>
      unat r = min (unat n) (unat (ksize f) - length (contents f)) \<and>
      contents f' = contents f @ map u [0..<unat r]" if "uu_kfifo_put f u n = (r, f')"
    using put_contents [OF wf, where len = n and u = u] that put_value(3) [OF wf, where len = n and u = u] by simp
  show "kfifo_wf f' \<and> unat (ksize f') = unat (ksize f) \<and>
      unat r = min (unat n) (length (contents f)) \<and>
      map u' [0..<unat r] = take (unat r) (contents f) \<and> contents f' = drop (unat r) (contents f)"
    if "uu_kfifo_get f u n = (r, u', f')"
  proof -
    have "ksize f' = ksize f" using that by (auto simp: uu_kfifo_get_def Let_def)
    then show ?thesis using get_contents [OF wf, where len = n and u = u] that by simp
  qed
qed

lemma contents_reset: "kin f = kout f \<Longrightarrow> kfifo_wf f \<Longrightarrow>
  contents (uu_kfifo_reset f) = contents f \<and> kfifo_wf (uu_kfifo_reset f)"
  by (simp add: contents_def uu_kfifo_reset_def kfifo_wf_def)

lemma kfifo_get_reset:
  "kfifo_get f u n = (r, u', f') \<Longrightarrow> \<exists>f1. uu_kfifo_get f u n = (r, u', f1) \<and>
     (f' = f1 \<or> kin f1 = kout f1 \<and> f' = uu_kfifo_reset f1)"
  by (auto simp: kfifo_get_def uu_kfifo_reset_def Let_def split: prod.splits if_splits)

interpretation locked: byte_fifo contents kfifo_wf "\<lambda>f. unat (ksize f)" kfifo_put kfifo_get
proof
  fix f u n r f' u'
  assume wf: "kfifo_wf f"
  show "length (contents f) \<le> unat (ksize f)" by (rule raw.bounded [OF wf])
  show "kfifo_wf f' \<and> unat (ksize f') = unat (ksize f) \<and>
      unat r = min (unat n) (unat (ksize f) - length (contents f)) \<and>
      contents f' = contents f @ map u [0..<unat r]" if "kfifo_put f u n = (r, f')"
    using that raw.put [OF wf, of u n r f'] by (simp add: kfifo_put_def)
  show "kfifo_wf f' \<and> unat (ksize f') = unat (ksize f) \<and>
      unat r = min (unat n) (length (contents f)) \<and>
      map u' [0..<unat r] = take (unat r) (contents f) \<and> contents f' = drop (unat r) (contents f)"
    if g: "kfifo_get f u n = (r, u', f')"
  proof -
    obtain f1 where f1: "uu_kfifo_get f u n = (r, u', f1)"
        "f' = f1 \<or> kin f1 = kout f1 \<and> f' = uu_kfifo_reset f1"
      using kfifo_get_reset [OF g] by blast
    then show ?thesis
      using raw.get [OF wf f1(1)] contents_reset [of f1] by (auto simp: uu_kfifo_reset_def)
  qed
qed

section \<open>One reader and one writer without a lock\<close>

definition put_sample :: "kfifo \<Rightarrow> u32 \<Rightarrow> u32" where
  "put_sample fifo len = min len (ksize fifo - kin fifo + kout fifo)"

definition put_copy :: "kfifo \<Rightarrow> bytes \<Rightarrow> u32 \<Rightarrow> bytes" where
  "put_copy fifo buffer len =
     (let off = kin fifo AND (ksize fifo - 1);
          l = min len (ksize fifo - off);
          b = memcpy (kbuffer fifo) (unat off) buffer 0 (unat l)
      in memcpy b 0 buffer (unat l) (unat (len - l)))"

definition get_sample :: "kfifo \<Rightarrow> u32 \<Rightarrow> u32" where
  "get_sample fifo len = min len (kin fifo - kout fifo)"

definition get_copy :: "kfifo \<Rightarrow> bytes \<Rightarrow> u32 \<Rightarrow> bytes" where
  "get_copy fifo buffer len =
     (let off = kout fifo AND (ksize fifo - 1);
          l = min len (ksize fifo - off);
          u = memcpy buffer 0 (kbuffer fifo) (unat off) (unat l)
      in memcpy u (unat l) (kbuffer fifo) 0 (unat (len - l)))"

lemma put_phases:
  "uu_kfifo_put f u len = (let n = put_sample f len in (n, f\<lparr>kbuffer := put_copy f u n, kin := kin f + n\<rparr>))"
  by (simp add: uu_kfifo_put_def put_sample_def put_copy_def Let_def)

lemma get_phases:
  "uu_kfifo_get f u len = (let n = get_sample f len in (n, get_copy f u n, f\<lparr>kout := kout f + n\<rparr>))"
  by (simp add: uu_kfifo_get_def get_sample_def get_copy_def Let_def)

datatype wpc = W_idle | W_sampled bytes u32 | W_copied bytes u32
datatype rpc = R_idle | R_sampled u32 | R_copied u32 bytes

type_synonym spsc = "kfifo \<times> wpc \<times> rpc \<times> u8 list \<times> u8 list"

inductive spsc_step :: "spsc \<Rightarrow> spsc \<Rightarrow> bool" where
  w_sample: "spsc_step (f, W_idle, r, ins, outs) (f, W_sampled u (put_sample f len), r, ins, outs)"
| w_copy: "spsc_step (f, W_sampled u n, r, ins, outs)
    (f\<lparr>kbuffer := put_copy f u n\<rparr>, W_copied u n, r, ins, outs)"
| w_publish: "spsc_step (f, W_copied u n, r, ins, outs)
    (f\<lparr>kin := kin f + n\<rparr>, W_idle, r, ins @ map u [0..<unat n], outs)"
| r_sample: "spsc_step (f, w, R_idle, ins, outs) (f, w, R_sampled (get_sample f len), ins, outs)"
| r_copy: "spsc_step (f, w, R_sampled n, ins, outs) (f, w, R_copied n (get_copy f u n), ins, outs)"
| r_publish: "spsc_step (f, w, R_copied n u, ins, outs)
    (f\<lparr>kout := kout f + n\<rparr>, w, R_idle, ins, outs @ map u [0..<unat n])"

fun w_inv :: "kfifo \<Rightarrow> wpc \<Rightarrow> nat \<Rightarrow> nat \<Rightarrow> bool" where
  "w_inv f W_idle i o' \<longleftrightarrow> True"
| "w_inv f (W_sampled u n) i o' \<longleftrightarrow> i + unat n \<le> o' + unat (ksize f)"
| "w_inv f (W_copied u n) i o' \<longleftrightarrow> i + unat n \<le> o' + unat (ksize f) \<and>
     (\<forall>k < unat n. kbuffer f ((i + k) mod unat (ksize f)) = u k)"

fun r_inv :: "rpc \<Rightarrow> u8 list \<Rightarrow> nat \<Rightarrow> bool" where
  "r_inv R_idle ins o' \<longleftrightarrow> True"
| "r_inv (R_sampled n) ins o' \<longleftrightarrow> o' + unat n \<le> length ins"
| "r_inv (R_copied n u) ins o' \<longleftrightarrow> o' + unat n \<le> length ins \<and> (\<forall>k < unat n. u k = ins ! (o' + k))"

fun spsc_inv :: "spsc \<Rightarrow> bool" where
  "spsc_inv (f, w, r, ins, outs) \<longleftrightarrow>
     is_power_of_2 (ksize f) \<and> kin f = of_nat (length ins) \<and> kout f = of_nat (length outs) \<and>
     outs = take (length outs) ins \<and> length ins \<le> length outs + unat (ksize f) \<and>
     (\<forall>k. length outs \<le> k \<and> k < length ins \<longrightarrow> kbuffer f (k mod unat (ksize f)) = ins ! k) \<and>
     w_inv f w (length ins) (length outs) \<and> r_inv r ins (length outs)"

lemma unat_of_nat_mod:
  assumes "is_power_of_2 S"
  shows "unat (of_nat k :: u32) mod unat S = k mod unat S"
  using mask_pow2(2) [OF assms] by (simp add: unat_of_nat mod_mod_cancel)

lemma outs_le: "outs = take (length outs) ins \<Longrightarrow> length outs \<le> length ins"
  by (metis length_take min.cobounded1)

lemma ring_distance:
  assumes "o' \<le> i" "i \<le> o' + S" "S < 2 ^ 32"
  shows "unat ((of_nat i :: u32) - of_nat o') = i - o'"
proof -
  have "(of_nat i :: u32) - of_nat o' = of_nat (i - o')" using assms(1) by (simp add: of_nat_diff)
  moreover have "i - o' < 2 ^ 32" using assms by linarith
  ultimately show ?thesis by (simp add: unat_of_nat)
qed

lemma put_copy_at:
  assumes p: "is_power_of_2 (ksize f)" and kin: "kin f = of_nat i" and n: "i + unat n \<le> o' + S"
    and oi: "o' \<le> i" "i \<le> o' + S" and S: "S = unat (ksize f)" and k: "o' \<le> k" "k < i + unat n"
  shows "put_copy f u n (k mod S) = (if k < i then kbuffer f (k mod S) else u (k - i))"
proof -
  define pos where "pos = i mod S"
  have S0: "0 < S" using mask_pow2(3) [OF p] by (simp add: S)
  have off: "unat (kin f AND (ksize f - 1)) = pos" "pos < S"
    using mask_pow2(1) [OF p, of "kin f"] S0 by (simp_all add: pos_def S kin unat_of_nat_mod [OF p])
  have rest: "unat (ksize f - (kin f AND (ksize f - 1))) = S - pos"
    using off by (subst unat_diff_le) (auto simp: word_le_nat_alt S)
  have nS: "unat n \<le> S" using n oi by simp
  have "put_copy f u n j = (if (j + S - pos) mod S < unat n then u ((j + S - pos) mod S) else kbuffer f j)"
    if "j < S" for j
    using ring_write [OF off(2) nS that, of "kbuffer f" u] rest off
    by (simp add: put_copy_def Let_def unat_min unat_diff_le)
  moreover have "(k mod S + S - pos) mod S = (if k < i then S - (i - k) else k - i)"
  proof -
    have "k - o' < i - o' + unat n" "i - o' + unat n \<le> S" "k - o' < i - o' \<longleftrightarrow> k < i"
      using k n oi by linarith+
    then show ?thesis
      using ring_index [OF S0, of "k - o'" "i - o'" "unat n" o'] k oi by (simp add: pos_def)
  qed
  ultimately show ?thesis using S0 k n oi by auto
qed

lemma get_copy_at:
  assumes p: "is_power_of_2 (ksize f)" and kout: "kout f = of_nat o'" and n: "unat n \<le> unat (ksize f)"
    and k: "k < unat n"
  shows "get_copy f u n k = kbuffer f ((o' + k) mod unat (ksize f))"
proof -
  define S where "S = unat (ksize f)"
  define pos where "pos = o' mod S"
  have S0: "0 < S" using mask_pow2(3) [OF p] by (simp add: S_def)
  have off: "unat (kout f AND (ksize f - 1)) = pos" "pos < S"
    using mask_pow2(1) [OF p, of "kout f"] S0 by (simp_all add: pos_def S_def kout unat_of_nat_mod [OF p])
  have rest: "unat (ksize f - (kout f AND (ksize f - 1))) = S - pos"
    using off by (subst unat_diff_le) (auto simp: word_le_nat_alt S_def)
  show ?thesis
    using ring_read [OF off(2) _ k, of u "kbuffer f"] rest off n
    by (simp add: get_copy_def Let_def unat_min unat_diff_le S_def pos_def mod_add_left_eq)
qed

lemma spsc_inv_step: "spsc_step s t \<Longrightarrow> spsc_inv s \<Longrightarrow> spsc_inv t"
proof (induction rule: spsc_step.induct)
  case (w_sample f r ins outs u len)
  then have le: "length outs \<le> length ins" using outs_le by auto
  have "unat (kin f - kout f) = length ins - length outs"
    using w_sample ring_distance [OF le, of "unat (ksize f)"] unsigned_less [of "ksize f"] by simp
  moreover from this have "unat (ksize f - kin f + kout f) = unat (ksize f) - (length ins - length outs)"
  proof -
    assume d: "unat (kin f - kout f) = length ins - length outs"
    moreover have "length ins - length outs \<le> unat (ksize f)" using w_sample by auto
    ultimately have "unat (ksize f - (kin f - kout f)) = unat (ksize f) - (length ins - length outs)"
      by (subst unat_diff_le) (simp_all add: word_le_nat_alt)
    then show ?thesis by (simp add: diff_diff_eq2 diff_add_eq)
  qed
  ultimately show ?case using w_sample le by (auto simp: put_sample_def unat_min)
next
  case (w_copy f u n r ins outs)
  then have le: "length outs \<le> length ins" using outs_le by auto
  have at: "put_copy f u n (k mod unat (ksize f)) =
      (if k < length ins then kbuffer f (k mod unat (ksize f)) else u (k - length ins))"
    if "length outs \<le> k" "k < length ins + unat n" for k
    using put_copy_at [of f "length ins" n "length outs" "unat (ksize f)" k u] w_copy le that by simp
  show ?case using w_copy le at by (auto simp: trans_le_add1)
next
  case (w_publish f u n r ins outs)
  then have le: "length outs \<le> length ins" using outs_le by auto
  have "kbuffer f (k mod unat (ksize f)) = u (k - length ins)"
    if "\<not> k < length ins" "k < length ins + unat n" for k
  proof -
    have "k - length ins < unat n" "length ins + (k - length ins) = k" using that by auto
    with w_publish show ?thesis by (metis spsc_inv.simps w_inv.simps(3))
  qed
  moreover have "r_inv r (ins @ map u [0..<unat n]) (length outs)"
    using w_publish by (cases r) (auto simp: nth_append)
  ultimately show ?case using w_publish le by (auto simp: nth_append)
next
  case (r_sample f w ins outs len)
  then have le: "length outs \<le> length ins" using outs_le by auto
  have "unat (kin f - kout f) = length ins - length outs"
    using r_sample ring_distance [OF le, of "unat (ksize f)"] unsigned_less [of "ksize f"] by simp
  then show ?case using r_sample le by (auto simp: get_sample_def unat_min)
next
  case (r_copy f w n ins outs u)
  then have le: "length outs + unat n \<le> length ins" "unat n \<le> unat (ksize f)" by auto
  then show ?case using r_copy get_copy_at [of f "length outs" n _ u] by auto
next
  case (r_publish f w n u ins outs)
  then have le: "length outs + unat n \<le> length ins" by auto
  have "outs @ map u [0..<unat n] = take (length outs + unat n) ins"
  proof -
    have "map u [0..<unat n] = take (unat n) (drop (length outs) ins)"
      using r_publish le by (intro nth_equalityI) auto
    then show ?thesis using r_publish by (simp add: take_add)
  qed
  moreover have "w_inv (f\<lparr>kout := kout f + n\<rparr>) w (length ins) (length outs + unat n)"
    using r_publish by (cases w) auto
  ultimately show ?case using r_publish le by auto
qed

lemma spsc_inv_contents:
  assumes "spsc_inv (f, w, r, ins, outs)"
  shows "ins = outs @ contents f" "kfifo_wf f"
proof -
  have le: "length outs \<le> length ins" using assms outs_le by auto
  have d: "unat (kin f - kout f) = length ins - length outs"
    using assms ring_distance [OF le, of "unat (ksize f)"] unsigned_less [of "ksize f"] by simp
  have p: "is_power_of_2 (ksize f)" using assms by simp
  have "contents f = drop (length outs) ins"
  proof (rule nth_equalityI)
    show "length (contents f) = length (drop (length outs) ins)" by (simp add: d)
    fix k assume "k < length (contents f)"
    then have k: "k < length ins - length outs" by (simp add: d)
    have "(unat (kout f) + k) mod unat (ksize f) = (length outs + k) mod unat (ksize f)"
      using unat_of_nat_mod [OF p, of "length outs"] assms by simp (metis mod_add_left_eq)
    then have "contents f ! k = kbuffer f ((length outs + k) mod unat (ksize f))"
      using k nth_contents [of k f] by (simp add: d)
    then show "contents f ! k = drop (length outs) ins ! k"
      using k assms by simp
  qed
  then show "ins = outs @ contents f" using assms by (metis append_take_drop_id spsc_inv.simps)
  show "kfifo_wf f" using assms d by (auto simp: kfifo_wf_def word_le_nat_alt)
qed

lemma alloc_size:
  assumes "0 < unat sz" "unat sz \<le> 2 ^ 31"
  defines "s \<equiv> if sz AND (sz - 1) \<noteq> 0 then roundup_pow_of_two False sz else sz"
  shows "is_power_of_2 s \<and> unat sz \<le> unat s \<and> \<not> (sz AND (sz - 1) \<noteq> 0 \<and> sz > 0x80000000)"
proof -
  note b = roundup_bounds [OF assms(1,2)]
  have "is_power_of_2 (uu_roundup_pow_of_two sz)"
    using b(2) by (auto simp: is_power_of_2_iff uu_roundup_pow_of_two_def fls_long_def shl_1)
  moreover have "sz \<noteq> 0" using assms(1) by auto
  ultimately show ?thesis
    using b assms(2) by (auto simp: s_def roundup_pow_of_two_def is_power_of_2_def word_less_nat_alt)
qed

section \<open>Properties\<close>

text \<open>
  C21: \<open>kfifo_put\<close> appends as many bytes as there is room for and returns their number,
  \<open>kfifo_get\<close> removes up to the asked number of oldest bytes into the caller's buffer,
  and \<open>kfifo_len\<close> is the number of bytes held; well-formedness is kept.
\<close>
theorem kfifo_refines_list:
  assumes "kfifo_wf f"
  shows "(case kfifo_put f u n of (r, f') \<Rightarrow>
            unat r = min (unat n) (unat (ksize f) - unat (kfifo_len f)) \<and>
            contents f' = contents f @ map u [0..<unat r] \<and> kfifo_wf f') \<and>
         (case kfifo_get f u n of (r, u', f') \<Rightarrow>
            unat r = min (unat n) (unat (kfifo_len f)) \<and> map u' [0..<unat r] = take (unat r) (contents f) \<and>
            contents f' = drop (unat r) (contents f) \<and> kfifo_wf f') \<and>
         unat (kfifo_len f) = length (contents f)"
  using locked.put [OF assms, of u n] locked.get [OF assms, of u n]
  by (auto simp: kfifo_len_def uu_kfifo_len_def split: prod.splits)

theorem kfifo_refines_list_witness:
  "contents (snd (kfifo_put \<lparr>kbuffer = \<lambda>_. 7, ksize = 2, kin = 0, kout = 0xffffffff\<rparr> (\<lambda>_. 5) 3)) = [7, 5]"
proof -
  let ?f = "\<lparr>kbuffer = \<lambda>_. 7, ksize = 2, kin = 0, kout = 0xffffffff\<rparr> :: kfifo"
  have wf: "kfifo_wf ?f" and c: "contents ?f = [7]" and n: "unat (fst (kfifo_put ?f (\<lambda>_. 5) 3)) = 1"
    by (simp_all add: kfifo_wf_def is_power_of_2_def contents_def kfifo_put_def uu_kfifo_put_def Let_def)
  obtain r f' where p: "kfifo_put ?f (\<lambda>_. 5) 3 = (r, f')" by (cases "kfifo_put ?f (\<lambda>_. 5) 3")
  with kfifo_refines_list [OF wf, where u = "\<lambda>_. 5" and n = 3] have "contents f' = contents ?f @ map (\<lambda>_. 5) [0..<unat r]"
    by (simp only: prod.case)
  moreover have "unat r = 1" using n p by simp
  ultimately show ?thesis using c p by simp
qed

text \<open>
  C26: \<open>kfifo_alloc\<close> of a size between 1 and \<open>2 ^ 31\<close> never hits a \<open>BUG_ON\<close>: it fails with
  \<open>ENOMEM\<close> exactly when an allocation fails, and otherwise returns a well-formed empty FIFO
  of at least that size.
\<close>
theorem kfifo_alloc_ok:
  assumes "0 < unat sz" "unat sz \<le> 2 ^ 31"
  shows "\<exists>r. kfifo_alloc sz buf ok = Some r \<and>
    (case r of Inl e \<Rightarrow> e = ENOMEM \<and> (buf = None \<or> \<not> ok)
     | Inr f \<Rightarrow> buf = Some (kbuffer f) \<and> ok \<and> kfifo_wf f \<and> contents f = [] \<and> unat sz \<le> unat (ksize f))"
proof -
  define s where "s = (if sz AND (sz - 1) \<noteq> 0 then roundup_pow_of_two False sz else sz)"
  have s: "is_power_of_2 s" "unat sz \<le> unat s" "\<not> (sz AND (sz - 1) \<noteq> 0 \<and> sz > 0x80000000)"
    using alloc_size [OF assms] by (auto simp only: s_def)
  show ?thesis
    unfolding kfifo_alloc_def if_not_P [OF s(3)] Let_def s_def [symmetric]
    using s(1,2) by (auto simp: kfifo_init_def kfifo_wf_def contents_def split: option.splits)
qed

theorem kfifo_alloc_ok_witness:
  "\<exists>f. kfifo_alloc 5 (Some (\<lambda>_. 0)) True = Some (Inr f) \<and> kfifo_wf f \<and> 5 \<le> unat (ksize f)"
proof -
  have "0 < unat (5 :: u32)" "unat (5 :: u32) \<le> 2 ^ 31" by simp_all
  from kfifo_alloc_ok [OF this, of "Some (\<lambda>_. 0)" True] show ?thesis
    by (elim exE conjE, rename_tac r, case_tac r) auto
qed

text \<open>
  C22: one reader and one writer need no lock: in every interleaving of the index samples,
  copies and index updates of \<open>__kfifo_put\<close> and \<open>__kfifo_get\<close>, in the order the barriers
  impose, the bytes read so far are a prefix of the bytes written so far and the FIFO holds
  exactly the rest.
\<close>
theorem kfifo_spsc:
  assumes "is_power_of_2 sz"
    "spsc_step\<^sup>*\<^sup>* (\<lparr>kbuffer = b, ksize = sz, kin = 0, kout = 0\<rparr>, W_idle, R_idle, [], []) (f, w, r, ins, outs)"
  shows "ins = outs @ contents f \<and> kfifo_wf f"
proof -
  have "spsc_inv (\<lparr>kbuffer = b, ksize = sz, kin = 0, kout = 0\<rparr>, W_idle, R_idle, [], [])"
    using assms(1) by simp
  with assms(2) have "spsc_inv (f, w, r, ins, outs)"
    by (induction rule: rtranclp_induct) (auto intro: spsc_inv_step)
  then show ?thesis using spsc_inv_contents by blast
qed

theorem kfifo_spsc_witness:
  "\<exists>f w r ins outs.
     spsc_step\<^sup>*\<^sup>* (\<lparr>kbuffer = \<lambda>_. 0, ksize = 4, kin = 0, kout = 0\<rparr>, W_idle, R_idle, [], []) (f, w, r, ins, outs) \<and>
     length ins = 2 \<and> ins = outs @ contents f"
proof -
  let ?f0 = "\<lparr>kbuffer = \<lambda>_. 0, ksize = 4, kin = 0, kout = 0\<rparr> :: kfifo"
  let ?u = "\<lambda>k. of_nat k :: u8"
  have n: "put_sample ?f0 2 = 2" by (simp add: put_sample_def)
  let ?f1 = "?f0\<lparr>kbuffer := put_copy ?f0 ?u 2\<rparr>"
  let ?t = "(?f1\<lparr>kin := kin ?f1 + 2\<rparr>, W_idle, R_idle, [] @ map ?u [0..<unat (2 :: u32)], [])"
  have "spsc_step (?f0, W_idle, R_idle, [], []) (?f0, W_sampled ?u 2, R_idle, [], [])"
    using w_sample [of ?f0 R_idle "[]" "[]" ?u 2] unfolding n .
  moreover have "spsc_step (?f0, W_sampled ?u 2, R_idle, [], []) (?f1, W_copied ?u 2, R_idle, [], [])"
    by (rule w_copy)
  moreover have "spsc_step (?f1, W_copied ?u 2, R_idle, [], []) ?t"
    by (rule w_publish)
  ultimately have r: "spsc_step\<^sup>*\<^sup>* (?f0, W_idle, R_idle, [], []) ?t"
    by (meson rtranclp.rtrancl_into_rtrancl rtranclp.rtrancl_refl)
  have p: "is_power_of_2 4" by (simp add: is_power_of_2_def)
  have "length ([] @ map ?u [0..<unat (2 :: u32)]) = 2" by simp
  with r kfifo_spsc [OF p r] show ?thesis by blast
qed

end
