(* ===== verification/CryptoBytes.thy ===== *)
theory CryptoBytes
  imports BitOps
begin

text \<open>
  Words in memory as the ciphers of \<open>crypto/\<close> load and store them
  (\<open>le32_to_cpu\<close>, \<open>be32_to_cpu\<close> and their inverses on byte lists), the inversion of a
  sequence of rounds, and the contract of a keyed block cipher, the locale
  \<open>block_cipher\<close>, on which the block modes rely.
\<close>

section \<open>Words in memory\<close>

definition w32 :: "u8 \<Rightarrow> u8 \<Rightarrow> u8 \<Rightarrow> u8 \<Rightarrow> u32" where
  "w32 a b c d = ucast a OR push_bit 8 (ucast b) OR push_bit 16 (ucast c) OR push_bit 24 (ucast d)"

definition le32_to_cpu :: "u8 list \<Rightarrow> nat \<Rightarrow> u32" where
  "le32_to_cpu p i = w32 (p ! (4 * i)) (p ! (4 * i + 1)) (p ! (4 * i + 2)) (p ! (4 * i + 3))"

definition cpu_to_le32_bytes :: "u32 \<Rightarrow> u8 list" where
  "cpu_to_le32_bytes w =
     [ucast w, ucast (drop_bit 8 w), ucast (drop_bit 16 w), ucast (drop_bit 24 w)]"

definition be32_to_cpu :: "u8 list \<Rightarrow> nat \<Rightarrow> u32" where
  "be32_to_cpu p i = w32 (p ! (4 * i + 3)) (p ! (4 * i + 2)) (p ! (4 * i + 1)) (p ! (4 * i))"

definition cpu_to_be32_bytes :: "u32 \<Rightarrow> u8 list" where
  "cpu_to_be32_bytes w =
     [ucast (drop_bit 24 w), ucast (drop_bit 16 w), ucast (drop_bit 8 w), ucast w]"

lemma length_32_bytes [simp]:
  "length (cpu_to_le32_bytes w) = 4" "length (cpu_to_be32_bytes w) = 4"
  by (simp_all add: cpu_to_le32_bytes_def cpu_to_be32_bytes_def)

lemma bit_w32:
  "bit (w32 a b c d) n \<longleftrightarrow>
     (if n < 8 then bit a n else if n < 16 then bit b (n - 8)
      else if n < 24 then bit c (n - 16) else n < 32 \<and> bit d (n - 24))"
  using bit_imp_le_length [of a n] bit_imp_le_length [of b "n - 8"] bit_imp_le_length [of c "n - 16"]
    bit_imp_le_length [of d "n - 24"]
  by (auto simp: w32_def bit_or_iff bit_push_bit_iff bit_ucast_iff)

lemma w32_bytes [simp]:
  "w32 (ucast w) (ucast (drop_bit 8 w)) (ucast (drop_bit 16 w)) (ucast (drop_bit 24 w)) = w"
  by (rule bit_word_eqI) (auto simp: bit_w32 bit_ucast_iff bit_drop_bit_eq)

lemma bytes_w32 [simp]:
  "ucast (w32 a b c d) = a" "ucast (drop_bit 8 (w32 a b c d)) = b"
  "ucast (drop_bit 16 (w32 a b c d)) = c" "ucast (drop_bit 24 (w32 a b c d)) = d"
  by (rule bit_word_eqI; simp add: bit_w32 bit_ucast_iff bit_drop_bit_eq)+

lemma le32_load_store [simp]:
  "le32_to_cpu (cpu_to_le32_bytes a @ xs) 0 = a"
  "le32_to_cpu (cpu_to_le32_bytes a @ cpu_to_le32_bytes b) (Suc 0) = b"
  by (simp_all add: le32_to_cpu_def cpu_to_le32_bytes_def)

lemma be32_load_store [simp]:
  "be32_to_cpu (cpu_to_be32_bytes a @ xs) 0 = a"
  "be32_to_cpu (cpu_to_be32_bytes a @ cpu_to_be32_bytes b) (Suc 0) = b"
  by (simp_all add: be32_to_cpu_def cpu_to_be32_bytes_def)

lemma length_8_conv: "length p = 8 \<longleftrightarrow> (\<exists>a b c d e f g h. p = [a, b, c, d, e, f, g, h])"
  by (auto simp: numeral_eq_Suc length_Suc_conv)

lemma le32_store_load [simp]:
  "length p = 8 \<Longrightarrow> cpu_to_le32_bytes (le32_to_cpu p 0) @ cpu_to_le32_bytes (le32_to_cpu p (Suc 0)) = p"
  by (auto simp: length_8_conv le32_to_cpu_def cpu_to_le32_bytes_def)

lemma be32_store_load [simp]:
  "length p = 8 \<Longrightarrow> cpu_to_be32_bytes (be32_to_cpu p 0) @ cpu_to_be32_bytes (be32_to_cpu p (Suc 0)) = p"
  by (auto simp: length_8_conv be32_to_cpu_def cpu_to_be32_bytes_def)

section \<open>Rounds and their inverses\<close>

lemma fold_rev_inverse:
  assumes "\<And>x s. x \<in> set xs \<Longrightarrow> g x (f x s) = s"
  shows "fold g (rev xs) (fold f xs s) = s"
  using assms by (induction xs arbitrary: s) (simp_all add: fold_append)

lemma fold_rev_inverse':
  assumes "\<And>x s. x \<in> set xs \<Longrightarrow> f x (g x s) = s"
  shows "fold f xs (fold g (rev xs) s) = s"
  using fold_rev_inverse [of "rev xs" f g s] assms by simp

lemma finite_left_inverse:
  fixes f g :: "'a :: finite \<Rightarrow> 'a"
  assumes "\<And>x. g (f x) = x"
  shows "f (g x) = x"
proof -
  have "inj f" using assms by (metis injI)
  then have "surj f" by (rule finite_UNIV_inj_surj [OF finite])
  then obtain y where "x = f y" by (metis surjD)
  with assms show ?thesis by simp
qed

lemma fold_invariant:
  assumes "\<And>x s. x \<in> set xs \<Longrightarrow> I s \<Longrightarrow> I (f x s)" "I s"
  shows "I (fold f xs s)"
  using assms by (induction xs arbitrary: s) auto

section \<open>The cipher contract\<close>

locale block_cipher =
  fixes bs :: nat and enc dec :: "u8 list \<Rightarrow> u8 list"
  assumes bs_pos: "0 < bs"
    and length_enc: "length x = bs \<Longrightarrow> length (enc x) = bs"
    and length_dec: "length x = bs \<Longrightarrow> length (dec x) = bs"
    and dec_enc: "length x = bs \<Longrightarrow> dec (enc x) = x"
    and enc_dec: "length x = bs \<Longrightarrow> enc (dec x) = x"

end
