(* ===== verification/CryptoModes.thy ===== *)
theory CryptoModes
  imports CryptoBytes
begin

text \<open>
  The block modes \<open>crypto/ecb.c\<close>, \<open>crypto/cbc.c\<close>, \<open>crypto/pcbc.c\<close> and \<open>crypto/ctr.c\<close>, and
  the helpers \<open>crypto_xor\<close> and \<open>crypto_inc\<close> of \<open>crypto/algapi.c\<close>. The block cipher is the
  argument \<open>fn\<close>. The walk over the scatter lists is code of \<open>crypto/blkcipher.c\<close>: it hands
  over segments, here a list of pairs of the flag \<open>src == dst\<close> and the bytes; the laws
  assume what the walk provides, segments of a positive number of whole blocks. A loop
  \<open>do ... while ((nbytes -= bsize) >= bsize)\<close> runs over a segment of at least one block.
  \<open>mealy\<close> runs a step function over blocks and is the reference semantics of a mode; the
  routines for separate and for overlapping buffers are shown to compute it.
\<close>

section \<open>Helpers of the crypto API\<close>

fun crypto_xor_byte :: "u8 list \<Rightarrow> u8 list \<Rightarrow> nat \<Rightarrow> u8 list" where
  "crypto_xor_byte (a # as) (b # bs) (Suc n) = (a XOR b) # crypto_xor_byte as bs n"
| "crypto_xor_byte as bs n = as"

fun crypto_xor :: "u8 list \<Rightarrow> u8 list \<Rightarrow> nat \<Rightarrow> u8 list" where
  "crypto_xor dst src sz =
     (if 4 \<le> sz
      then cpu_to_le32_bytes (le32_to_cpu dst 0 XOR le32_to_cpu src 0) @
             crypto_xor (drop 4 dst) (drop 4 src) (sz - 4)
      else crypto_xor_byte dst src sz)"

fun crypto_inc_byte :: "u8 list \<Rightarrow> nat \<Rightarrow> u8 list" where
  "crypto_inc_byte a 0 = a"
| "crypto_inc_byte a (Suc n) =
     (let c = a ! n + 1; a = a[n := c] in if c \<noteq> 0 then a else crypto_inc_byte a n)"

fun crypto_inc :: "u8 list \<Rightarrow> nat \<Rightarrow> u8 list" where
  "crypto_inc a sz =
     (if 4 \<le> sz then
        let c = be32_to_cpu (drop (sz - 4) a) 0 + 1;
            a = take (sz - 4) a @ cpu_to_be32_bytes c @ drop sz a
        in if c \<noteq> 0 then a else crypto_inc a (sz - 4)
      else crypto_inc_byte a sz)"

declare crypto_xor.simps [simp del] crypto_inc.simps [simp del]

definition xorl :: "u8 list \<Rightarrow> u8 list \<Rightarrow> u8 list" where
  "xorl = map2 (XOR)"

lemma length_xorl [simp]: "length (xorl a b) = min (length a) (length b)"
  by (simp add: xorl_def)

lemma xorl_simps [simp]: "xorl [] b = []" "xorl a [] = []" "xorl (x # a) (y # b) = (x XOR y) # xorl a b"
  by (simp_all add: xorl_def)

lemma xorl_append: "length a = length b \<Longrightarrow> xorl (a @ c) (b @ d) = xorl a b @ xorl c d"
  by (simp add: xorl_def)

lemma xorl_commute: "xorl a b = xorl b a"
  by (induction a b rule: list_induct2') (simp_all add: xor.commute)

lemma xorl_cancel: "length a = length b \<Longrightarrow> xorl (xorl a b) b = a"
  by (induction a b rule: list_induct2) (simp_all add: xor.assoc)

lemma xorl_cancel': "length a = length b \<Longrightarrow> xorl (xorl b a) b = a"
  using xorl_cancel [of a b] by (simp add: xorl_commute)

lemma xorl_cancel2: "length a = length b \<Longrightarrow> xorl b (xorl b a) = a"
  by (induction a b rule: list_induct2) (simp_all add: xor.assoc [symmetric])

lemma xor_byte_eq:
  "n \<le> length a \<Longrightarrow> n \<le> length b \<Longrightarrow> crypto_xor_byte a b n = xorl (take n a) (take n b) @ drop n a"
proof (induction a b n rule: crypto_xor_byte.induct)
  case (1 a as b bs n)
  then show ?case by simp
qed auto

lemma length_4_conv: "length p = 4 \<longleftrightarrow> (\<exists>a b c d. p = [a, b, c, d])"
  by (auto simp: numeral_eq_Suc length_Suc_conv)

lemma w32_xor: "w32 a b c d XOR w32 a' b' c' d' = w32 (a XOR a') (b XOR b') (c XOR c') (d XOR d')"
  by (rule bit_word_eqI) (auto simp: bit_w32 bit_xor_iff)

lemma xor_word_eq:
  assumes "4 \<le> length a" "4 \<le> length b"
  shows "cpu_to_le32_bytes (le32_to_cpu a 0 XOR le32_to_cpu b 0) = xorl (take 4 a) (take 4 b)"
proof -
  obtain a0 a1 a2 a3 where a: "take 4 a = [a0, a1, a2, a3]"
    using assms(1) length_4_conv [of "take 4 a"] by auto
  obtain b0 b1 b2 b3 where b: "take 4 b = [b0, b1, b2, b3]"
    using assms(2) length_4_conv [of "take 4 b"] by auto
  have "p ! 0 = take 4 p ! 0" "p ! 1 = take 4 p ! 1" "p ! 2 = take 4 p ! 2" "p ! 3 = take 4 p ! 3"
    for p :: "u8 list" by simp_all
  then have "le32_to_cpu p 0 = w32 (take 4 p ! 0) (take 4 p ! 1) (take 4 p ! 2) (take 4 p ! 3)" for p
    by (simp only: le32_to_cpu_def mult_zero_right add_0)
  from this [of a] this [of b] have "le32_to_cpu a 0 = w32 a0 a1 a2 a3" "le32_to_cpu b 0 = w32 b0 b1 b2 b3"
    by (simp_all only: a b) (simp_all add: numeral_2_eq_2 numeral_3_eq_3)
  then show ?thesis by (simp add: a b w32_xor cpu_to_le32_bytes_def)
qed

lemma crypto_xor_eq:
  "n \<le> length a \<Longrightarrow> n \<le> length b \<Longrightarrow> crypto_xor a b n = xorl (take n a) (take n b) @ drop n a"
proof (induction a b n rule: crypto_xor.induct)
  case (1 a b n)
  show ?case
  proof (cases "4 \<le> n")
    case True
    have t: "take n a = take 4 a @ take (n - 4) (drop 4 a)" "take n b = take 4 b @ take (n - 4) (drop 4 b)"
      using True by (metis le_add_diff_inverse take_add)+
    have "crypto_xor a b n = xorl (take 4 a) (take 4 b) @ crypto_xor (drop 4 a) (drop 4 b) (n - 4)"
      using True 1(2,3) by (subst crypto_xor.simps) (simp add: xor_word_eq)
    also have "\<dots> = xorl (take n a) (take n b) @ drop n a"
      unfolding t using 1 True by (simp add: xorl_append)
    finally show ?thesis .
  next
    case False
    then show ?thesis using 1(2,3) by (subst crypto_xor.simps) (simp add: xor_byte_eq)
  qed
qed

lemma crypto_xor_full: "length a = n \<Longrightarrow> n \<le> length b \<Longrightarrow> crypto_xor a b n = xorl a (take n b)"
  by (simp add: crypto_xor_eq)

section \<open>The counter\<close>

fun be_val :: "u8 list \<Rightarrow> nat" where
  "be_val [] = 0"
| "be_val (x # xs) = unat x * 256 ^ length xs + be_val xs"

lemma be_val_append: "be_val (xs @ ys) = be_val xs * 256 ^ length ys + be_val ys"
  by (induction xs) (simp_all add: algebra_simps power_add)

lemma be_val_less: "be_val xs < 256 ^ length xs"
proof (induction xs)
  case Nil
  then show ?case by simp
next
  case (Cons x xs)
  have "unat x < 256" using unsigned_less [of x] by simp
  then have "unat x * 256 ^ length xs + 256 ^ length xs \<le> 256 * 256 ^ length xs"
    using mult_right_mono [of "unat x + 1" 256 "256 ^ length xs"] by simp
  with Cons show ?case unfolding be_val.simps length_Cons power_Suc by linarith
qed

lemma nat_bytes:
  fixes n :: nat
  assumes "n < 256 * 256 * 256 * 256"
  shows "n div 16777216 mod 256 * 16777216 + n div 65536 mod 256 * 65536 + n div 256 mod 256 * 256 + n mod 256 = n"
proof -
  define a b c where "a = n div 256" and "b = a div 256" and "c = b div 256"
  have "n div 65536 = b" "n div 16777216 = c"
    by (simp_all add: a_def b_def c_def div_mult2_eq [symmetric])
  moreover have "c < 256" unfolding c_def b_def a_def using assms by (simp add: div_mult2_eq [symmetric] less_mult_imp_div_less)
  ultimately show ?thesis
    using mult_div_mod_eq [of 256 n] mult_div_mod_eq [of 256 a] mult_div_mod_eq [of 256 b]
    unfolding a_def [symmetric] b_def [symmetric] c_def [symmetric] by simp
qed

lemma unat_byte: "unat (ucast (drop_bit k w) :: u8) = unat w div 2 ^ k mod 256" for w :: u32
proof -
  have "unat (ucast (drop_bit k w) :: u8) = take_bit 8 (unat (drop_bit k w))"
    by (simp only: unsigned_ucast_eq) simp
  also have "unat (drop_bit k w) = unat w div 2 ^ k"
    using unat_drop_bit_eq [of k w] by (simp only: drop_bit_eq_div [of k "unat w"])
  finally show ?thesis by (simp add: take_bit_eq_mod)
qed

lemma be_val_word: "be_val (cpu_to_be32_bytes w) = unat w"
proof -
  have "unat w < 256 * 256 * 256 * 256" using unsigned_less [of w] by simp
  then show ?thesis
    using nat_bytes [of "unat w"] unat_byte [of 0 w] unat_byte [of 8 w] unat_byte [of 16 w] unat_byte [of 24 w]
    by (simp add: cpu_to_be32_bytes_def)
qed

lemma be32_bytes: "length p = 4 \<Longrightarrow> cpu_to_be32_bytes (be32_to_cpu p 0) = p"
  by (auto simp: length_4_conv be32_to_cpu_def cpu_to_be32_bytes_def)

lemma be32_take: "be32_to_cpu (take 4 p) 0 = be32_to_cpu p 0"
  by (simp add: be32_to_cpu_def)

lemma unat_be32: "4 \<le> length p \<Longrightarrow> unat (be32_to_cpu p 0) = be_val (take 4 p)"
  using be_val_word [of "be32_to_cpu (take 4 p) 0"] be32_bytes [of "take 4 p"] by (simp add: be32_take)

lemma inc_digit:
  fixes v x B M :: nat
  assumes "x < B" "v < M" "0 < B"
  shows "(v * B + x + 1) mod (M * B) = (if x + 1 = B then (v + 1) mod M * B else v * B + (x + 1))"
proof (cases "x + 1 = B")
  case True
  then have "v * B + x + 1 = (v + 1) * B" by (simp add: algebra_simps)
  then show ?thesis using True by (simp only: mult_mod_left [symmetric]) simp
next
  case False
  then have "v * B + (x + 1) < (v + 1) * B" using assms(1) by (simp add: algebra_simps)
  also have "\<dots> \<le> M * B" using assms(2) by (intro mult_right_mono) auto
  finally show ?thesis using False by simp
qed

lemma unat_inc: "unat (c + 1) = (if unat c + 1 = 2 ^ LENGTH('a) then 0 else unat c + 1)" for c :: "'a :: len word"
proof -
  have "unat (c + 1) = (unat c + 1) mod 2 ^ LENGTH('a)" by (simp add: unat_word_ariths)
  moreover have "unat c + 1 \<noteq> 2 ^ LENGTH('a) \<Longrightarrow> unat c + 1 < 2 ^ LENGTH('a)"
    using unsigned_less [of c, where ?'a = nat] by linarith
  ultimately show ?thesis by simp
qed

lemma unat_inc_word: "unat (c + 1 :: u32) = (if unat c + 1 = 2 ^ 32 then 0 else unat c + 1)"
  using unat_inc [of c] by (simp del: One_nat_def)

lemma unat_inc_byte: "unat (c + 1 :: u8) = (if unat c + 1 = 256 then 0 else unat c + 1)"
  using unat_inc [of c] by (simp del: One_nat_def)

lemma inc_byte_val:
  "n \<le> length a \<Longrightarrow>
   be_val (take n (crypto_inc_byte a n)) = (be_val (take n a) + 1) mod 256 ^ n \<and>
   length (crypto_inc_byte a n) = length a \<and> drop n (crypto_inc_byte a n) = drop n a"
proof (induction n arbitrary: a)
  case 0
  then show ?case by simp
next
  case (Suc n)
  define c where "c = a ! n + 1"
  have t: "take (Suc n) b = take n b @ [b ! n]" if "length b = length a" for b :: "u8 list"
    using Suc.prems that by (simp add: take_Suc_conv_app_nth)
  have d: "drop (Suc n) b = tl (drop n b)" "b ! n = hd (drop n b)" if "length b = length a" for b :: "u8 list"
    using Suc.prems that by (simp_all add: drop_Suc tl_drop hd_drop_conv_nth)
  have v: "be_val (take n a) < 256 ^ n" using be_val_less [of "take n a"] Suc.prems by simp
  have x: "unat (a ! n) < 256" using unsigned_less [of "a ! n"] by simp
  have *: "(be_val (take (Suc n) a) + 1) mod 256 ^ Suc n =
      (if unat (a ! n) + 1 = 256 then (be_val (take n a) + 1) mod 256 ^ n * 256
       else be_val (take n a) * 256 + (unat (a ! n) + 1))"
    using inc_digit [OF x v] by (simp add: t be_val_append mult.commute)
  show ?case
  proof (cases "c = 0")
    case False
    then have "unat (a ! n) + 1 \<noteq> 256" "unat c = unat (a ! n) + 1"
      using unat_inc_byte [of "a ! n"] by (auto simp: c_def unat_eq_zero split: if_splits)
    with False show ?thesis using Suc.prems *
      by (simp add: Let_def c_def [symmetric] take_Suc_conv_app_nth be_val_append)
  next
    case True
    then have "unat (a ! n) + 1 = 256"
      using unat_inc_byte [of "a ! n"] by (simp add: c_def split: if_splits)
    moreover have "crypto_inc_byte a (Suc n) = crypto_inc_byte (a[n := 0]) n"
      using True by (simp add: Let_def c_def [symmetric])
    moreover note Suc.IH [of "a[n := 0]"]
    moreover have "tl (drop n (a[n := 0])) = tl (drop n a)"
      using Suc.prems d(1) [of "a[n := 0]"] d(1) [of a] by simp
    moreover have "hd (drop n (a[n := 0])) = 0" using Suc.prems by (simp add: hd_drop_conv_nth)
    ultimately show ?thesis using Suc.prems * d [of "crypto_inc_byte (a[n := 0]) n"] d(1) [of a]
      by (simp add: t be_val_append del: crypto_inc_byte.simps)
  qed
qed

lemma inc_val:
  "n \<le> length a \<Longrightarrow>
   be_val (take n (crypto_inc a n)) = (be_val (take n a) + 1) mod 256 ^ n \<and>
   length (crypto_inc a n) = length a \<and> drop n (crypto_inc a n) = drop n a"
proof (induction a n rule: crypto_inc.induct)
  case (1 a n)
  show ?case
  proof (cases "4 \<le> n")
    case False
    then show ?thesis using inc_byte_val [OF 1(2)] by (subst (1 2 3) crypto_inc.simps) simp
  next
    case n: True
    define m where "m = n - 4"
    define w where "w = be32_to_cpu (drop m a) 0"
    define a' where "a' = take m a @ cpu_to_be32_bytes (w + 1) @ drop n a"
    have nm: "n = m + 4" using n by (simp add: m_def)
    have split: "take n a = take m a @ take 4 (drop m a)" by (simp add: nm take_add)
    have m: "m \<le> length a" "length (drop m a) \<ge> 4" using 1(2) nm by auto
    have old: "be_val (take n a) = be_val (take m a) * 256 ^ 4 + unat w"
      using m by (simp add: split be_val_append w_def unat_be32)
    have M: "(256 :: nat) ^ n = 256 ^ m * 256 ^ 4" by (simp add: nm power_add)
    have v: "be_val (take m a) < 256 ^ m" using be_val_less [of "take m a"] m by simp
    have x: "unat w < 256 ^ 4" using unsigned_less [of w] by simp
    note d = inc_digit [OF x v, folded M, folded old]
    have len': "length a' = length a" using m 1(2) nm by (simp add: a'_def)
    show ?thesis
    proof (cases "w + 1 = 0")
      case False
      then have "unat w + 1 \<noteq> 256 ^ 4" "unat (w + 1) = unat w + 1"
        using unat_inc_word [of w] by (auto simp: unat_eq_zero split: if_splits)
      moreover have "crypto_inc a n = a'"
        using n False by (subst crypto_inc.simps) (simp add: Let_def a'_def w_def m_def)
      moreover have "take n a' = take m a @ cpu_to_be32_bytes (w + 1)" "drop n a' = drop n a"
        using m nm by (simp_all add: a'_def)
      ultimately show ?thesis using d len' by (simp add: be_val_append be_val_word)
    next
      case True
      then have carry: "unat w + 1 = 256 ^ 4"
        using unat_inc_word [of w] by (simp split: if_splits)
      have rec: "crypto_inc a n = crypto_inc a' m"
        using n True by (subst crypto_inc.simps) (simp add: Let_def a'_def w_def m_def)
      have IH: "be_val (take m (crypto_inc a' m)) = (be_val (take m a') + 1) mod 256 ^ m \<and>
          length (crypto_inc a' m) = length a' \<and> drop m (crypto_inc a' m) = drop m a'"
        using 1(1) [OF n _ _ ] True len' m by (simp add: a'_def w_def m_def)
      have a': "take m a' = take m a" "drop m a' = cpu_to_be32_bytes 0 @ drop n a"
        using m True by (simp_all add: a'_def)
      have "drop n (crypto_inc a' m) = drop 4 (drop m (crypto_inc a' m))" by (simp add: nm add.commute)
      also have "\<dots> = drop n a" using IH a' by simp
      finally have dn: "drop n (crypto_inc a' m) = drop n a" .
      have "take n b = take m b @ take 4 (drop m b)" for b :: "u8 list"
        by (simp add: nm take_add)
      moreover have "be_val (cpu_to_be32_bytes 0) = 0" by (simp add: be_val_word)
      ultimately show ?thesis using IH a' d carry len' m 1(2) dn
        by (simp add: rec be_val_append)
    qed
  qed
qed

lemma length_inc [simp]: "length a = n \<Longrightarrow> length (crypto_inc a n) = n"
  using inc_val [of n a] by simp

section \<open>Electronic code book\<close>

function crypto_ecb_crypt :: "(u8 list \<Rightarrow> u8 list) \<Rightarrow> nat \<Rightarrow> u8 list \<Rightarrow> nat \<Rightarrow> u8 list \<times> nat" where
  "crypto_ecb_crypt fn bsize src nbytes =
     (let d = fn (take bsize src); nbytes = nbytes - bsize in
      if bsize \<le> nbytes \<and> 0 < bsize
      then let (dst, n) = crypto_ecb_crypt fn bsize (drop bsize src) nbytes in (d @ dst, n)
      else (d, nbytes))"
  by pat_completeness auto
termination
  by (relation "measure (\<lambda>(fn, bsize, src, nbytes). nbytes)") auto

section \<open>Cipher block chaining\<close>

function crypto_cbc_encrypt_segment ::
    "(u8 list \<Rightarrow> u8 list) \<Rightarrow> nat \<Rightarrow> u8 list \<Rightarrow> u8 list \<Rightarrow> nat \<Rightarrow> u8 list \<times> u8 list \<times> nat" where
  "crypto_cbc_encrypt_segment fn bsize iv src nbytes =
     (let iv = crypto_xor iv src bsize;
          d = fn iv; iv = d; nbytes = nbytes - bsize in
      if bsize \<le> nbytes \<and> 0 < bsize
      then let (dst, iv, n) = crypto_cbc_encrypt_segment fn bsize iv (drop bsize src) nbytes in (d @ dst, iv, n)
      else (d, iv, nbytes))"
  by pat_completeness auto
termination
  by (relation "measure (\<lambda>(fn, bsize, iv, src, nbytes). nbytes)") auto

definition put_blk :: "u8 list \<Rightarrow> nat \<Rightarrow> u8 list \<Rightarrow> u8 list" where
  "put_blk buf off b = take off buf @ b @ drop (off + length b) buf"

definition get_blk :: "u8 list \<Rightarrow> nat \<Rightarrow> nat \<Rightarrow> u8 list" where
  "get_blk buf off n = take n (drop off buf)"

function cbc_encrypt_inplace_loop ::
    "(u8 list \<Rightarrow> u8 list) \<Rightarrow> nat \<Rightarrow> u8 list \<Rightarrow> u8 list \<Rightarrow> nat \<Rightarrow> nat \<Rightarrow> u8 list \<times> u8 list \<times> nat" where
  "cbc_encrypt_inplace_loop fn bsize iv buf src nbytes =
     (let b = crypto_xor (get_blk buf src bsize) iv bsize;
          b = fn b; buf = put_blk buf src b;
          iv = get_blk buf src bsize; nbytes = nbytes - bsize in
      if bsize \<le> nbytes \<and> 0 < bsize
      then cbc_encrypt_inplace_loop fn bsize iv buf (src + bsize) nbytes
      else (buf, iv, nbytes))"
  by pat_completeness auto
termination
  by (relation "measure (\<lambda>(fn, bsize, iv, buf, src, nbytes). nbytes)") auto

definition crypto_cbc_encrypt_inplace ::
    "(u8 list \<Rightarrow> u8 list) \<Rightarrow> nat \<Rightarrow> u8 list \<Rightarrow> u8 list \<Rightarrow> u8 list \<times> u8 list \<times> nat" where
  "crypto_cbc_encrypt_inplace fn bsize iv buf = cbc_encrypt_inplace_loop fn bsize iv buf 0 (length buf)"

function crypto_cbc_decrypt_segment ::
    "(u8 list \<Rightarrow> u8 list) \<Rightarrow> nat \<Rightarrow> u8 list \<Rightarrow> u8 list \<Rightarrow> nat \<Rightarrow> u8 list \<times> u8 list \<times> nat" where
  "crypto_cbc_decrypt_segment fn bsize iv src nbytes =
     (let d = fn (take bsize src); d = crypto_xor d iv bsize;
          iv = take bsize src; nbytes = nbytes - bsize in
      if bsize \<le> nbytes \<and> 0 < bsize
      then let (dst, iv, n) = crypto_cbc_decrypt_segment fn bsize iv (drop bsize src) nbytes in (d @ dst, iv, n)
      else (d, iv, nbytes))"
  by pat_completeness auto
termination
  by (relation "measure (\<lambda>(fn, bsize, iv, src, nbytes). nbytes)") auto

function cbc_decrypt_inplace_loop ::
    "(u8 list \<Rightarrow> u8 list) \<Rightarrow> nat \<Rightarrow> u8 list \<Rightarrow> nat \<Rightarrow> nat \<Rightarrow> u8 list \<times> nat \<times> nat" where
  "cbc_decrypt_inplace_loop fn bsize buf src nbytes =
     (let buf = put_blk buf src (fn (get_blk buf src bsize)); nbytes = nbytes - bsize in
      if nbytes < bsize \<or> bsize = 0 then (buf, src, nbytes)
      else let buf = put_blk buf src
                       (crypto_xor (get_blk buf src bsize) (get_blk buf (src - bsize) bsize) bsize)
           in cbc_decrypt_inplace_loop fn bsize buf (src - bsize) nbytes)"
  by pat_completeness auto
termination
  by (relation "measure (\<lambda>(fn, bsize, buf, src, nbytes). nbytes)") auto

definition crypto_cbc_decrypt_inplace ::
    "(u8 list \<Rightarrow> u8 list) \<Rightarrow> nat \<Rightarrow> u8 list \<Rightarrow> u8 list \<Rightarrow> u8 list \<times> u8 list \<times> nat" where
  "crypto_cbc_decrypt_inplace fn bsize iv buf =
     (let nbytes = length buf;
          src = nbytes - (nbytes AND (bsize - 1)) - bsize;
          last_iv = get_blk buf src bsize;
          (buf, src, nbytes) = cbc_decrypt_inplace_loop fn bsize buf src nbytes;
          buf = put_blk buf src (crypto_xor (get_blk buf src bsize) iv bsize)
      in (buf, last_iv, nbytes))"

definition walk_segments ::
    "(u8 list \<Rightarrow> u8 list \<Rightarrow> u8 list \<times> u8 list \<times> nat) \<Rightarrow> (u8 list \<Rightarrow> u8 list \<Rightarrow> u8 list \<times> u8 list \<times> nat) \<Rightarrow>
     u8 list \<Rightarrow> (bool \<times> u8 list) list \<Rightarrow> u8 list \<times> u8 list" where
  "walk_segments inplace segment iv segs =
     fold (\<lambda>(same, src) (out, iv).
             let (d, iv, n) = (if same then inplace iv src else segment iv src) in (out @ d, iv))
       segs ([], iv)"

definition crypto_cbc_encrypt ::
    "(u8 list \<Rightarrow> u8 list) \<Rightarrow> nat \<Rightarrow> u8 list \<Rightarrow> (bool \<times> u8 list) list \<Rightarrow> u8 list \<times> u8 list" where
  "crypto_cbc_encrypt fn bsize iv segs =
     walk_segments (crypto_cbc_encrypt_inplace fn bsize)
       (\<lambda>iv src. crypto_cbc_encrypt_segment fn bsize iv src (length src)) iv segs"

definition crypto_cbc_decrypt ::
    "(u8 list \<Rightarrow> u8 list) \<Rightarrow> nat \<Rightarrow> u8 list \<Rightarrow> (bool \<times> u8 list) list \<Rightarrow> u8 list \<times> u8 list" where
  "crypto_cbc_decrypt fn bsize iv segs =
     walk_segments (crypto_cbc_decrypt_inplace fn bsize)
       (\<lambda>iv src. crypto_cbc_decrypt_segment fn bsize iv src (length src)) iv segs"

section \<open>Propagating cipher block chaining\<close>

function crypto_pcbc_encrypt_segment ::
    "(u8 list \<Rightarrow> u8 list) \<Rightarrow> nat \<Rightarrow> u8 list \<Rightarrow> u8 list \<Rightarrow> nat \<Rightarrow> u8 list \<times> u8 list \<times> nat" where
  "crypto_pcbc_encrypt_segment fn bsize iv src nbytes =
     (let iv = crypto_xor iv src bsize;
          d = fn iv; iv = d; iv = crypto_xor iv src bsize; nbytes = nbytes - bsize in
      if bsize \<le> nbytes \<and> 0 < bsize
      then let (dst, iv, n) = crypto_pcbc_encrypt_segment fn bsize iv (drop bsize src) nbytes in (d @ dst, iv, n)
      else (d, iv, nbytes))"
  by pat_completeness auto
termination
  by (relation "measure (\<lambda>(fn, bsize, iv, src, nbytes). nbytes)") auto

function pcbc_encrypt_inplace_loop ::
    "(u8 list \<Rightarrow> u8 list) \<Rightarrow> nat \<Rightarrow> u8 list \<Rightarrow> u8 list \<Rightarrow> nat \<Rightarrow> nat \<Rightarrow> u8 list \<times> u8 list \<times> nat" where
  "pcbc_encrypt_inplace_loop fn bsize iv buf src nbytes =
     (let tmpbuf = get_blk buf src bsize;
          iv = crypto_xor iv (get_blk buf src bsize) bsize;
          buf = put_blk buf src (fn iv);
          iv = tmpbuf;
          iv = crypto_xor iv (get_blk buf src bsize) bsize; nbytes = nbytes - bsize in
      if bsize \<le> nbytes \<and> 0 < bsize
      then pcbc_encrypt_inplace_loop fn bsize iv buf (src + bsize) nbytes
      else (buf, iv, nbytes))"
  by pat_completeness auto
termination
  by (relation "measure (\<lambda>(fn, bsize, iv, buf, src, nbytes). nbytes)") auto

definition crypto_pcbc_encrypt_inplace ::
    "(u8 list \<Rightarrow> u8 list) \<Rightarrow> nat \<Rightarrow> u8 list \<Rightarrow> u8 list \<Rightarrow> u8 list \<times> u8 list \<times> nat" where
  "crypto_pcbc_encrypt_inplace fn bsize iv buf = pcbc_encrypt_inplace_loop fn bsize iv buf 0 (length buf)"

function crypto_pcbc_decrypt_segment ::
    "(u8 list \<Rightarrow> u8 list) \<Rightarrow> nat \<Rightarrow> u8 list \<Rightarrow> u8 list \<Rightarrow> nat \<Rightarrow> u8 list \<times> u8 list \<times> nat" where
  "crypto_pcbc_decrypt_segment fn bsize iv src nbytes =
     (let d = fn (take bsize src); d = crypto_xor d iv bsize;
          iv = take bsize src; iv = crypto_xor iv d bsize; nbytes = nbytes - bsize in
      if bsize \<le> nbytes \<and> 0 < bsize
      then let (dst, iv, n) = crypto_pcbc_decrypt_segment fn bsize iv (drop bsize src) nbytes in (d @ dst, iv, n)
      else (d, iv, nbytes))"
  by pat_completeness auto
termination
  by (relation "measure (\<lambda>(fn, bsize, iv, src, nbytes). nbytes)") auto

function pcbc_decrypt_inplace_loop ::
    "(u8 list \<Rightarrow> u8 list) \<Rightarrow> nat \<Rightarrow> u8 list \<Rightarrow> u8 list \<Rightarrow> nat \<Rightarrow> nat \<Rightarrow> u8 list \<times> u8 list \<times> nat" where
  "pcbc_decrypt_inplace_loop fn bsize iv buf src nbytes =
     (let tmpbuf = get_blk buf src bsize;
          buf = put_blk buf src (fn (get_blk buf src bsize));
          buf = put_blk buf src (crypto_xor (get_blk buf src bsize) iv bsize);
          iv = tmpbuf;
          iv = crypto_xor iv (get_blk buf src bsize) bsize; nbytes = nbytes - bsize in
      if bsize \<le> nbytes \<and> 0 < bsize
      then pcbc_decrypt_inplace_loop fn bsize iv buf (src + bsize) nbytes
      else (buf, iv, nbytes))"
  by pat_completeness auto
termination
  by (relation "measure (\<lambda>(fn, bsize, iv, buf, src, nbytes). nbytes)") auto

definition crypto_pcbc_decrypt_inplace ::
    "(u8 list \<Rightarrow> u8 list) \<Rightarrow> nat \<Rightarrow> u8 list \<Rightarrow> u8 list \<Rightarrow> u8 list \<times> u8 list \<times> nat" where
  "crypto_pcbc_decrypt_inplace fn bsize iv buf = pcbc_decrypt_inplace_loop fn bsize iv buf 0 (length buf)"

definition crypto_pcbc_encrypt ::
    "(u8 list \<Rightarrow> u8 list) \<Rightarrow> nat \<Rightarrow> u8 list \<Rightarrow> (bool \<times> u8 list) list \<Rightarrow> u8 list \<times> u8 list" where
  "crypto_pcbc_encrypt fn bsize iv segs =
     walk_segments (crypto_pcbc_encrypt_inplace fn bsize)
       (\<lambda>iv src. crypto_pcbc_encrypt_segment fn bsize iv src (length src)) iv segs"

definition crypto_pcbc_decrypt ::
    "(u8 list \<Rightarrow> u8 list) \<Rightarrow> nat \<Rightarrow> u8 list \<Rightarrow> (bool \<times> u8 list) list \<Rightarrow> u8 list \<times> u8 list" where
  "crypto_pcbc_decrypt fn bsize iv segs =
     walk_segments (crypto_pcbc_decrypt_inplace fn bsize)
       (\<lambda>iv src. crypto_pcbc_decrypt_segment fn bsize iv src (length src)) iv segs"

section \<open>Counter mode\<close>

function crypto_ctr_crypt_segment ::
    "(u8 list \<Rightarrow> u8 list) \<Rightarrow> nat \<Rightarrow> u8 list \<Rightarrow> u8 list \<Rightarrow> nat \<Rightarrow> u8 list \<times> u8 list \<times> nat" where
  "crypto_ctr_crypt_segment fn bsize ctrblk src nbytes =
     (let d = fn ctrblk; d = crypto_xor d src bsize;
          ctrblk = crypto_inc ctrblk bsize; nbytes = nbytes - bsize in
      if bsize \<le> nbytes \<and> 0 < bsize
      then let (dst, iv, n) = crypto_ctr_crypt_segment fn bsize ctrblk (drop bsize src) nbytes in (d @ dst, iv, n)
      else (d, ctrblk, nbytes))"
  by pat_completeness auto
termination
  by (relation "measure (\<lambda>(fn, bsize, iv, src, nbytes). nbytes)") auto

function ctr_crypt_inplace_loop ::
    "(u8 list \<Rightarrow> u8 list) \<Rightarrow> nat \<Rightarrow> u8 list \<Rightarrow> u8 list \<Rightarrow> nat \<Rightarrow> nat \<Rightarrow> u8 list \<times> u8 list \<times> nat" where
  "ctr_crypt_inplace_loop fn bsize ctrblk buf src nbytes =
     (let keystream = fn ctrblk;
          buf = put_blk buf src (crypto_xor (get_blk buf src bsize) keystream bsize);
          ctrblk = crypto_inc ctrblk bsize; nbytes = nbytes - bsize in
      if bsize \<le> nbytes \<and> 0 < bsize
      then ctr_crypt_inplace_loop fn bsize ctrblk buf (src + bsize) nbytes
      else (buf, ctrblk, nbytes))"
  by pat_completeness auto
termination
  by (relation "measure (\<lambda>(fn, bsize, iv, buf, src, nbytes). nbytes)") auto

definition crypto_ctr_crypt_inplace ::
    "(u8 list \<Rightarrow> u8 list) \<Rightarrow> nat \<Rightarrow> u8 list \<Rightarrow> u8 list \<Rightarrow> u8 list \<times> u8 list \<times> nat" where
  "crypto_ctr_crypt_inplace fn bsize ctrblk buf = ctr_crypt_inplace_loop fn bsize ctrblk buf 0 (length buf)"

definition crypto_ctr_crypt_final ::
    "(u8 list \<Rightarrow> u8 list) \<Rightarrow> nat \<Rightarrow> u8 list \<Rightarrow> u8 list \<Rightarrow> u8 list \<times> u8 list" where
  "crypto_ctr_crypt_final fn bsize ctrblk src =
     (let nbytes = length src;
          keystream = fn ctrblk;
          keystream = crypto_xor keystream src nbytes
      in (take nbytes keystream, crypto_inc ctrblk bsize))"

definition crypto_ctr_crypt ::
    "(u8 list \<Rightarrow> u8 list) \<Rightarrow> nat \<Rightarrow> u8 list \<Rightarrow> (bool \<times> u8 list) list \<Rightarrow> u8 list \<Rightarrow> u8 list \<times> u8 list" where
  "crypto_ctr_crypt fn bsize iv segs final =
     (let (out, iv) = walk_segments (crypto_ctr_crypt_inplace fn bsize)
            (\<lambda>iv src. crypto_ctr_crypt_segment fn bsize iv src (length src)) iv segs
      in if final \<noteq> [] then let (d, iv) = crypto_ctr_crypt_final fn bsize iv final in (out @ d, iv)
         else (out, iv))"

declare crypto_ecb_crypt.simps [simp del] crypto_cbc_encrypt_segment.simps [simp del]
  cbc_encrypt_inplace_loop.simps [simp del] crypto_cbc_decrypt_segment.simps [simp del]
  cbc_decrypt_inplace_loop.simps [simp del] crypto_pcbc_encrypt_segment.simps [simp del]
  pcbc_encrypt_inplace_loop.simps [simp del] crypto_pcbc_decrypt_segment.simps [simp del]
  pcbc_decrypt_inplace_loop.simps [simp del] crypto_ctr_crypt_segment.simps [simp del]
  ctr_crypt_inplace_loop.simps [simp del]

section \<open>Blocks and their reference semantics\<close>

fun mealy :: "('s \<Rightarrow> 'b \<Rightarrow> 'b \<times> 's) \<Rightarrow> 's \<Rightarrow> 'b list \<Rightarrow> 'b list \<times> 's" where
  "mealy step s [] = ([], s)"
| "mealy step s (b # bs) =
     (let (d, s) = step s b; (ds, s) = mealy step s bs in (d # ds, s))"

lemma mealy_append:
  "mealy step s (xs @ ys) =
   (fst (mealy step s xs) @ fst (mealy step (snd (mealy step s xs)) ys),
    snd (mealy step (snd (mealy step s xs)) ys))"
  by (induction xs arbitrary: s) (simp_all add: Let_def split: prod.splits)

function chunks :: "nat \<Rightarrow> 'a list \<Rightarrow> 'a list list" where
  "chunks n xs = (if n = 0 \<or> xs = [] then [] else take n xs # chunks n (drop n xs))"
  by pat_completeness auto
termination
  by (relation "measure (\<lambda>(n, xs). length xs)") auto

declare chunks.simps [simp del]

definition blocks :: "nat \<Rightarrow> 'a list list \<Rightarrow> bool" where
  "blocks n bl \<longleftrightarrow> (\<forall>b \<in> set bl. length b = n)"

lemma blocks_simps [simp]:
  "blocks n []" "blocks n (b # bl) \<longleftrightarrow> length b = n \<and> blocks n bl"
  "blocks n (xs @ ys) \<longleftrightarrow> blocks n xs \<and> blocks n ys"
  by (auto simp: blocks_def)

lemma chunks_blocks:
  "0 < n \<Longrightarrow> n dvd length xs \<Longrightarrow> blocks n (chunks n xs) \<and> concat (chunks n xs) = xs"
proof (induction n xs rule: chunks.induct)
  case (1 n xs)
  show ?case
  proof (cases "xs = []")
    case False
    then have "n \<le> length xs" using 1(3) by (simp add: dvd_imp_le)
    moreover from this have "n dvd length (drop n xs)" using 1(3) by simp
    ultimately show ?thesis using 1 False by (simp add: chunks.simps [of n xs])
  qed (simp add: chunks.simps)
qed

lemma chunks_concat: "0 < n \<Longrightarrow> blocks n bl \<Longrightarrow> chunks n (concat bl) = bl"
  by (induction bl) (auto simp: chunks.simps)

lemma length_concat_blocks: "blocks n bl \<Longrightarrow> length (concat bl) = length bl * n"
  by (induction bl) simp_all

lemma chunks_append:
  assumes "0 < n" "n dvd length xs" "n dvd length ys"
  shows "chunks n (xs @ ys) = chunks n xs @ chunks n ys"
  using chunks_concat [of n "chunks n xs @ chunks n ys"] chunks_blocks [OF assms(1,2)]
    chunks_blocks [OF assms(1,3)] assms(1) by simp

lemma get_put_blk [simp]:
  "off \<le> length buf \<Longrightarrow> length d = n \<Longrightarrow> get_blk (put_blk buf off d) off n = d"
  "off \<le> length buf \<Longrightarrow> length d = length e \<Longrightarrow> put_blk (put_blk buf off d) off e = put_blk buf off e"
  by (simp_all add: get_blk_def put_blk_def)

lemma get_blk_append [simp]: "length pre = off \<Longrightarrow> length b = n \<Longrightarrow> get_blk (pre @ b @ post) off n = b"
  by (auto simp: get_blk_def)

lemma put_blk_append [simp]:
  "length pre = off \<Longrightarrow> length b = length d \<Longrightarrow> put_blk (pre @ b @ post) off d = pre @ d @ post"
  by (auto simp: put_blk_def)

text \<open>A step of a mode keeps the length of the state and of the block.\<close>

definition step_ok :: "nat \<Rightarrow> (u8 list \<Rightarrow> u8 list \<Rightarrow> u8 list \<times> u8 list) \<Rightarrow> bool" where
  "step_ok n step \<longleftrightarrow> (\<forall>s b. length s = n \<and> length b = n \<longrightarrow>
     length (fst (step s b)) = n \<and> length (snd (step s b)) = n)"

lemma step_okD:
  "step_ok n step \<Longrightarrow> length s = n \<Longrightarrow> length b = n \<Longrightarrow> step s b = (d, s') \<Longrightarrow>
   length d = n \<and> length s' = n"
  unfolding step_ok_def by (metis fst_conv snd_conv)

lemma mealy_ok:
  "step_ok n step \<Longrightarrow> length s = n \<Longrightarrow> blocks n bl \<Longrightarrow>
   blocks n (fst (mealy step s bl)) \<and> length (fst (mealy step s bl)) = length bl \<and>
   length (snd (mealy step s bl)) = n"
proof (induction bl arbitrary: s)
  case (Cons b bl)
  obtain d s' where st: "step s b = (d, s')" by (cases "step s b")
  have "length d = n \<and> length s' = n" using step_okD [OF Cons.prems(1,2) _ st] Cons.prems(3) by simp
  with st show ?case
    using Cons.IH [of s'] Cons.prems by (simp add: Let_def case_prod_beta)
qed simp

lemma segment_mealy:
  assumes unfold: "\<And>s src m. length s = n \<Longrightarrow> n \<le> length src \<Longrightarrow> L s src m =
      (let (d, s) = step s (take n src); m = m - n in
       if n \<le> m \<and> 0 < n then let (ds, s, r) = L s (drop n src) m in (d @ ds, s, r) else (d, s, m))"
    and ok: "step_ok n step" and n: "0 < n"
  shows "bl \<noteq> [] \<Longrightarrow> blocks n bl \<Longrightarrow> length s = n \<Longrightarrow> length t < n \<Longrightarrow>
    L s (concat bl @ t) (length (concat bl @ t)) =
    (concat (fst (mealy step s bl)), snd (mealy step s bl), length t)"
proof (induction bl arbitrary: s)
  case Nil
  then show ?case by simp
next
  case (Cons b bl)
  obtain d s' where st: "step s b = (d, s')" by (cases "step s b")
  have s': "length s' = n" using step_okD [OF ok Cons.prems(3) _ st] Cons.prems(2) by simp
  have m: "length (concat (b # bl) @ t) - n = length (concat bl @ t)" using Cons.prems by simp
  show ?case
  proof (cases "bl = []")
    case True
    then show ?thesis using Cons.prems st n by (subst unfold) (auto simp: Let_def)
  next
    case False
    have "n \<le> length (concat bl @ t)"
      using False Cons.prems length_concat_blocks [of n bl] by (cases bl) auto
    then show ?thesis
      using Cons.IH [OF False _ s' Cons.prems(4)] Cons.prems st n m
      by (subst unfold) (auto simp: Let_def split: prod.splits)
  qed
qed

lemma inplace_mealy:
  assumes unfold: "\<And>s buf off m. length s = n \<Longrightarrow> off + n \<le> length buf \<Longrightarrow> L s buf off m =
      (let (d, s) = step s (get_blk buf off n); buf = put_blk buf off d; m = m - n in
       if n \<le> m \<and> 0 < n then L s buf (off + n) m else (buf, s, m))"
    and ok: "step_ok n step" and n: "0 < n"
  shows "bl \<noteq> [] \<Longrightarrow> blocks n bl \<Longrightarrow> length s = n \<Longrightarrow> length t < n \<Longrightarrow>
    L s (pre @ concat bl @ t) (length pre) (length (concat bl @ t)) =
    (pre @ concat (fst (mealy step s bl)) @ t, snd (mealy step s bl), length t)"
proof (induction bl arbitrary: s pre)
  case Nil
  then show ?case by simp
next
  case (Cons b bl)
  obtain d s' where st: "step s b = (d, s')" by (cases "step s b")
  have s': "length s' = n" "length d = n" using step_okD [OF ok Cons.prems(3) _ st] Cons.prems(2) by simp_all
  have m: "length (concat (b # bl) @ t) - n = length (concat bl @ t)" using Cons.prems by simp
  have g: "get_blk (pre @ concat (b # bl) @ t) (length pre) n = b"
    and p: "put_blk (pre @ concat (b # bl) @ t) (length pre) d = (pre @ d) @ concat bl @ t"
    using get_blk_append [of pre "length pre" b n "concat bl @ t"]
      put_blk_append [of pre "length pre" b d "concat bl @ t"] Cons.prems s' by simp_all
  show ?case
  proof (cases "bl = []")
    case True
    then show ?thesis using Cons.prems st n g p by (subst unfold) (auto simp: Let_def)
  next
    case False
    have "n \<le> length (concat bl @ t)"
      using False Cons.prems length_concat_blocks [of n bl] by (cases bl) auto
    then show ?thesis
      using Cons.IH [OF False _ s'(1) Cons.prems(4), of "pre @ d"] Cons.prems st s' n m g p
      by (subst unfold) (auto simp: Let_def split: prod.splits)
  qed
qed

lemma mealy_inverse:
  assumes inv: "\<And>s b. length s = n \<Longrightarrow> length b = n \<Longrightarrow>
      stepD s (fst (stepE s b)) = (b, snd (stepE s b))"
    and ok: "step_ok n stepE"
  shows "length s = n \<Longrightarrow> blocks n bl \<Longrightarrow>
    mealy stepD s (fst (mealy stepE s bl)) = (bl, snd (mealy stepE s bl))"
proof (induction bl arbitrary: s)
  case (Cons b bl)
  obtain d s' where st: "stepE s b = (d, s')" by (cases "stepE s b")
  have "length s' = n" using step_okD [OF ok Cons.prems(1) _ st] Cons.prems(2) by simp
  with st show ?case
    using Cons.IH [of s'] Cons.prems inv [of s b] by (simp add: Let_def case_prod_beta)
qed simp

section \<open>The modes on blocks\<close>

definition ecb_step :: "(u8 list \<Rightarrow> u8 list) \<Rightarrow> u8 list \<Rightarrow> u8 list \<Rightarrow> u8 list \<times> u8 list" where
  "ecb_step fn s b = (fn b, s)"

definition cbc_enc_step :: "(u8 list \<Rightarrow> u8 list) \<Rightarrow> u8 list \<Rightarrow> u8 list \<Rightarrow> u8 list \<times> u8 list" where
  "cbc_enc_step fn iv b = (fn (xorl iv b), fn (xorl iv b))"

definition cbc_dec_step :: "(u8 list \<Rightarrow> u8 list) \<Rightarrow> u8 list \<Rightarrow> u8 list \<Rightarrow> u8 list \<times> u8 list" where
  "cbc_dec_step fn iv c = (xorl (fn c) iv, c)"

definition pcbc_enc_step :: "(u8 list \<Rightarrow> u8 list) \<Rightarrow> u8 list \<Rightarrow> u8 list \<Rightarrow> u8 list \<times> u8 list" where
  "pcbc_enc_step fn iv b = (fn (xorl iv b), xorl (fn (xorl iv b)) b)"

definition pcbc_dec_step :: "(u8 list \<Rightarrow> u8 list) \<Rightarrow> u8 list \<Rightarrow> u8 list \<Rightarrow> u8 list \<times> u8 list" where
  "pcbc_dec_step fn iv c = (xorl (fn c) iv, xorl c (xorl (fn c) iv))"

definition ctr_step :: "(u8 list \<Rightarrow> u8 list) \<Rightarrow> u8 list \<Rightarrow> u8 list \<Rightarrow> u8 list \<times> u8 list" where
  "ctr_step fn ctr b = (xorl (fn ctr) b, crypto_inc ctr (length ctr))"

lemmas step_defs = ecb_step_def cbc_enc_step_def cbc_dec_step_def pcbc_enc_step_def pcbc_dec_step_def
  ctr_step_def

lemma steps_ok:
  assumes "\<And>x. length x = n \<Longrightarrow> length (fn x) = n"
  shows "step_ok n (ecb_step fn)" "step_ok n (cbc_enc_step fn)" "step_ok n (cbc_dec_step fn)"
    "step_ok n (pcbc_enc_step fn)" "step_ok n (pcbc_dec_step fn)" "step_ok n (ctr_step fn)"
  using assms by (simp_all add: step_ok_def step_defs)

text \<open>A segment routine that works like a step machine on its blocks.\<close>

definition seg_impl :: "nat \<Rightarrow> (u8 list \<Rightarrow> u8 list \<Rightarrow> u8 list \<times> u8 list) \<Rightarrow>
    (u8 list \<Rightarrow> u8 list \<Rightarrow> u8 list \<times> u8 list \<times> nat) \<Rightarrow> bool" where
  "seg_impl n step f \<longleftrightarrow> (\<forall>s bl. bl \<noteq> [] \<and> blocks n bl \<and> length s = n \<longrightarrow>
     f s (concat bl) = (concat (fst (mealy step s bl)), snd (mealy step s bl), 0))"

definition segs_ok :: "nat \<Rightarrow> (bool \<times> u8 list) list \<Rightarrow> bool" where
  "segs_ok n segs \<longleftrightarrow> (\<forall>(same, src) \<in> set segs. src \<noteq> [] \<and> n dvd length src)"

lemma walk_mealy:
  assumes impl: "seg_impl n step inplace" "seg_impl n step segment" and ok: "step_ok n step" and n: "0 < n"
    and s: "length s = n" "segs_ok n segs"
  shows "walk_segments inplace segment s segs =
    (let r = mealy step s (chunks n (concat (map snd segs))) in (concat (fst r), snd r))"
  using s(2)
proof (induction segs rule: rev_induct)
  case Nil
  then show ?case by (simp add: walk_segments_def chunks.simps Let_def)
next
  case (snoc seg segs)
  obtain same src where seg: "seg = (same, src)" by (cases seg)
  have segs: "segs_ok n segs" "src \<noteq> []" "n dvd length src"
    using snoc.prems by (auto simp: segs_ok_def seg)
  define pre where "pre = concat (map snd segs)"
  have pre: "n dvd length pre"
    using segs(1) unfolding pre_def by (induction segs) (auto simp: segs_ok_def)
  define r where "r = mealy step s (chunks n pre)"
  have r: "length (snd r) = n"
    using mealy_ok [OF ok s(1), of "chunks n pre"] chunks_blocks [OF n pre] by (simp add: r_def)
  have bl: "chunks n src \<noteq> []" "blocks n (chunks n src)" "concat (chunks n src) = src"
    using chunks_blocks [OF n segs(3)] segs(2) n by (auto simp: chunks.simps [of n src])
  define q where "q = mealy step (snd r) (chunks n src)"
  have "inplace (snd r) src = (concat (fst q), snd q, 0)" "segment (snd r) src = (concat (fst q), snd q, 0)"
    using impl bl r unfolding seg_impl_def q_def by metis+
  moreover have "walk_segments inplace segment s segs = (concat (fst r), snd r)"
    using snoc.IH [OF segs(1)] by (simp add: Let_def r_def pre_def)
  moreover have "mealy step s (chunks n (pre @ src)) = (fst r @ fst q, snd q)"
    by (simp add: chunks_append [OF n pre segs(3)] mealy_append r_def q_def)
  ultimately show ?case
    by (simp add: walk_segments_def seg Let_def pre_def [symmetric])
qed

lemma walk_length:
  assumes "seg_impl n step inplace" "seg_impl n step segment" "step_ok n step" "0 < n"
    "length s = n" "segs_ok n segs"
  shows "length (fst (walk_segments inplace segment s segs)) = length (concat (map snd segs))"
proof -
  have "n dvd length (concat (map snd segs))"
    using assms(6) by (induction segs) (auto simp: segs_ok_def)
  note bl = chunks_blocks [OF assms(4) this]
  define r where "r = mealy step s (chunks n (concat (map snd segs)))"
  have r: "blocks n (fst r)" "length (fst r) = length (chunks n (concat (map snd segs)))"
    using mealy_ok [OF assms(3,5)] bl by (simp_all add: r_def)
  have "length (concat (fst r)) = length (concat (chunks n (concat (map snd segs))))"
    by (simp only: length_concat_blocks [OF r(1)] length_concat_blocks [OF conjunct1 [OF bl]] r(2))
  then show ?thesis using walk_mealy [OF assms] bl by (simp add: Let_def r_def)
qed

lemma walk_state:
  assumes "seg_impl n step inplace" "seg_impl n step segment" "step_ok n step" "0 < n"
    "length s = n" "segs_ok n segs"
  shows "length (snd (walk_segments inplace segment s segs)) = n"
proof -
  have "n dvd length (concat (map snd segs))"
    using assms(6) by (induction segs) (auto simp: segs_ok_def)
  from conjunct1 [OF chunks_blocks [OF assms(4) this]]
  have "blocks n (chunks n (concat (map snd segs)))" .
  from mealy_ok [OF assms(3,5) this] show ?thesis using walk_mealy [OF assms] by (simp add: Let_def)
qed

lemma segment_impl:
  assumes "\<And>s src m. length s = n \<Longrightarrow> n \<le> length src \<Longrightarrow> L s src m =
      (let (d, s) = step s (take n src); m = m - n in
       if n \<le> m \<and> 0 < n then let (ds, s, r) = L s (drop n src) m in (d @ ds, s, r) else (d, s, m))"
    "step_ok n step" "0 < n"
  shows "seg_impl n step (\<lambda>s src. L s src (length src))"
  unfolding seg_impl_def using segment_mealy [OF assms, where t = "[]"] assms(3) by simp

lemma inplace_impl:
  assumes "\<And>s buf off m. length s = n \<Longrightarrow> off + n \<le> length buf \<Longrightarrow> L s buf off m =
      (let (d, s) = step s (get_blk buf off n); buf = put_blk buf off d; m = m - n in
       if n \<le> m \<and> 0 < n then L s buf (off + n) m else (buf, s, m))"
    "step_ok n step" "0 < n"
  shows "seg_impl n step (\<lambda>s buf. L s buf 0 (length buf))"
  unfolding seg_impl_def using inplace_mealy [OF assms, where t = "[]" and pre = "[]"] assms(3) by simp

lemma length_get_blk [simp]: "off + n \<le> length buf \<Longrightarrow> length (get_blk buf off n) = n"
  by (simp add: get_blk_def)

lemma take_get_blk [simp]: "off + n \<le> length buf \<Longrightarrow> take n (get_blk buf off n) = get_blk buf off n"
  by (simp add: get_blk_def)

context block_cipher
begin

lemma enc_ok:
  "step_ok bs (ecb_step enc)" "step_ok bs (cbc_enc_step enc)" "step_ok bs (cbc_dec_step enc)"
  "step_ok bs (pcbc_enc_step enc)" "step_ok bs (pcbc_dec_step enc)" "step_ok bs (ctr_step enc)"
  by (rule steps_ok, erule length_enc)+

lemma dec_ok:
  "step_ok bs (ecb_step dec)" "step_ok bs (cbc_enc_step dec)" "step_ok bs (cbc_dec_step dec)"
  "step_ok bs (pcbc_enc_step dec)" "step_ok bs (pcbc_dec_step dec)" "step_ok bs (ctr_step dec)"
  by (rule steps_ok, erule length_dec)+

lemma cbc_encrypt_segment_impl:
  "seg_impl bs (cbc_enc_step enc) (\<lambda>iv src. crypto_cbc_encrypt_segment enc bs iv src (length src))"
  by (rule segment_impl [OF _ enc_ok(2) bs_pos], subst crypto_cbc_encrypt_segment.simps)
     (simp add: Let_def cbc_enc_step_def crypto_xor_full)

lemma cbc_encrypt_inplace_impl: "seg_impl bs (cbc_enc_step enc) (crypto_cbc_encrypt_inplace enc bs)"
  unfolding crypto_cbc_encrypt_inplace_def
  by (rule inplace_impl [OF _ enc_ok(2) bs_pos], subst cbc_encrypt_inplace_loop.simps)
     (simp add: Let_def cbc_enc_step_def crypto_xor_full length_enc xorl_commute)

lemma cbc_decrypt_segment_impl:
  "seg_impl bs (cbc_dec_step dec) (\<lambda>iv src. crypto_cbc_decrypt_segment dec bs iv src (length src))"
  by (rule segment_impl [OF _ dec_ok(3) bs_pos], subst crypto_cbc_decrypt_segment.simps)
     (simp add: Let_def cbc_dec_step_def crypto_xor_full length_dec)

lemma pcbc_encrypt_segment_impl:
  "seg_impl bs (pcbc_enc_step enc) (\<lambda>iv src. crypto_pcbc_encrypt_segment enc bs iv src (length src))"
  by (rule segment_impl [OF _ enc_ok(4) bs_pos], subst crypto_pcbc_encrypt_segment.simps)
     (simp add: Let_def pcbc_enc_step_def crypto_xor_full length_enc)

lemma pcbc_decrypt_segment_impl:
  "seg_impl bs (pcbc_dec_step dec) (\<lambda>iv src. crypto_pcbc_decrypt_segment dec bs iv src (length src))"
  by (rule segment_impl [OF _ dec_ok(5) bs_pos], subst crypto_pcbc_decrypt_segment.simps)
     (simp add: Let_def pcbc_dec_step_def crypto_xor_full length_dec)

lemma pcbc_encrypt_inplace_impl: "seg_impl bs (pcbc_enc_step enc) (crypto_pcbc_encrypt_inplace enc bs)"
  unfolding crypto_pcbc_encrypt_inplace_def
  by (rule inplace_impl [OF _ enc_ok(4) bs_pos], subst pcbc_encrypt_inplace_loop.simps)
     (simp add: Let_def pcbc_enc_step_def crypto_xor_full length_enc xorl_commute)

lemma pcbc_decrypt_inplace_impl: "seg_impl bs (pcbc_dec_step dec) (crypto_pcbc_decrypt_inplace dec bs)"
  unfolding crypto_pcbc_decrypt_inplace_def
  by (rule inplace_impl [OF _ dec_ok(5) bs_pos], subst pcbc_decrypt_inplace_loop.simps)
     (simp add: Let_def pcbc_dec_step_def crypto_xor_full length_dec)

lemma ctr_segment_impl:
  "seg_impl bs (ctr_step enc) (\<lambda>iv src. crypto_ctr_crypt_segment enc bs iv src (length src))"
  by (rule segment_impl [OF _ enc_ok(6) bs_pos], subst crypto_ctr_crypt_segment.simps)
     (simp add: Let_def ctr_step_def crypto_xor_full length_enc)

lemma ctr_inplace_impl: "seg_impl bs (ctr_step enc) (crypto_ctr_crypt_inplace enc bs)"
  unfolding crypto_ctr_crypt_inplace_def
  by (rule inplace_impl [OF _ enc_ok(6) bs_pos], subst ctr_crypt_inplace_loop.simps)
     (simp add: Let_def ctr_step_def crypto_xor_full length_enc xorl_commute)

lemma ecb_encrypt_impl:
  "seg_impl bs (ecb_step enc) (\<lambda>s src. case crypto_ecb_crypt enc bs src (length src) of (d, n) \<Rightarrow> (d, s, n))"
  by (rule segment_impl [where L = "\<lambda>s src m. case crypto_ecb_crypt enc bs src m of (d, n) \<Rightarrow> (d, s, n)",
        OF _ enc_ok(1) bs_pos], subst crypto_ecb_crypt.simps) (simp_all add: Let_def ecb_step_def split: prod.splits)

lemma ecb_decrypt_impl:
  "seg_impl bs (ecb_step dec) (\<lambda>s src. case crypto_ecb_crypt dec bs src (length src) of (d, n) \<Rightarrow> (d, s, n))"
  by (rule segment_impl [where L = "\<lambda>s src m. case crypto_ecb_crypt dec bs src m of (d, n) \<Rightarrow> (d, s, n)",
        OF _ dec_ok(1) bs_pos], subst crypto_ecb_crypt.simps) (simp_all add: Let_def ecb_step_def split: prod.splits)

lemma cbc_decrypt_inplace_loop_eq:
  "cs \<noteq> [] \<Longrightarrow> blocks bs cs \<Longrightarrow> length iv = bs \<Longrightarrow>
   cbc_decrypt_inplace_loop dec bs (concat cs @ rest) (length (concat (butlast cs))) (length (concat cs)) =
   (dec (hd cs) @ drop bs (concat (fst (mealy (cbc_dec_step dec) iv cs))) @ rest, 0, 0)"
proof (induction cs arbitrary: rest rule: rev_induct)
  case Nil
  then show ?case by simp
next
  case (snoc c cs)
  have c: "length c = bs" "blocks bs cs" using snoc.prems by auto
  let ?pre = "concat cs"
  have put1: "put_blk (concat (cs @ [c]) @ rest) (length ?pre) (dec (get_blk (concat (cs @ [c]) @ rest) (length ?pre) bs))
      = ?pre @ dec c @ rest"
    using c get_blk_append [of ?pre "length ?pre" c bs rest] put_blk_append [of ?pre "length ?pre" c "dec c" rest]
    by (simp add: length_dec)
  show ?case
  proof (cases "cs = []")
    case True
    then show ?thesis using snoc.prems put1 c bs_pos
      by (subst cbc_decrypt_inplace_loop.simps) (simp add: Let_def cbc_dec_step_def length_dec)
  next
    case False
    define p where "p = last cs"
    have cs: "cs = butlast cs @ [p]" using False by (simp add: p_def)
    have p: "length p = bs" using c(2) cs by (metis blocks_simps(2,3))
    have pre: "?pre = concat (butlast cs) @ p" using cs by (metis concat_append concat.simps append_Nil2)
    have len: "length ?pre - bs = length (concat (butlast cs))" using p by (simp add: pre)
    have "bs \<le> length ?pre" using p by (simp add: pre)
    have get: "get_blk (?pre @ dec c @ rest) (length ?pre - bs) bs = p"
      using get_blk_append [of "concat (butlast cs)" "length ?pre - bs" p bs "dec c @ rest"] len p by (simp add: pre)
    have put2: "put_blk (?pre @ dec c @ rest) (length ?pre) (crypto_xor (dec c) p bs) = ?pre @ xorl (dec c) p @ rest"
      using put_blk_append [of ?pre "length ?pre" "dec c" "xorl (dec c) p" rest] c p
      by (simp add: crypto_xor_full length_dec)
    have get': "get_blk (?pre @ dec c @ rest) (length ?pre) bs = dec c"
      using c by (simp add: length_dec)
    have ml: "fst (mealy (cbc_dec_step dec) iv (cs @ [c])) = fst (mealy (cbc_dec_step dec) iv cs) @ [xorl (dec c) p]"
    proof -
      have "snd (mealy (cbc_dec_step dec) iv cs) = p"
        by (subst cs) (simp add: mealy_append cbc_dec_step_def)
      then show ?thesis by (simp add: mealy_append cbc_dec_step_def)
    qed
    have "bs \<le> length (concat (fst (mealy (cbc_dec_step dec) iv cs)))"
      using mealy_ok [OF dec_ok(3), of iv cs] snoc.prems(3) c(2) False
        length_concat_blocks [of bs "fst (mealy (cbc_dec_step dec) iv cs)"] by (cases cs) auto
    moreover have "cbc_decrypt_inplace_loop dec bs (concat (cs @ [c]) @ rest)
        (length (concat (butlast (cs @ [c])))) (length (concat (cs @ [c]))) =
      cbc_decrypt_inplace_loop dec bs (?pre @ (xorl (dec c) p @ rest)) (length (concat (butlast cs))) (length ?pre)"
      using put1 put2 get get' len \<open>bs \<le> length ?pre\<close> bs_pos c
      by (subst cbc_decrypt_inplace_loop.simps) (simp add: Let_def)
    ultimately show ?thesis
      using snoc.IH [OF False c(2) snoc.prems(3), of "xorl (dec c) p @ rest"] False ml by simp
  qed
qed

lemma cbc_decrypt_inplace_impl:
  assumes "bs = 2 ^ k"
  shows "seg_impl bs (cbc_dec_step dec) (crypto_cbc_decrypt_inplace dec bs)"
  unfolding seg_impl_def
proof (intro allI impI)
  fix iv :: "u8 list" and bl :: "u8 list list" assume a: "bl \<noteq> [] \<and> blocks bs bl \<and> length iv = bs"
  then obtain c cs where bl: "bl = c # cs" by (cases bl) auto
  let ?M = "mealy (cbc_dec_step dec) iv bl"
  have len: "length (concat bl) = length bl * bs" using a by (simp add: length_concat_blocks)
  have "length (concat bl) AND (bs - 1) = length (concat bl) mod bs"
    by (simp only: assms mask_eq_exp_minus_1 [symmetric] take_bit_eq_mask [symmetric] take_bit_eq_mod)
  then have al: "length (concat bl) AND (bs - 1) = 0" by (simp add: len)
  have lst: "concat bl = concat (butlast bl) @ last bl" "length (last bl) = bs"
    using a append_butlast_last_id [of bl] by (metis concat_append concat.simps append_Nil2, simp add: blocks_def)
  then have src: "length (concat bl) - 0 - bs = length (concat (butlast bl))" by simp
  have out: "concat (fst ?M) = xorl (dec c) iv @ drop bs (concat (fst ?M))"
    using a by (simp add: bl cbc_dec_step_def case_prod_beta length_dec)
  have "snd ?M = last bl"
    using a mealy_append [of "cbc_dec_step dec" iv "butlast bl" "[last bl]"]
    by (simp add: cbc_dec_step_def)
  moreover have "get_blk (concat bl) (length (concat (butlast bl))) bs = last bl"
    using lst get_blk_append [of "concat (butlast bl)" _ "last bl" bs "[]"] by simp
  moreover have "put_blk (dec c @ drop bs (concat (fst ?M))) 0 (crypto_xor (get_blk (dec c @ drop bs (concat (fst ?M))) 0 bs) iv bs)
      = concat (fst ?M)"
  proof -
    have "length (dec c) = bs" "length iv = bs" using a by (simp_all add: bl length_dec)
    then have "put_blk (dec c @ drop bs (concat (fst ?M))) 0
        (crypto_xor (get_blk (dec c @ drop bs (concat (fst ?M))) 0 bs) iv bs) =
        xorl (dec c) iv @ drop bs (concat (fst ?M))"
      by (simp add: get_blk_def put_blk_def crypto_xor_full)
    then show ?thesis by (simp only: out [symmetric])
  qed
  ultimately show "crypto_cbc_decrypt_inplace dec bs iv (concat bl) = (concat (fst ?M), snd ?M, 0)"
  proof -
    have "hd bl = c" by (simp add: bl)
    then have loop: "cbc_decrypt_inplace_loop dec bs (concat bl) (length (concat (butlast bl))) (length (concat bl)) =
        (dec c @ drop bs (concat (fst ?M)), 0, 0)"
      using cbc_decrypt_inplace_loop_eq [of bl iv "[]"] a by simp
    assume "snd ?M = last bl" "get_blk (concat bl) (length (concat (butlast bl))) bs = last bl"
      "put_blk (dec c @ drop bs (concat (fst ?M))) 0 (crypto_xor (get_blk (dec c @ drop bs (concat (fst ?M))) 0 bs) iv bs)
      = concat (fst ?M)"
    then show ?thesis
      unfolding crypto_cbc_decrypt_inplace_def Let_def al src loop prod.case by simp
  qed
qed

lemma cbc_step_inverse:
  "length s = bs \<Longrightarrow> length b = bs \<Longrightarrow>
   cbc_dec_step dec s (fst (cbc_enc_step enc s b)) = (b, snd (cbc_enc_step enc s b))"
  by (simp add: cbc_dec_step_def cbc_enc_step_def dec_enc xorl_cancel')

lemma pcbc_step_inverse:
  "length s = bs \<Longrightarrow> length b = bs \<Longrightarrow>
   pcbc_dec_step dec s (fst (pcbc_enc_step enc s b)) = (b, snd (pcbc_enc_step enc s b))"
  by (simp add: pcbc_dec_step_def pcbc_enc_step_def dec_enc xorl_cancel')

lemma ctr_step_inverse:
  "length s = bs \<Longrightarrow> length b = bs \<Longrightarrow>
   ctr_step enc s (fst (ctr_step enc s b)) = (b, snd (ctr_step enc s b))"
  by (simp add: ctr_step_def length_enc) (metis length_enc xorl_cancel' xorl_commute)

lemma ecb_step_inverse:
  "length s = bs \<Longrightarrow> length b = bs \<Longrightarrow>
   ecb_step dec s (fst (ecb_step enc s b)) = (b, snd (ecb_step enc s b))"
  by (simp add: ecb_step_def dec_enc)

text \<open>Decryption of any segmentation undoes encryption of any segmentation.\<close>

lemma walk_inverse:
  assumes E: "seg_impl bs stepE inpE" "seg_impl bs stepE segE" "step_ok bs stepE"
    and D: "seg_impl bs stepD inpD" "seg_impl bs stepD segD" "step_ok bs stepD"
    and inv: "\<And>s b. length s = bs \<Longrightarrow> length b = bs \<Longrightarrow> stepD s (fst (stepE s b)) = (b, snd (stepE s b))"
    and iv: "length iv = bs" and segs: "segs_ok bs segs" "segs_ok bs segs'"
    and enc: "walk_segments inpE segE iv segs = (c, iv')" and c: "concat (map snd segs') = c"
  shows "walk_segments inpD segD iv segs' = (concat (map snd segs), iv')" "length c = length (concat (map snd segs))"
proof -
  define m where "m = concat (map snd segs)"
  define bl where "bl = chunks bs m"
  have dvd: "bs dvd length (concat (map snd segs))" if "segs_ok bs segs" for segs
    using that by (induction segs) (auto simp: segs_ok_def)
  have bl: "blocks bs bl" "concat bl = m"
    using chunks_blocks [OF bs_pos dvd [OF segs(1)]] by (simp_all add: bl_def m_def)
  define r where "r = mealy stepE iv bl"
  have c': "c = concat (fst r)" "iv' = snd r"
    using enc walk_mealy [OF E bs_pos iv segs(1)] by (simp_all add: Let_def r_def bl_def m_def)
  have r: "blocks bs (fst r)" "length (fst r) = length bl"
    using mealy_ok [OF E(3) iv bl(1)] by (simp_all add: r_def)
  then have ch: "chunks bs (concat (map snd segs')) = fst r"
    using chunks_concat [OF bs_pos, of "fst r"] by (simp add: c c')
  have "mealy stepD iv (fst r) = (bl, snd r)"
    unfolding r_def by (rule mealy_inverse [where n = bs, OF _ E(3) iv bl(1)]) (rule inv)
  then show "walk_segments inpD segD iv segs' = (concat (map snd segs), iv')"
    using walk_mealy [OF D bs_pos iv segs(2)] bl by (simp add: Let_def ch c' m_def)
  show "length c = length (concat (map snd segs))"
    using r bl length_concat_blocks [of bs "fst r"] length_concat_blocks [of bs bl] by (simp add: c' m_def)
qed

lemma cbc_inverse:
  assumes "bs = 2 ^ k" "length iv = bs" "segs_ok bs segs" "segs_ok bs segs'"
    "walk_segments (crypto_cbc_encrypt_inplace enc bs) (\<lambda>iv src. crypto_cbc_encrypt_segment enc bs iv src (length src)) iv segs = (c, iv')"
    "concat (map snd segs') = c"
  shows "walk_segments (crypto_cbc_decrypt_inplace dec bs) (\<lambda>iv src. crypto_cbc_decrypt_segment dec bs iv src (length src)) iv segs' =
      (concat (map snd segs), iv')" and "length c = length (concat (map snd segs))"
  using walk_inverse [OF cbc_encrypt_inplace_impl cbc_encrypt_segment_impl enc_ok(2) cbc_decrypt_inplace_impl [OF assms(1)] cbc_decrypt_segment_impl dec_ok(3) cbc_step_inverse] assms(2-) by blast+

lemma pcbc_inverse:
  assumes "length iv = bs" "segs_ok bs segs" "segs_ok bs segs'"
    "walk_segments (crypto_pcbc_encrypt_inplace enc bs) (\<lambda>iv src. crypto_pcbc_encrypt_segment enc bs iv src (length src)) iv segs = (c, iv')"
    "concat (map snd segs') = c"
  shows "walk_segments (crypto_pcbc_decrypt_inplace dec bs) (\<lambda>iv src. crypto_pcbc_decrypt_segment dec bs iv src (length src)) iv segs' =
      (concat (map snd segs), iv')" and "length c = length (concat (map snd segs))"
  using walk_inverse [OF pcbc_encrypt_inplace_impl pcbc_encrypt_segment_impl enc_ok(4) pcbc_decrypt_inplace_impl pcbc_decrypt_segment_impl dec_ok(5) pcbc_step_inverse] assms by blast+

lemma ctr_inverse:
  assumes "length iv = bs" "segs_ok bs segs" "segs_ok bs segs'"
    "walk_segments (crypto_ctr_crypt_inplace enc bs) (\<lambda>iv src. crypto_ctr_crypt_segment enc bs iv src (length src)) iv segs = (c, iv')"
    "concat (map snd segs') = c"
  shows "walk_segments (crypto_ctr_crypt_inplace enc bs) (\<lambda>iv src. crypto_ctr_crypt_segment enc bs iv src (length src)) iv segs' =
      (concat (map snd segs), iv')" and "length c = length (concat (map snd segs))"
  using walk_inverse [OF ctr_inplace_impl ctr_segment_impl enc_ok(6) ctr_inplace_impl ctr_segment_impl enc_ok(6) ctr_step_inverse] assms by blast+

lemma ctr_final_inverse:
  assumes "length ctr = bs" "length src \<le> bs" "crypto_ctr_crypt_final enc bs ctr src = (d, ctr')"
  shows "crypto_ctr_crypt_final enc bs ctr d = (src, ctr')" "length d = length src"
proof -
  have d: "d = xorl (take (length src) (enc ctr)) src" "ctr' = crypto_inc ctr bs"
    using assms by (simp_all add: crypto_ctr_crypt_final_def Let_def crypto_xor_eq length_enc)
  then show "length d = length src" using assms by (simp add: length_enc)
  then show "crypto_ctr_crypt_final enc bs ctr d = (src, ctr')"
    using assms by (simp add: crypto_ctr_crypt_final_def Let_def crypto_xor_eq length_enc d xorl_cancel2)
qed

end

end
