(* ===== verification/Tea.thy ===== *)
theory Tea
  imports CryptoModes
begin

text \<open>
  \<open>crypto/tea.c\<close>: the TEA, XTEA and XETA block ciphers. The XTEA and XETA loops test a
  wrapping 32-bit sum for their end; they are partial functions, and the lemmas show that
  they return after 32 rounds for every key and block.
\<close>

section \<open>TEA\<close>

definition TEA_ROUNDS :: nat where "TEA_ROUNDS = 32"
definition TEA_DELTA :: u32 where "TEA_DELTA = 0x9e3779b9"
definition XTEA_ROUNDS :: u32 where "XTEA_ROUNDS = 32"
definition XTEA_DELTA :: u32 where "XTEA_DELTA = 0x9e3779b9"

record tea_ctx =
  KEY :: "u32 list"

definition tea_setkey :: "u8 list \<Rightarrow> tea_ctx" where
  "tea_setkey in_key =
     \<lparr>KEY = [le32_to_cpu in_key 0, le32_to_cpu in_key 1, le32_to_cpu in_key 2, le32_to_cpu in_key 3]\<rparr>"

fun tea_encrypt_loop :: "u32 list \<Rightarrow> nat \<Rightarrow> u32 \<Rightarrow> u32 \<Rightarrow> u32 \<Rightarrow> u32 \<times> u32" where
  "tea_encrypt_loop k 0 sm y z = (y, z)"
| "tea_encrypt_loop k (Suc n) sm y z =
     (let sm = sm + TEA_DELTA;
          y = y + ((push_bit 4 z + k ! 0) XOR (z + sm) XOR (drop_bit 5 z + k ! 1));
          z = z + ((push_bit 4 y + k ! 2) XOR (y + sm) XOR (drop_bit 5 y + k ! 3))
      in tea_encrypt_loop k n sm y z)"

definition tea_encrypt :: "tea_ctx \<Rightarrow> u8 list \<Rightarrow> u8 list" where
  "tea_encrypt ctx src =
     (let (y, z) = tea_encrypt_loop (KEY ctx) TEA_ROUNDS 0 (le32_to_cpu src 0) (le32_to_cpu src 1)
      in cpu_to_le32_bytes y @ cpu_to_le32_bytes z)"

fun tea_decrypt_loop :: "u32 list \<Rightarrow> nat \<Rightarrow> u32 \<Rightarrow> u32 \<Rightarrow> u32 \<Rightarrow> u32 \<times> u32" where
  "tea_decrypt_loop k 0 sm y z = (y, z)"
| "tea_decrypt_loop k (Suc n) sm y z =
     (let z = z - ((push_bit 4 y + k ! 2) XOR (y + sm) XOR (drop_bit 5 y + k ! 3));
          y = y - ((push_bit 4 z + k ! 0) XOR (z + sm) XOR (drop_bit 5 z + k ! 1));
          sm = sm - TEA_DELTA
      in tea_decrypt_loop k n sm y z)"

definition tea_decrypt :: "tea_ctx \<Rightarrow> u8 list \<Rightarrow> u8 list" where
  "tea_decrypt ctx src =
     (let (y, z) = tea_decrypt_loop (KEY ctx) TEA_ROUNDS (push_bit 5 TEA_DELTA)
                     (le32_to_cpu src 0) (le32_to_cpu src 1)
      in cpu_to_le32_bytes y @ cpu_to_le32_bytes z)"

section \<open>XTEA and XETA\<close>

definition xtea_setkey :: "u8 list \<Rightarrow> tea_ctx" where
  "xtea_setkey in_key =
     \<lparr>KEY = [le32_to_cpu in_key 0, le32_to_cpu in_key 1, le32_to_cpu in_key 2, le32_to_cpu in_key 3]\<rparr>"

definition key_lo :: "u32 list \<Rightarrow> u32 \<Rightarrow> u32" where
  "key_lo k sm = k ! unat (sm AND 3)"

definition key_hi :: "u32 list \<Rightarrow> u32 \<Rightarrow> u32" where
  "key_hi k sm = k ! unat (drop_bit 11 sm AND 3)"

partial_function (option) xtea_encrypt_loop ::
    "u32 list \<Rightarrow> u32 \<Rightarrow> u32 \<Rightarrow> u32 \<Rightarrow> u32 \<Rightarrow> (u32 \<times> u32) option" where
  "xtea_encrypt_loop k limit sm y z =
     (if sm \<noteq> limit then
        let y = y + (((push_bit 4 z XOR drop_bit 5 z) + z) XOR (sm + key_lo k sm));
            sm = sm + XTEA_DELTA;
            z = z + (((push_bit 4 y XOR drop_bit 5 y) + y) XOR (sm + key_hi k sm))
        in xtea_encrypt_loop k limit sm y z
      else Some (y, z))"

definition xtea_encrypt :: "tea_ctx \<Rightarrow> u8 list \<Rightarrow> u8 list option" where
  "xtea_encrypt ctx src =
     (case xtea_encrypt_loop (KEY ctx) (XTEA_DELTA * XTEA_ROUNDS) 0 (le32_to_cpu src 0) (le32_to_cpu src 1) of
        None \<Rightarrow> None
      | Some (y, z) \<Rightarrow> Some (cpu_to_le32_bytes y @ cpu_to_le32_bytes z))"

partial_function (option) xtea_decrypt_loop ::
    "u32 list \<Rightarrow> u32 \<Rightarrow> u32 \<Rightarrow> u32 \<Rightarrow> (u32 \<times> u32) option" where
  "xtea_decrypt_loop k sm y z =
     (if sm \<noteq> 0 then
        let z = z - (((push_bit 4 y XOR drop_bit 5 y) + y) XOR (sm + key_hi k sm));
            sm = sm - XTEA_DELTA;
            y = y - (((push_bit 4 z XOR drop_bit 5 z) + z) XOR (sm + key_lo k sm))
        in xtea_decrypt_loop k sm y z
      else Some (y, z))"

definition xtea_decrypt :: "tea_ctx \<Rightarrow> u8 list \<Rightarrow> u8 list option" where
  "xtea_decrypt ctx src =
     (case xtea_decrypt_loop (KEY ctx) (XTEA_DELTA * XTEA_ROUNDS) (le32_to_cpu src 0) (le32_to_cpu src 1) of
        None \<Rightarrow> None
      | Some (y, z) \<Rightarrow> Some (cpu_to_le32_bytes y @ cpu_to_le32_bytes z))"

partial_function (option) xeta_encrypt_loop ::
    "u32 list \<Rightarrow> u32 \<Rightarrow> u32 \<Rightarrow> u32 \<Rightarrow> u32 \<Rightarrow> (u32 \<times> u32) option" where
  "xeta_encrypt_loop k limit sm y z =
     (if sm \<noteq> limit then
        let y = y + ((push_bit 4 z XOR drop_bit 5 z) + (z XOR sm) + key_lo k sm);
            sm = sm + XTEA_DELTA;
            z = z + ((push_bit 4 y XOR drop_bit 5 y) + (y XOR sm) + key_hi k sm)
        in xeta_encrypt_loop k limit sm y z
      else Some (y, z))"

definition xeta_encrypt :: "tea_ctx \<Rightarrow> u8 list \<Rightarrow> u8 list option" where
  "xeta_encrypt ctx src =
     (case xeta_encrypt_loop (KEY ctx) (XTEA_DELTA * XTEA_ROUNDS) 0 (le32_to_cpu src 0) (le32_to_cpu src 1) of
        None \<Rightarrow> None
      | Some (y, z) \<Rightarrow> Some (cpu_to_le32_bytes y @ cpu_to_le32_bytes z))"

partial_function (option) xeta_decrypt_loop ::
    "u32 list \<Rightarrow> u32 \<Rightarrow> u32 \<Rightarrow> u32 \<Rightarrow> (u32 \<times> u32) option" where
  "xeta_decrypt_loop k sm y z =
     (if sm \<noteq> 0 then
        let z = z - ((push_bit 4 y XOR drop_bit 5 y) + (y XOR sm) + key_hi k sm);
            sm = sm - XTEA_DELTA;
            y = y - ((push_bit 4 z XOR drop_bit 5 z) + (z XOR sm) + key_lo k sm)
        in xeta_decrypt_loop k sm y z
      else Some (y, z))"

definition xeta_decrypt :: "tea_ctx \<Rightarrow> u8 list \<Rightarrow> u8 list option" where
  "xeta_decrypt ctx src =
     (case xeta_decrypt_loop (KEY ctx) (XTEA_DELTA * XTEA_ROUNDS) (le32_to_cpu src 0) (le32_to_cpu src 1) of
        None \<Rightarrow> None
      | Some (y, z) \<Rightarrow> Some (cpu_to_le32_bytes y @ cpu_to_le32_bytes z))"

section \<open>The loops as folds of rounds\<close>

definition add_round :: "(u32 \<Rightarrow> u32 \<Rightarrow> u32) \<Rightarrow> (u32 \<Rightarrow> u32 \<Rightarrow> u32) \<Rightarrow> nat \<Rightarrow> u32 \<times> u32 \<Rightarrow> u32 \<times> u32" where
  "add_round f g i = (\<lambda>(y, z).
     let y = y + f (of_nat i * XTEA_DELTA) z in (y, z + g (of_nat (Suc i) * XTEA_DELTA) y))"

definition sub_round :: "(u32 \<Rightarrow> u32 \<Rightarrow> u32) \<Rightarrow> (u32 \<Rightarrow> u32 \<Rightarrow> u32) \<Rightarrow> nat \<Rightarrow> u32 \<times> u32 \<Rightarrow> u32 \<times> u32" where
  "sub_round f g i = (\<lambda>(y, z).
     let z = z - g (of_nat (Suc i) * XTEA_DELTA) y in (y - f (of_nat i * XTEA_DELTA) z, z))"

lemma round_pair:
  "add_round f g i (y, z) = (y + f (of_nat i * XTEA_DELTA) z,
     z + g (of_nat (Suc i) * XTEA_DELTA) (y + f (of_nat i * XTEA_DELTA) z))"
  "sub_round f g i (y, z) = (y - f (of_nat i * XTEA_DELTA) (z - g (of_nat (Suc i) * XTEA_DELTA) y),
     z - g (of_nat (Suc i) * XTEA_DELTA) y)"
  by (simp_all add: add_round_def sub_round_def Let_def)

lemma add_sub_round: "sub_round f g i (add_round f g i s) = s" "add_round f g i (sub_round f g i s) = s"
  by (cases s; simp add: add_round_def sub_round_def Let_def)+

lemma add_sub_rounds:
  "fold (sub_round f g) (rev [0..<n]) (fold (add_round f g) [0..<n] s) = s"
  "fold (add_round f g) [0..<n] (fold (sub_round f g) (rev [0..<n]) s) = s"
  by (rule fold_rev_inverse fold_rev_inverse', simp add: add_sub_round)+

lemma delta_inj:
  assumes "of_nat i * XTEA_DELTA = (of_nat j * XTEA_DELTA :: u32)" "i < 2 ^ 32" "j < 2 ^ 32"
  shows "i = j"
proof -
  have inv: "XTEA_DELTA * 0x144cbc89 = 1" by (simp add: XTEA_DELTA_def)
  have "(of_nat i :: u32) = of_nat i * XTEA_DELTA * 0x144cbc89" by (simp only: mult.assoc inv mult_1_right)
  also have "\<dots> = of_nat j" by (simp only: assms(1) mult.assoc inv mult_1_right)
  finally have "(of_nat i :: u32) = of_nat j" .
  then have "unat (of_nat i :: u32) = unat (of_nat j :: u32)" by simp
  with assms(2,3) show ?thesis by (simp add: unat_of_nat)
qed

lemma delta_ne: "i < 32 \<Longrightarrow> of_nat i * XTEA_DELTA \<noteq> (of_nat 32 * XTEA_DELTA :: u32)"
  "i < 32 \<Longrightarrow> of_nat (Suc i) * XTEA_DELTA \<noteq> (0 :: u32)"
  using delta_inj [of i 32] delta_inj [of "Suc i" 0] by auto

lemma enc_loop_fold:
  assumes unfold: "\<And>sm y z. L sm y z = (if sm \<noteq> of_nat 32 * XTEA_DELTA then
      let y = y + f sm z; sm = sm + XTEA_DELTA; z = z + g sm y in L sm y z else Some (y, z))"
    and "i \<le> 32"
  shows "L (of_nat i * XTEA_DELTA) y z = Some (fold (add_round f g) [i..<32] (y, z))"
  using \<open>i \<le> 32\<close>
proof (induction "32 - i" arbitrary: i y z)
  case 0
  then show ?case by (subst unfold) simp
next
  case (Suc m)
  then have i: "i < 32" by simp
  have s: "of_nat i * XTEA_DELTA + XTEA_DELTA = of_nat (Suc i) * XTEA_DELTA" by (simp add: algebra_simps)
  show ?case
    using Suc(1) [of "Suc i"] Suc(2) i delta_ne(1) [OF i]
    by (subst unfold) (simp add: Let_def s upt_conv_Cons round_pair del: of_nat_Suc)
qed

lemma dec_loop_fold:
  assumes unfold: "\<And>sm y z. L sm y z = (if sm \<noteq> 0 then
      let z = z - g sm y; sm = sm - XTEA_DELTA; y = y - f sm z in L sm y z else Some (y, z))"
  shows "i \<le> 32 \<Longrightarrow> L (of_nat i * XTEA_DELTA) y z = Some (fold (sub_round f g) (rev [0..<i]) (y, z))"
proof (induction i arbitrary: y z)
  case 0
  then show ?case by (subst unfold) simp
next
  case (Suc i)
  then have i: "i < 32" by simp
  have s: "of_nat (Suc i) * XTEA_DELTA - XTEA_DELTA = of_nat i * XTEA_DELTA" by (simp add: algebra_simps)
  show ?case
    using Suc delta_ne(2) [OF i]
    by (subst unfold) (simp add: Let_def s round_pair del: of_nat_Suc)
qed

definition tea_f :: "u32 list \<Rightarrow> u32 \<Rightarrow> u32 \<Rightarrow> u32" where
  "tea_f k s z = (push_bit 4 z + k ! 0) XOR (z + (s + TEA_DELTA)) XOR (drop_bit 5 z + k ! 1)"

definition tea_g :: "u32 list \<Rightarrow> u32 \<Rightarrow> u32 \<Rightarrow> u32" where
  "tea_g k s y = (push_bit 4 y + k ! 2) XOR (y + s) XOR (drop_bit 5 y + k ! 3)"

definition xtea_f :: "(u32 list \<Rightarrow> u32 \<Rightarrow> u32) \<Rightarrow> u32 list \<Rightarrow> u32 \<Rightarrow> u32 \<Rightarrow> u32" where
  "xtea_f key k s z = ((push_bit 4 z XOR drop_bit 5 z) + z) XOR (s + key k s)"

definition xeta_f :: "(u32 list \<Rightarrow> u32 \<Rightarrow> u32) \<Rightarrow> u32 list \<Rightarrow> u32 \<Rightarrow> u32 \<Rightarrow> u32" where
  "xeta_f key k s z = (push_bit 4 z XOR drop_bit 5 z) + (z XOR s) + key k s"

lemma delta_same: "TEA_DELTA = XTEA_DELTA"
  by (simp add: TEA_DELTA_def XTEA_DELTA_def)

lemma delta_step: "of_nat i * XTEA_DELTA + XTEA_DELTA = of_nat (Suc i) * XTEA_DELTA"
  by (simp add: algebra_simps)

lemma tea_encrypt_loop_fold:
  "tea_encrypt_loop k n (of_nat i * XTEA_DELTA) y z = fold (add_round (tea_f k) (tea_g k)) [i..<i + n] (y, z)"
proof (induction n arbitrary: i y z)
  case 0
  then show ?case by simp
next
  case (Suc n)
  have "[i..<i + Suc n] = i # [Suc i..<Suc i + n]" by (simp add: upt_conv_Cons)
  then show ?case
    using Suc [of "Suc i"] by (simp add: Let_def delta_same delta_step round_pair tea_f_def tea_g_def del: of_nat_Suc)
qed

lemma tea_decrypt_loop_fold:
  "tea_decrypt_loop k n (of_nat n * XTEA_DELTA) y z = fold (sub_round (tea_f k) (tea_g k)) (rev [0..<n]) (y, z)"
proof (induction n arbitrary: y z)
  case 0
  then show ?case by simp
next
  case (Suc n)
  have "of_nat (Suc n) * XTEA_DELTA - XTEA_DELTA = of_nat n * XTEA_DELTA" by (simp add: algebra_simps)
  then show ?case
    using Suc by (simp add: Let_def delta_same delta_step round_pair tea_f_def tea_g_def del: of_nat_Suc)
qed

lemma limit_eq: "XTEA_DELTA * XTEA_ROUNDS = of_nat 32 * XTEA_DELTA" "push_bit 5 TEA_DELTA = of_nat 32 * XTEA_DELTA"
  by (simp_all add: XTEA_ROUNDS_def XTEA_DELTA_def TEA_DELTA_def)

definition rounds_enc :: "(u32 \<Rightarrow> u32 \<Rightarrow> u32) \<Rightarrow> (u32 \<Rightarrow> u32 \<Rightarrow> u32) \<Rightarrow> u8 list \<Rightarrow> u8 list" where
  "rounds_enc f g src = (case fold (add_round f g) [0..<32] (le32_to_cpu src 0, le32_to_cpu src 1) of
     (y, z) \<Rightarrow> cpu_to_le32_bytes y @ cpu_to_le32_bytes z)"

definition rounds_dec :: "(u32 \<Rightarrow> u32 \<Rightarrow> u32) \<Rightarrow> (u32 \<Rightarrow> u32 \<Rightarrow> u32) \<Rightarrow> u8 list \<Rightarrow> u8 list" where
  "rounds_dec f g src = (case fold (sub_round f g) (rev [0..<32]) (le32_to_cpu src 0, le32_to_cpu src 1) of
     (y, z) \<Rightarrow> cpu_to_le32_bytes y @ cpu_to_le32_bytes z)"

lemma length_rounds [simp]: "length (rounds_enc f g src) = 8" "length (rounds_dec f g src) = 8"
  by (simp_all add: rounds_enc_def rounds_dec_def split: prod.splits)

lemma rounds_inverse:
  assumes "length src = 8"
  shows "rounds_dec f g (rounds_enc f g src) = src" "rounds_enc f g (rounds_dec f g src) = src"
proof -
  let ?s = "(le32_to_cpu src 0, le32_to_cpu src 1)"
  obtain y z where e: "fold (add_round f g) [0..<32] ?s = (y, z)" by (cases "fold (add_round f g) [0..<32] ?s")
  have "fold (sub_round f g) (rev [0..<32]) (y, z) = ?s"
    using add_sub_rounds(1) [of f g 32 ?s] by (simp only: e)
  then show "rounds_dec f g (rounds_enc f g src) = src"
    using e assms by (simp add: rounds_enc_def rounds_dec_def del: upt_Suc)
  obtain y' z' where d: "fold (sub_round f g) (rev [0..<32]) ?s = (y', z')"
    by (cases "fold (sub_round f g) (rev [0..<32]) ?s")
  have "fold (add_round f g) [0..<32] (y', z') = ?s"
    using add_sub_rounds(2) [of f g 32 ?s] by (simp only: d)
  then show "rounds_enc f g (rounds_dec f g src) = src"
    using d assms by (simp add: rounds_enc_def rounds_dec_def del: upt_Suc)
qed

lemma tea_rounds:
  "tea_encrypt ctx = rounds_enc (tea_f (KEY ctx)) (tea_g (KEY ctx))"
  "tea_decrypt ctx = rounds_dec (tea_f (KEY ctx)) (tea_g (KEY ctx))"
  using tea_encrypt_loop_fold [of "KEY ctx" 32 0]
  by (simp_all add: fun_eq_iff tea_encrypt_def tea_decrypt_def rounds_enc_def rounds_dec_def TEA_ROUNDS_def
      limit_eq tea_decrypt_loop_fold del: upt_Suc of_nat_numeral)

lemma xtea_rounds:
  "xtea_encrypt ctx src = Some (rounds_enc (xtea_f key_lo (KEY ctx)) (xtea_f key_hi (KEY ctx)) src)"
  "xtea_decrypt ctx src = Some (rounds_dec (xtea_f key_lo (KEY ctx)) (xtea_f key_hi (KEY ctx)) src)"
proof -
  have "xtea_encrypt_loop k (XTEA_DELTA * XTEA_ROUNDS) 0 y z =
      Some (fold (add_round (xtea_f key_lo k) (xtea_f key_hi k)) [0..<32] (y, z))" for k y z
    using enc_loop_fold [of "xtea_encrypt_loop k (XTEA_DELTA * XTEA_ROUNDS)" "xtea_f key_lo k" "xtea_f key_hi k" 0 y z]
    unfolding limit_eq xtea_f_def by (simp add: xtea_encrypt_loop.simps [of k] del: of_nat_numeral)
  then show "xtea_encrypt ctx src = Some (rounds_enc (xtea_f key_lo (KEY ctx)) (xtea_f key_hi (KEY ctx)) src)"
    by (simp add: xtea_encrypt_def rounds_enc_def split: prod.splits)
  have "xtea_decrypt_loop k (XTEA_DELTA * XTEA_ROUNDS) y z =
      Some (fold (sub_round (xtea_f key_lo k) (xtea_f key_hi k)) (rev [0..<32]) (y, z))" for k y z
    using dec_loop_fold [of "xtea_decrypt_loop k" "xtea_f key_hi k" "xtea_f key_lo k" 32 y z]
    unfolding limit_eq xtea_f_def by (simp add: xtea_decrypt_loop.simps [of k] del: of_nat_numeral)
  then show "xtea_decrypt ctx src = Some (rounds_dec (xtea_f key_lo (KEY ctx)) (xtea_f key_hi (KEY ctx)) src)"
    by (simp add: xtea_decrypt_def rounds_dec_def split: prod.splits)
qed

lemma xeta_rounds:
  "xeta_encrypt ctx src = Some (rounds_enc (xeta_f key_lo (KEY ctx)) (xeta_f key_hi (KEY ctx)) src)"
  "xeta_decrypt ctx src = Some (rounds_dec (xeta_f key_lo (KEY ctx)) (xeta_f key_hi (KEY ctx)) src)"
proof -
  have "xeta_encrypt_loop k (XTEA_DELTA * XTEA_ROUNDS) 0 y z =
      Some (fold (add_round (xeta_f key_lo k) (xeta_f key_hi k)) [0..<32] (y, z))" for k y z
    using enc_loop_fold [of "xeta_encrypt_loop k (XTEA_DELTA * XTEA_ROUNDS)" "xeta_f key_lo k" "xeta_f key_hi k" 0 y z]
    unfolding limit_eq xeta_f_def by (simp add: xeta_encrypt_loop.simps [of k] del: of_nat_numeral)
  then show "xeta_encrypt ctx src = Some (rounds_enc (xeta_f key_lo (KEY ctx)) (xeta_f key_hi (KEY ctx)) src)"
    by (simp add: xeta_encrypt_def rounds_enc_def split: prod.splits)
  have "xeta_decrypt_loop k (XTEA_DELTA * XTEA_ROUNDS) y z =
      Some (fold (sub_round (xeta_f key_lo k) (xeta_f key_hi k)) (rev [0..<32]) (y, z))" for k y z
    using dec_loop_fold [of "xeta_decrypt_loop k" "xeta_f key_hi k" "xeta_f key_lo k" 32 y z]
    unfolding limit_eq xeta_f_def by (simp add: xeta_decrypt_loop.simps [of k] del: of_nat_numeral)
  then show "xeta_decrypt ctx src = Some (rounds_dec (xeta_f key_lo (KEY ctx)) (xeta_f key_hi (KEY ctx)) src)"
    by (simp add: xeta_decrypt_def rounds_dec_def split: prod.splits)
qed

interpretation tea: block_cipher 8 "tea_encrypt ctx" "tea_decrypt ctx"
  by unfold_locales (simp_all add: tea_rounds rounds_inverse)

interpretation xtea: block_cipher 8 "\<lambda>b. the (xtea_encrypt ctx b)" "\<lambda>b. the (xtea_decrypt ctx b)"
  by unfold_locales (simp_all add: xtea_rounds rounds_inverse)

interpretation xeta: block_cipher 8 "\<lambda>b. the (xeta_encrypt ctx b)" "\<lambda>b. the (xeta_decrypt ctx b)"
  by unfold_locales (simp_all add: xeta_rounds rounds_inverse)

section \<open>Properties\<close>

text \<open>
  C28: for every key and every block of 8 bytes the loops of TEA, XTEA and XETA end, and
  decryption undoes encryption; the exit test of the XTEA and XETA loops compares a wrapping
  32-bit sum with its value after 32 rounds.
\<close>
theorem tea_family_roundtrip:
  assumes "length p = 8"
  shows "tea_decrypt ctx (tea_encrypt ctx p) = p \<and>
    (\<exists>c. xtea_encrypt ctx p = Some c \<and> xtea_decrypt ctx c = Some p) \<and>
    (\<exists>c. xeta_encrypt ctx p = Some c \<and> xeta_decrypt ctx c = Some p)"
  by (simp add: tea_rounds xtea_rounds xeta_rounds rounds_inverse assms)

theorem tea_family_roundtrip_witness:
  "tea_encrypt (tea_setkey (replicate 16 0)) (replicate 8 0) =
     [0x0a, 0x3a, 0xea, 0x41, 0x40, 0xa9, 0xba, 0x94] \<and>
   tea_decrypt (tea_setkey (replicate 16 0)) [0x0a, 0x3a, 0xea, 0x41, 0x40, 0xa9, 0xba, 0x94] = replicate 8 0"
proof -
  have "tea_encrypt (tea_setkey (replicate 16 0)) (replicate 8 0) =
     [0x0a, 0x3a, 0xea, 0x41, 0x40, 0xa9, 0xba, 0x94]" by code_simp
  then show ?thesis
    using tea_family_roundtrip [of "replicate 8 0" "tea_setkey (replicate 16 0)"] by simp
qed

end
