(* ===== verification/Fcrypt.thy ===== *)
theory Fcrypt
  imports CryptoModes
begin

text \<open>
  The fcrypt cipher of crypto/fcrypt.c: the four boxes, the sixteen rounds,
  and both versions of the key schedule, the one for 64-bit machines and the
  one for 32-bit machines, which compute the same round keys.
\<close>

section \<open>Tables\<close>

definition cpu_to_be32 :: "u32 \<Rightarrow> u32" where
  "cpu_to_be32 w = w32 (ucast (drop_bit 24 w)) (ucast (drop_bit 16 w)) (ucast (drop_bit 8 w)) (ucast w)"

definition sbox0_bytes :: "u32 list" where
  "sbox0_bytes = [
     0xea, 0x7f, 0xb2, 0x64, 0x9d, 0xb0, 0xd9, 0x11, 0xcd, 0x86, 0x86, 0x91,
     0xa, 0xb2, 0x93, 0x6, 0xe, 0x6, 0xd2, 0x65, 0x73, 0xc5, 0x28, 0x60,
     0xf2, 0x20, 0xb5, 0x38, 0x7e, 0xda, 0x9f, 0xe3, 0xd2, 0xcf, 0xc4, 0x3c,
     0x61, 0xff, 0x4a, 0x4a, 0x35, 0xac, 0xaa, 0x5f, 0x2b, 0xbb, 0xbc, 0x53,
     0x4e, 0x9d, 0x78, 0xa3, 0xdc, 0x9, 0x32, 0x10, 0xc6, 0x6f, 0x66, 0xd6,
     0xab, 0xa9, 0xaf, 0xfd, 0x3b, 0x95, 0xe8, 0x34, 0x9a, 0x81, 0x72, 0x80,
     0x9c, 0xf3, 0xec, 0xda, 0x9f, 0x26, 0x76, 0x15, 0x3e, 0x55, 0x4d, 0xde,
     0x84, 0xee, 0xad, 0xc7, 0xf1, 0x6b, 0x3d, 0xd3, 0x4, 0x49, 0xaa, 0x24,
     0xb, 0x8a, 0x83, 0xba, 0xfa, 0x85, 0xa0, 0xa8, 0xb1, 0xd4, 0x1, 0xd8,
     0x70, 0x64, 0xf0, 0x51, 0xd2, 0xc3, 0xa7, 0x75, 0x8c, 0xa5, 0x64, 0xef,
     0x10, 0x4e, 0xb7, 0xc6, 0x61, 0x3, 0xeb, 0x44, 0x3d, 0xe5, 0xb3, 0x5b,
     0xae, 0xd5, 0xad, 0x1d, 0xfa, 0x5a, 0x1e, 0x33, 0xab, 0x93, 0xa2, 0xb7,
     0xe7, 0xa8, 0x45, 0xa4, 0xcd, 0x29, 0x63, 0x44, 0xb6, 0x69, 0x7e, 0x2e,
     0x62, 0x3, 0xc8, 0xe0, 0x17, 0xbb, 0xc7, 0xf3, 0x3f, 0x36, 0xba, 0x71,
     0x8e, 0x97, 0x65, 0x60, 0x69, 0xb6, 0xf6, 0xe6, 0x6e, 0xe0, 0x81, 0x59,
     0xe8, 0xaf, 0xdd, 0x95, 0x22, 0x99, 0xfd, 0x63, 0x19, 0x74, 0x61, 0xb1,
     0xb6, 0x5b, 0xae, 0x54, 0xb3, 0x70, 0xff, 0xc6, 0x3b, 0x3e, 0xc1, 0xd7,
     0xe1, 0xe, 0x76, 0xe5, 0x36, 0x4f, 0x59, 0xc7, 0x8, 0x6e, 0x82, 0xa6,
     0x93, 0xc4, 0xaa, 0x26, 0x49, 0xe0, 0x21, 0x64, 0x7, 0x9f, 0x64, 0x81,
     0x9c, 0xbf, 0xf9, 0xd1, 0x43, 0xf8, 0xb6, 0xb9, 0xf1, 0x24, 0x75, 0x3,
     0xe4, 0xb0, 0x99, 0x46, 0x3d, 0xf5, 0xd1, 0x39, 0x72, 0x12, 0xf6, 0xba,
     0xc, 0xd, 0x42, 0x2e]"

definition sbox1_bytes :: "u32 list" where
  "sbox1_bytes = [
     0x77, 0x14, 0xa6, 0xfe, 0xb2, 0x5e, 0x8c, 0x3e, 0x67, 0x6c, 0xa1, 0xd,
     0xc2, 0xa2, 0xc1, 0x85, 0x6c, 0x7b, 0x67, 0xc6, 0x23, 0xe3, 0xf2, 0x89,
     0x50, 0x9c, 0x3, 0xb7, 0x73, 0xe6, 0xe1, 0x39, 0x31, 0x2c, 0x27, 0x9f,
     0xa5, 0x69, 0x44, 0xd6, 0x23, 0x83, 0x98, 0x7d, 0x3c, 0xb4, 0x2d, 0x99,
     0x1c, 0x1f, 0x8c, 0x20, 0x3, 0x7c, 0x5f, 0xad, 0xf4, 0xfa, 0x95, 0xca,
     0x76, 0x44, 0xcd, 0xb6, 0xb8, 0xa1, 0xa1, 0xbe, 0x9e, 0x54, 0x8f, 0xb,
     0x16, 0x74, 0x31, 0x8a, 0x23, 0x17, 0x4, 0xfa, 0x79, 0x84, 0xb1, 0xf5,
     0x13, 0xab, 0xb5, 0x2e, 0xaa, 0xc, 0x60, 0x6b, 0x5b, 0xc4, 0x4b, 0xbc,
     0xe2, 0xaf, 0x45, 0x73, 0xfa, 0xc9, 0x49, 0xcd, 0x0, 0x92, 0x7d, 0x97,
     0x7a, 0x18, 0x60, 0x3d, 0xcf, 0x5b, 0xde, 0xc6, 0xe2, 0xe6, 0xbb, 0x8b,
     0x6, 0xda, 0x8, 0x15, 0x1b, 0x88, 0x6a, 0x17, 0x89, 0xd0, 0xa9, 0xc1,
     0xc9, 0x70, 0x6b, 0xe5, 0x43, 0xf4, 0x68, 0xc8, 0xd3, 0x84, 0x28, 0xa,
     0x52, 0x66, 0xa3, 0xca, 0xf2, 0xe3, 0x7f, 0x7a, 0x31, 0xf7, 0x88, 0x94,
     0x5e, 0x9c, 0x63, 0xd5, 0x24, 0x66, 0xfc, 0xb3, 0x57, 0x25, 0xbe, 0x89,
     0x44, 0xc4, 0xe0, 0x8f, 0x23, 0x3c, 0x12, 0x52, 0xf5, 0x1e, 0xf4, 0xcb,
     0x18, 0x33, 0x1f, 0xf8, 0x69, 0x10, 0x9d, 0xd3, 0xf7, 0x28, 0xf8, 0x30,
     0x5, 0x5e, 0x32, 0xc0, 0xd5, 0x19, 0xbd, 0x45, 0x8b, 0x5b, 0xfd, 0xbc,
     0xe2, 0x5c, 0xa9, 0x96, 0xef, 0x70, 0xcf, 0xc2, 0x2a, 0xb3, 0x61, 0xad,
     0x80, 0x48, 0x81, 0xb7, 0x1d, 0x43, 0xd9, 0xd7, 0x45, 0xf0, 0xd8, 0x8a,
     0x59, 0x7c, 0x57, 0xc1, 0x79, 0xc7, 0x34, 0xd6, 0x43, 0xdf, 0xe4, 0x78,
     0x16, 0x6, 0xda, 0x92, 0x76, 0x51, 0xe1, 0xd4, 0x70, 0x3, 0xe0, 0x2f,
     0x96, 0x91, 0x82, 0x80]"

definition sbox2_bytes :: "u32 list" where
  "sbox2_bytes = [
     0xf0, 0x37, 0x24, 0x53, 0x2a, 0x3, 0x83, 0x86, 0xd1, 0xec, 0x50, 0xf0,
     0x42, 0x78, 0x2f, 0x6d, 0xbf, 0x80, 0x87, 0x27, 0x95, 0xe2, 0xc5, 0x5d,
     0xf9, 0x6f, 0xdb, 0xb4, 0x65, 0x6e, 0xe7, 0x24, 0xc8, 0x1a, 0xbb, 0x49,
     0xb5, 0xa, 0x7d, 0xb9, 0xe8, 0xdc, 0xb7, 0xd9, 0x45, 0x20, 0x1b, 0xce,
     0x59, 0x9d, 0x6b, 0xbd, 0xe, 0x8f, 0xa3, 0xa9, 0xbc, 0x74, 0xa6, 0xf6,
     0x7f, 0x5f, 0xb1, 0x68, 0x84, 0xbc, 0xa9, 0xfd, 0x55, 0x50, 0xe9, 0xb6,
     0x13, 0x5e, 0x7, 0xb8, 0x95, 0x2, 0xc0, 0xd0, 0x6a, 0x1a, 0x85, 0xbd,
     0xb6, 0xfd, 0xfe, 0x17, 0x3f, 0x9, 0xa3, 0x8d, 0xfb, 0xed, 0xda, 0x1d,
     0x6d, 0x1c, 0x6c, 0x1, 0x5a, 0xe5, 0x71, 0x3e, 0x8b, 0x6b, 0xbe, 0x29,
     0xeb, 0x12, 0x19, 0x34, 0xcd, 0xb3, 0xbd, 0x35, 0xea, 0x4b, 0xd5, 0xae,
     0x2a, 0x79, 0x5a, 0xa5, 0x32, 0x12, 0x7b, 0xdc, 0x2c, 0xd0, 0x22, 0x4b,
     0xb1, 0x85, 0x59, 0x80, 0xc0, 0x30, 0x9f, 0x73, 0xd3, 0x14, 0x48, 0x40,
     0x7, 0x2d, 0x8f, 0x80, 0xf, 0xce, 0xb, 0x5e, 0xb7, 0x5e, 0xac, 0x24,
     0x94, 0x4a, 0x18, 0x15, 0x5, 0xe8, 0x2, 0x77, 0xa9, 0xc7, 0x40, 0x45,
     0x89, 0xd1, 0xea, 0xde, 0xc, 0x79, 0x2a, 0x99, 0x6c, 0x3e, 0x95, 0xdd,
     0x8c, 0x7d, 0xad, 0x6f, 0xdc, 0xff, 0xfd, 0x62, 0x47, 0xb3, 0x21, 0x8a,
     0xec, 0x8e, 0x19, 0x18, 0xb4, 0x6e, 0x3d, 0xfd, 0x74, 0x54, 0x1e, 0x4,
     0x85, 0xd8, 0xbc, 0x1f, 0x56, 0xe7, 0x3a, 0x56, 0x67, 0xd6, 0xc8, 0xa5,
     0xf3, 0x8e, 0xde, 0xae, 0x37, 0x49, 0xb7, 0xfa, 0xc8, 0xf4, 0x1f, 0xe0,
     0x2a, 0x9b, 0x15, 0xd1, 0x34, 0xe, 0xb5, 0xe0, 0x44, 0x78, 0x84, 0x59,
     0x56, 0x68, 0x77, 0xa5, 0x14, 0x6, 0xf5, 0x2f, 0x8c, 0x8a, 0x73, 0x80,
     0x76, 0xb4, 0x10, 0x86]"

definition sbox3_bytes :: "u32 list" where
  "sbox3_bytes = [
     0xa9, 0x2a, 0x48, 0x51, 0x84, 0x7e, 0x49, 0xe2, 0xb5, 0xb7, 0x42, 0x33,
     0x7d, 0x5d, 0xa6, 0x12, 0x44, 0x48, 0x6d, 0x28, 0xaa, 0x20, 0x6d, 0x57,
     0xd6, 0x6b, 0x5d, 0x72, 0xf0, 0x92, 0x5a, 0x1b, 0x53, 0x80, 0x24, 0x70,
     0x9a, 0xcc, 0xa7, 0x66, 0xa1, 0x1, 0xa5, 0x41, 0x97, 0x41, 0x31, 0x82,
     0xf1, 0x14, 0xcf, 0x53, 0xd, 0xa0, 0x10, 0xcc, 0x2a, 0x7d, 0xd2, 0xbf,
     0x4b, 0x1a, 0xdb, 0x16, 0x47, 0xf6, 0x51, 0x36, 0xed, 0xf3, 0xb9, 0x1a,
     0xa7, 0xdf, 0x29, 0x43, 0x1, 0x54, 0x70, 0xa4, 0xbf, 0xd4, 0xb, 0x53,
     0x44, 0x60, 0x9e, 0x23, 0xa1, 0x18, 0x68, 0x4f, 0xf0, 0x2f, 0x82, 0xc2,
     0x2a, 0x41, 0xb2, 0x42, 0xc, 0xed, 0xc, 0x1d, 0x13, 0x3a, 0x3c, 0x6e,
     0x35, 0xdc, 0x60, 0x65, 0x85, 0xe9, 0x64, 0x2, 0x9a, 0x3f, 0x9f, 0x87,
     0x96, 0xdf, 0xbe, 0xf2, 0xcb, 0xe5, 0x6c, 0xd4, 0x5a, 0x83, 0xbf, 0x92,
     0x1b, 0x94, 0x0, 0x42, 0xcf, 0x4b, 0x0, 0x75, 0xba, 0x8f, 0x76, 0x5f,
     0x5d, 0x3a, 0x4d, 0x9, 0x12, 0x8, 0x38, 0x95, 0x17, 0xe4, 0x1, 0x1d,
     0x4c, 0xa9, 0xcc, 0x85, 0x82, 0x4c, 0x9d, 0x2f, 0x3b, 0x66, 0xa1, 0x34,
     0x10, 0xcd, 0x59, 0x89, 0xa5, 0x31, 0xcf, 0x5, 0xc8, 0x84, 0xfa, 0xc7,
     0xba, 0x4e, 0x8b, 0x1a, 0x19, 0xf1, 0xa1, 0x3b, 0x18, 0x12, 0x17, 0xb0,
     0x98, 0x8d, 0xb, 0x23, 0xc3, 0x3a, 0x2d, 0x20, 0xdf, 0x13, 0xa0, 0xa8,
     0x4c, 0xd, 0x6c, 0x2f, 0x47, 0x13, 0x13, 0x52, 0x1f, 0x2d, 0xf5, 0x79,
     0x3d, 0xa2, 0x54, 0xbd, 0x69, 0xc8, 0x6b, 0xf3, 0x5, 0x28, 0xf1, 0x16,
     0x46, 0x40, 0xb0, 0x11, 0xd3, 0xb7, 0x95, 0x49, 0xcf, 0xc3, 0x1d, 0x8f,
     0xd8, 0xe1, 0x73, 0xdb, 0xad, 0xc8, 0xc9, 0xa9, 0xa1, 0xc2, 0xc5, 0xe3,
     0xba, 0xfc, 0xe, 0x25]"

definition sbox0 :: "u32 list" where
  "sbox0 = map (\<lambda>x. cpu_to_be32 (push_bit 3 x)) sbox0_bytes"

definition sbox1 :: "u32 list" where
  "sbox1 = map (\<lambda>x. cpu_to_be32 (push_bit 27 x OR drop_bit 5 x)) sbox1_bytes"

definition sbox2 :: "u32 list" where
  "sbox2 = map (\<lambda>x. cpu_to_be32 (push_bit 11 x)) sbox2_bytes"

definition sbox3 :: "u32 list" where
  "sbox3 = map (\<lambda>x. cpu_to_be32 (push_bit 19 x)) sbox3_bytes"

section \<open>The cipher\<close>

record fcrypt_ctx =
  sched :: "u32 list"

definition lc4 :: "u32 \<Rightarrow> nat \<Rightarrow> nat" where
  "lc4 u i = unat (ucast (drop_bit (8 * i) u) :: u8)"

definition F_ENCRYPT :: "u32 \<Rightarrow> u32 \<Rightarrow> u32 \<Rightarrow> u32" where
  "F_ENCRYPT R L k =
     (let u = k XOR R
      in L XOR (sbox0 ! lc4 u 0 XOR sbox1 ! lc4 u 1 XOR sbox2 ! lc4 u 2 XOR sbox3 ! lc4 u 3))"

text \<open>\<open>F_ENCRYPT(X.r, X.l, k)\<close> and \<open>F_ENCRYPT(X.l, X.r, k)\<close> on the structure \<open>X\<close>.\<close>

definition F_ENCRYPT_rl :: "fcrypt_ctx \<Rightarrow> nat \<Rightarrow> u32 \<times> u32 \<Rightarrow> u32 \<times> u32" where
  "F_ENCRYPT_rl ctx i = (\<lambda>(l, r). (F_ENCRYPT r l (sched ctx ! i), r))"

definition F_ENCRYPT_lr :: "fcrypt_ctx \<Rightarrow> nat \<Rightarrow> u32 \<times> u32 \<Rightarrow> u32 \<times> u32" where
  "F_ENCRYPT_lr ctx i = (\<lambda>(l, r). (l, F_ENCRYPT l r (sched ctx ! i)))"

definition fcrypt_encrypt :: "fcrypt_ctx \<Rightarrow> u8 list \<Rightarrow> u8 list" where
  "fcrypt_encrypt ctx src =
     (let X = (le32_to_cpu src 0, le32_to_cpu src 1);
          X = (F_ENCRYPT_lr ctx 15 \<circ> F_ENCRYPT_rl ctx 14 \<circ> F_ENCRYPT_lr ctx 13 \<circ>
        F_ENCRYPT_rl ctx 12 \<circ> F_ENCRYPT_lr ctx 11 \<circ> F_ENCRYPT_rl ctx 10 \<circ>
        F_ENCRYPT_lr ctx 9 \<circ> F_ENCRYPT_rl ctx 8 \<circ> F_ENCRYPT_lr ctx 7 \<circ>
        F_ENCRYPT_rl ctx 6 \<circ> F_ENCRYPT_lr ctx 5 \<circ> F_ENCRYPT_rl ctx 4 \<circ>
        F_ENCRYPT_lr ctx 3 \<circ> F_ENCRYPT_rl ctx 2 \<circ> F_ENCRYPT_lr ctx 1 \<circ>
        F_ENCRYPT_rl ctx 0) X
      in cpu_to_le32_bytes (fst X) @ cpu_to_le32_bytes (snd X))"

definition fcrypt_decrypt :: "fcrypt_ctx \<Rightarrow> u8 list \<Rightarrow> u8 list" where
  "fcrypt_decrypt ctx src =
     (let X = (le32_to_cpu src 0, le32_to_cpu src 1);
          X = (F_ENCRYPT_rl ctx 0 \<circ> F_ENCRYPT_lr ctx 1 \<circ> F_ENCRYPT_rl ctx 2 \<circ>
        F_ENCRYPT_lr ctx 3 \<circ> F_ENCRYPT_rl ctx 4 \<circ> F_ENCRYPT_lr ctx 5 \<circ>
        F_ENCRYPT_rl ctx 6 \<circ> F_ENCRYPT_lr ctx 7 \<circ> F_ENCRYPT_rl ctx 8 \<circ>
        F_ENCRYPT_lr ctx 9 \<circ> F_ENCRYPT_rl ctx 10 \<circ> F_ENCRYPT_lr ctx 11 \<circ>
        F_ENCRYPT_rl ctx 12 \<circ> F_ENCRYPT_lr ctx 13 \<circ> F_ENCRYPT_rl ctx 14 \<circ>
        F_ENCRYPT_lr ctx 15) X
      in cpu_to_le32_bytes (fst X) @ cpu_to_le32_bytes (snd X))"

section \<open>The key schedule\<close>

definition ror56 :: "u32 \<times> u32 \<Rightarrow> nat \<Rightarrow> u32 \<times> u32" where
  "ror56 k n =
     (let (hi, lo) = k;
          t = lo AND (push_bit n 1 - 1);
          lo = drop_bit n lo OR push_bit (32 - n) (hi AND (push_bit n 1 - 1));
          hi = drop_bit n hi OR push_bit (24 - n) t
      in (hi, lo))"

definition ror56_64 :: "u64 \<Rightarrow> nat \<Rightarrow> u64" where
  "ror56_64 k n = drop_bit n k OR push_bit (56 - n) (k AND (push_bit n 1 - 1))"

definition fcrypt_key32 :: "u8 list \<Rightarrow> u32 \<times> u32" where
  "fcrypt_key32 key =
     (let b = (\<lambda>i. ucast (drop_bit 1 (key ! i)) :: u32);
          lo = b 0;
          lo = push_bit 7 lo; lo = lo OR b 1;
          lo = push_bit 7 lo; lo = lo OR b 2;
          lo = push_bit 7 lo; lo = lo OR b 3;
          hi = drop_bit 4 lo; lo = lo AND 0xf;
          lo = push_bit 7 lo; lo = lo OR b 4;
          lo = push_bit 7 lo; lo = lo OR b 5;
          lo = push_bit 7 lo; lo = lo OR b 6;
          lo = push_bit 7 lo; lo = lo OR b 7
      in (hi, lo))"

definition fcrypt_key64 :: "u8 list \<Rightarrow> u64" where
  "fcrypt_key64 key =
     (let b = (\<lambda>i. ucast (drop_bit 1 (key ! i)) :: u64);
          k = b 0;
          k = push_bit 7 k; k = k OR b 1;
          k = push_bit 7 k; k = k OR b 2;
          k = push_bit 7 k; k = k OR b 3;
          k = push_bit 7 k; k = k OR b 4;
          k = push_bit 7 k; k = k OR b 5;
          k = push_bit 7 k; k = k OR b 6;
          k = push_bit 7 k; k = k OR b 7
      in k)"

definition fcrypt_setkey :: "u8 list \<Rightarrow> fcrypt_ctx" where
  "fcrypt_setkey key =
     \<lparr>sched = map (\<lambda>i. cpu_to_be32 (snd (((\<lambda>k. ror56 k 11) ^^ i) (fcrypt_key32 key)))) [0..<16]\<rparr>"

definition fcrypt_setkey_64 :: "u8 list \<Rightarrow> fcrypt_ctx" where
  "fcrypt_setkey_64 key =
     \<lparr>sched = map (\<lambda>i. cpu_to_be32 (ucast (((\<lambda>k. ror56_64 k 11) ^^ i) (fcrypt_key64 key)))) [0..<16]\<rparr>"

section \<open>Encryption and decryption\<close>

lemma xor_twice: "(a XOR b) XOR b = a" for a b :: "'a :: len word"
  by (simp add: xor.assoc)

lemma F_ENCRYPT_twice: "F_ENCRYPT R (F_ENCRYPT R L k) k = L"
  unfolding F_ENCRYPT_def Let_def by (rule xor_twice)

lemma F_ENCRYPT_rounds_twice [simp]:
  "F_ENCRYPT_rl ctx i (F_ENCRYPT_rl ctx i s) = s" "F_ENCRYPT_lr ctx i (F_ENCRYPT_lr ctx i s) = s"
  by (cases s; simp add: F_ENCRYPT_rl_def F_ENCRYPT_lr_def F_ENCRYPT_twice)+

lemma fcrypt_inverse:
  assumes "length p = 8"
  shows "fcrypt_decrypt ctx (fcrypt_encrypt ctx p) = p" "fcrypt_encrypt ctx (fcrypt_decrypt ctx p) = p"
  using assms by (simp_all add: fcrypt_decrypt_def fcrypt_encrypt_def Let_def)

interpretation fcrypt: block_cipher 8 "fcrypt_encrypt ctx" "fcrypt_decrypt ctx"
  by unfold_locales (simp_all add: fcrypt_inverse, simp_all add: fcrypt_encrypt_def fcrypt_decrypt_def Let_def)

section \<open>The two key schedules\<close>

definition join56 :: "u32 \<times> u32 \<Rightarrow> u64" where
  "join56 k = push_bit 32 (ucast (fst k)) OR ucast (snd k)"

lemma bit_join56: "bit (join56 k) n \<longleftrightarrow> (if n < 32 then bit (snd k) n else n < 64 \<and> bit (fst k) (n - 32))"
  using bit_imp_le_length [of "snd k" n]
  by (auto simp: join56_def bit_or_iff bit_push_bit_iff bit_ucast_iff)

lemma low_mask: "x AND (push_bit n 1 - 1) = take_bit n x" for x :: "'a :: len word"
  by (simp add: take_bit_eq_mask mask_eq_exp_minus_1)

lemmas rot_bits = bit_or_iff bit_push_bit_iff bit_drop_bit_eq bit_take_bit_iff

definition fits24 :: "u32 \<Rightarrow> bool" where
  "fits24 hi \<longleftrightarrow> (\<forall>n. bit hi n \<longrightarrow> n < 24)"

lemma bit_ror56:
  assumes "fits24 hi"
  shows "bit (fst (ror56 (hi, lo) 11)) n \<longleftrightarrow>
      (if n < 13 then bit hi (n + 11) else n < 24 \<and> bit lo (n - 13))"
    and "bit (snd (ror56 (hi, lo) 11)) n \<longleftrightarrow>
      (if n < 21 then bit lo (n + 11) else n < 32 \<and> bit hi (n - 21))"
proof -
  have h: "\<not> bit hi (n + 11)" if "13 \<le> n" using assms that unfolding fits24_def by force
  have l: "\<not> bit lo (n + 11)" if "21 \<le> n" using bit_imp_le_length [of lo "n + 11"] that by auto
  show "bit (fst (ror56 (hi, lo) 11)) n \<longleftrightarrow>
      (if n < 13 then bit hi (n + 11) else n < 24 \<and> bit lo (n - 13))"
    using h unfolding ror56_def Let_def prod.case low_mask by (auto simp: rot_bits add.commute)
  show "bit (snd (ror56 (hi, lo) 11)) n \<longleftrightarrow>
      (if n < 21 then bit lo (n + 11) else n < 32 \<and> bit hi (n - 21))"
    using l unfolding ror56_def Let_def prod.case low_mask by (auto simp: rot_bits add.commute)
qed

lemma bit_ror56_64:
  assumes "\<And>n. bit k n \<Longrightarrow> n < 56"
  shows "bit (ror56_64 k 11) n \<longleftrightarrow> (if n < 45 then bit k (n + 11) else n < 56 \<and> bit k (n - 45))"
proof -
  have h: "\<not> bit k (n + 11)" if "45 \<le> n" using assms [of "n + 11"] that by auto
  then show ?thesis unfolding ror56_64_def low_mask by (auto simp: rot_bits add.commute)
qed

lemma fits24_ror56: "fits24 hi \<Longrightarrow> fits24 (fst (ror56 (hi, lo) 11))"
  using bit_ror56(1) [of hi lo] by (auto simp: fits24_def split: if_splits)

lemma join56_ror56:
  assumes "fits24 hi"
  shows "ror56_64 (join56 (hi, lo)) 11 = join56 (ror56 (hi, lo) 11)"
proof (rule bit_word_eqI)
  fix n assume "n < LENGTH(64)"
  have lt: "bit (join56 (hi, lo)) m \<Longrightarrow> m < 56" for m
    using assms by (auto simp: bit_join56 fits24_def split: if_splits)
  have r: "bit (ror56_64 (join56 (hi, lo)) 11) n \<longleftrightarrow>
      (if n < 45 then bit (join56 (hi, lo)) (n + 11) else n < 56 \<and> bit (join56 (hi, lo)) (n - 45))"
    by (rule bit_ror56_64) (rule lt)
  consider "n < 21" | "21 \<le> n" "n < 32" | "32 \<le> n" "n < 45" | "45 \<le> n" "n < 56" | "56 \<le> n" by linarith
  then have "bit (ror56_64 (join56 (hi, lo)) 11) n \<longleftrightarrow>
      (if n < 21 then bit lo (n + 11) else if n < 45 then bit hi (n + 11 - 32)
       else n < 56 \<and> bit lo (n - 45))"
    unfolding r by cases (auto simp: bit_join56)
  moreover have "bit (join56 (ror56 (hi, lo) 11)) n \<longleftrightarrow>
      (if n < 21 then bit lo (n + 11) else if n < 45 then bit hi (n + 11 - 32)
       else n < 56 \<and> bit lo (n - 45))"
    unfolding bit_join56 bit_ror56 [OF assms] by (auto simp: less_diff_conv2)
  ultimately show "bit (ror56_64 (join56 (hi, lo)) 11) n = bit (join56 (ror56 (hi, lo) 11)) n" by simp
qed

lemma join56_iter:
  assumes "fits24 (fst k)"
  shows "((\<lambda>k. ror56_64 k 11) ^^ i) (join56 k) = join56 (((\<lambda>k. ror56 k 11) ^^ i) k) \<and>
    fits24 (fst (((\<lambda>k. ror56 k 11) ^^ i) k))"
proof (induction i)
  case (Suc i)
  obtain hi lo where hl: "((\<lambda>k. ror56 k 11) ^^ i) k = (hi, lo)" by (cases "((\<lambda>k. ror56 k 11) ^^ i) k")
  then show ?case using Suc join56_ror56 [of hi lo] fits24_ror56 [of hi lo] by simp
qed (simp add: assms)

lemma ucast_join56: "ucast (join56 k) = snd k"
  by (rule bit_word_eqI) (simp add: bit_ucast_iff bit_join56)

lemma bit_key_byte: "bit (ucast (drop_bit 1 b) :: 'a :: len word) n \<longleftrightarrow> n < 7 \<and> n < LENGTH('a) \<and> bit b (n + 1)"
  for b :: u8
  using bit_imp_le_length [of b "Suc n"] by (auto simp: bit_ucast_iff bit_drop_bit_eq)

text \<open>One more key byte, without its parity bit.\<close>

definition acc7 :: "('a :: len) word \<Rightarrow> u8 \<Rightarrow> 'a word" where
  "acc7 w b = push_bit 7 w OR ucast (drop_bit 1 b)"

lemma bit_acc7:
  "bit (acc7 w b) n \<longleftrightarrow> n < LENGTH('a) \<and> (if n < 7 then bit b (n + 1) else bit w (n - 7))" for w :: "'a :: len word"
  by (auto simp: acc7_def bit_or_iff bit_push_bit_iff bit_key_byte [unfolded One_nat_def])

lemma fcrypt_key64_acc:
  "fcrypt_key64 key = acc7 (acc7 (acc7 (acc7 (acc7 (acc7 (acc7 (acc7 0 (key ! 0)) (key ! 1)) (key ! 2))
     (key ! 3)) (key ! 4)) (key ! 5)) (key ! 6)) (key ! 7)"
  by (simp add: fcrypt_key64_def Let_def acc7_def)

lemma fcrypt_key32_acc:
  "fcrypt_key32 key =
    (let a = acc7 (acc7 (acc7 (acc7 0 (key ! 0)) (key ! 1)) (key ! 2)) (key ! 3)
     in (drop_bit 4 a, acc7 (acc7 (acc7 (acc7 (a AND 0xf) (key ! 4)) (key ! 5)) (key ! 6)) (key ! 7)))"
  by (simp add: fcrypt_key32_def Let_def acc7_def)

definition acc28 :: "('a :: len) word \<Rightarrow> u8 \<Rightarrow> u8 \<Rightarrow> u8 \<Rightarrow> u8 \<Rightarrow> 'a word" where
  "acc28 w b c d e = acc7 (acc7 (acc7 (acc7 w b) c) d) e"

definition bits28 :: "u8 \<Rightarrow> u8 \<Rightarrow> u8 \<Rightarrow> u8 \<Rightarrow> nat \<Rightarrow> bool" where
  "bits28 b c d e n \<longleftrightarrow>
     (if n < 7 then bit e (n + 1) else if n < 14 then bit d (n - 7 + 1)
      else if n < 21 then bit c (n - 14 + 1) else n < 28 \<and> bit b (n - 21 + 1))"

lemma bit_acc28:
  "bit (acc28 w b c d e) n \<longleftrightarrow> n < LENGTH('a) \<and> (if n < 28 then bits28 b c d e n else bit w (n - 28))"
  for w :: "'a :: len word"
proof -
  consider "n < 7" | "7 \<le> n" "n < 14" | "14 \<le> n" "n < 21" | "21 \<le> n" "n < 28" | "28 \<le> n" by linarith
  then show ?thesis by cases (auto simp: acc28_def bit_acc7 bits28_def)
qed

lemma fcrypt_keys_join: "join56 (fcrypt_key32 key) = fcrypt_key64 key" "fits24 (fst (fcrypt_key32 key))"
proof -
  define a where "a = (acc28 0 (key ! 0) (key ! 1) (key ! 2) (key ! 3) :: u32)"
  define A where "A = (acc28 0 (key ! 0) (key ! 1) (key ! 2) (key ! 3) :: u64)"
  have k64: "fcrypt_key64 key = acc28 A (key ! 4) (key ! 5) (key ! 6) (key ! 7)"
    by (simp only: fcrypt_key64_acc A_def acc28_def)
  have k32: "fcrypt_key32 key = (drop_bit 4 a, acc28 (a AND 0xf) (key ! 4) (key ! 5) (key ! 6) (key ! 7))"
    by (simp only: fcrypt_key32_acc Let_def a_def acc28_def)
  have a28: "bit a n \<Longrightarrow> n < 28" for n
    by (simp add: a_def bit_acc28 split: if_splits)
  have aA: "bit A n \<longleftrightarrow> bit a n" for n
    by (simp add: a_def A_def bit_acc28)
  have "a AND 0xf = take_bit 4 a" by (simp add: take_bit_eq_mask mask_eq_exp_minus_1)
  then have f: "bit (a AND 0xf) n \<longleftrightarrow> n < 4 \<and> bit a n" for n by (simp add: bit_take_bit_iff)
  show "join56 (fcrypt_key32 key) = fcrypt_key64 key"
  proof (rule bit_word_eqI)
    fix n assume "n < LENGTH(64)"
    then have n: "n < 64" by simp
    have "bit (join56 (fcrypt_key32 key)) n \<longleftrightarrow>
        (if n < 28 then bits28 (key ! 4) (key ! 5) (key ! 6) (key ! 7) n else bit a (n - 28))"
    proof (cases "n < 32")
      case True
      then have "\<not> n < 28 \<Longrightarrow> n - 28 < 4" by simp
      with True show ?thesis unfolding k32 bit_join56 snd_conv bit_acc28 f by auto
    next
      case False
      then have "4 + (n - 32) = n - 28" by simp
      then show ?thesis using False n unfolding k32 bit_join56 fst_conv bit_drop_bit_eq by (simp add: add.commute)
    qed
    then show "bit (join56 (fcrypt_key32 key)) n = bit (fcrypt_key64 key) n"
      unfolding k64 bit_acc28 aA using n by simp
  qed
  show "fits24 (fst (fcrypt_key32 key))"
    unfolding fits24_def k32 fst_conv bit_drop_bit_eq using a28 by force
qed

section \<open>Properties\<close>

text \<open>
  C29: the key schedule compiled for 32-bit machines, which keeps the 56 key bits in two
  words, computes the same sixteen subkeys as the one for 64-bit machines.
\<close>
theorem fcrypt_setkey_32_64: "fcrypt_setkey key = fcrypt_setkey_64 key"
proof -
  have "ucast (((\<lambda>k. ror56_64 k 11) ^^ i) (fcrypt_key64 key)) = snd (((\<lambda>k. ror56 k 11) ^^ i) (fcrypt_key32 key))" for i
    using join56_iter [OF fcrypt_keys_join(2) [of key], of i] by (simp add: fcrypt_keys_join(1) [symmetric] ucast_join56)
  then show ?thesis by (simp add: fcrypt_setkey_def fcrypt_setkey_64_def)
qed

end
