(* ===== verification/HashStream.thy ===== *)
theory HashStream
  imports CryptoModes
begin

text \<open>
  What the hash functions share: the rotations of include/linux/bitops.h, the
  reference construction (absorb a padded message block by block), the loop
  that the SHA-2 code runs over whole blocks of its input, and the contract of
  a streaming hash.  A hash meets the contract when its \<open>update\<close> absorbs the
  buffered bytes followed by the new ones and its \<open>final\<close> absorbs the padding;
  then the digest of a message does not depend on how it is cut into pieces.
\<close>

section \<open>Rotations\<close>

definition rol32 :: "u32 \<Rightarrow> nat \<Rightarrow> u32" where
  "rol32 w shift = push_bit shift w OR drop_bit (32 - shift) w"

definition ror32 :: "u32 \<Rightarrow> nat \<Rightarrow> u32" where
  "ror32 w shift = drop_bit shift w OR push_bit (32 - shift) w"

lemma shifts_rotr:
  fixes x :: "'a :: len word"
  assumes "0 < k" "k < LENGTH('a)"
  shows "drop_bit k x OR push_bit (LENGTH('a) - k) x = word_rotr k x"
proof (rule bit_word_eqI)
  fix n assume n: "n < LENGTH('a)"
  show "bit (drop_bit k x OR push_bit (LENGTH('a) - k) x) n \<longleftrightarrow> bit (word_rotr k x) n"
  proof (cases "n + k < LENGTH('a)")
    case True
    then show ?thesis using n assms by (auto simp: bit_simps add.commute)
  next
    case False
    then have "(n + k) mod LENGTH('a) = n - (LENGTH('a) - k)"
      using n assms by (simp add: le_mod_geq)
    then show ?thesis using n assms False bit_imp_le_length [of x "k + n"] by (auto simp: bit_simps)
  qed
qed

lemma shifts_rotl:
  fixes x :: "'a :: len word"
  assumes "0 < k" "k < LENGTH('a)"
  shows "push_bit k x OR drop_bit (LENGTH('a) - k) x = word_rotl k x"
  using shifts_rotr [of "LENGTH('a) - k" x] assms
  by (simp add: or.commute word_rotl_eq_word_rotr)

lemma rol32_rotl: "0 < k \<Longrightarrow> k < 32 \<Longrightarrow> rol32 x k = word_rotl k x"
  using shifts_rotl [of k x] by (simp add: rol32_def)

lemma ror32_rotr: "0 < k \<Longrightarrow> k < 32 \<Longrightarrow> ror32 x k = word_rotr k x"
  using shifts_rotr [of k x] by (simp add: ror32_def)

section \<open>The reference: absorbing a message block by block\<close>

function absorb :: "nat \<Rightarrow> ('s \<Rightarrow> u8 list \<Rightarrow> 's) \<Rightarrow> 's \<Rightarrow> u8 list \<Rightarrow> 's \<times> u8 list" where
  "absorb bs tr s m =
     (if 0 < bs \<and> bs \<le> length m then absorb bs tr (tr s (take bs m)) (drop bs m) else (s, m))"
  by pat_completeness auto
termination
  by (relation "measure (\<lambda>(bs, tr, s, m). length m)") auto

declare absorb.simps [simp del]

lemma absorb_short [simp]: "length m < bs \<Longrightarrow> absorb bs tr s m = (s, m)"
  by (subst absorb.simps) simp

lemma absorb_block: "length b = bs \<Longrightarrow> 0 < bs \<Longrightarrow> absorb bs tr s (b @ m) = absorb bs tr (tr s b) m"
  by (subst absorb.simps) simp

lemma absorb_append:
  "absorb bs tr s (m @ m') = (case absorb bs tr s m of (s', t) \<Rightarrow> absorb bs tr s' (t @ m'))"
proof (induction bs tr s m rule: absorb.induct)
  case (1 bs tr s m)
  show ?case
  proof (cases "0 < bs \<and> bs \<le> length m")
    case True
    then have "absorb bs tr s (m @ m') = absorb bs tr (tr s (take bs m)) (drop bs m @ m')"
      by (subst absorb.simps) simp
    moreover have "absorb bs tr s m = absorb bs tr (tr s (take bs m)) (drop bs m)"
      using True by (subst absorb.simps) simp
    ultimately show ?thesis
      using 1 True by simp
  next
    case False
    then have "absorb bs tr s m = (s, m)"
      by (subst absorb.simps) auto
    then show ?thesis by simp
  qed
qed

lemma absorb_rest: "0 < bs \<Longrightarrow> length (snd (absorb bs tr s m)) = length m mod bs"
proof (induction bs tr s m rule: absorb.induct)
  case (1 bs tr s m)
  then show ?case
    by (subst absorb.simps) (auto simp: le_mod_geq)
qed

lemma absorb_complete:
  assumes "0 < bs" "length m mod bs = 0"
  shows "snd (absorb bs tr s m) = []"
  using absorb_rest [OF assms(1), of tr s m] assms(2) by simp

text \<open>Filling a partial block completes it or extends it.\<close>

lemma absorb_fill:
  assumes "length t < bs" "bs \<le> length t + length d"
  shows "absorb bs tr s (t @ d) = absorb bs tr (tr s (t @ take (bs - length t) d)) (drop (bs - length t) d)"
proof -
  have "t @ d = (t @ take (bs - length t) d) @ drop (bs - length t) d" by simp
  then show ?thesis
    using assms absorb_block [of "t @ take (bs - length t) d" bs tr s "drop (bs - length t) d"] by simp
qed

section \<open>Buffers\<close>

lemma length_put_blk [simp]: "off + length b \<le> length buf \<Longrightarrow> length (put_blk buf off b) = length buf"
  by (simp add: put_blk_def)

lemma take_put_blk:
  "off + length b \<le> length buf \<Longrightarrow> n = off + length b \<Longrightarrow> take n (put_blk buf off b) = take off buf @ b"
  by (simp add: put_blk_def)

section \<open>Padding\<close>

definition be_bytes :: "nat \<Rightarrow> nat \<Rightarrow> u8 list" where
  "be_bytes k x = map (\<lambda>i. of_nat (x div 256 ^ (k - 1 - i))) [0..<k]"

definition le_bytes :: "nat \<Rightarrow> nat \<Rightarrow> u8 list" where
  "le_bytes k x = map (\<lambda>i. of_nat (x div 256 ^ i)) [0..<k]"

definition md_zeros :: "nat \<Rightarrow> nat \<Rightarrow> nat \<Rightarrow> nat" where
  "md_zeros bs lb n = (2 * bs - 1 - lb - n mod bs) mod bs"

definition md_pad :: "nat \<Rightarrow> (nat \<Rightarrow> u8 list) \<Rightarrow> nat \<Rightarrow> u8 list" where
  "md_pad bs len_field n = 0x80 # replicate (md_zeros bs (length (len_field n)) n) 0 @ len_field n"

definition md_hash :: "nat \<Rightarrow> ('s \<Rightarrow> u8 list \<Rightarrow> 's) \<Rightarrow> 's \<Rightarrow> (nat \<Rightarrow> u8 list) \<Rightarrow> ('s \<Rightarrow> u8 list) \<Rightarrow> u8 list \<Rightarrow> u8 list" where
  "md_hash bs tr iv pad out m = out (fst (absorb bs tr iv (m @ pad (length m))))"

lemma length_be_bytes [simp]: "length (be_bytes k x) = k"
  by (simp add: be_bytes_def)

lemma length_le_bytes [simp]: "length (le_bytes k x) = k"
  by (simp add: le_bytes_def)

lemma md_zeros_split:
  "n mod bs < bs - lb \<Longrightarrow> md_zeros bs lb n = bs - lb - 1 - n mod bs"
  "0 < bs \<Longrightarrow> lb < bs \<Longrightarrow> \<not> n mod bs < bs - lb \<Longrightarrow> md_zeros bs lb n = 2 * bs - 1 - lb - n mod bs"
proof -
  show "md_zeros bs lb n = bs - lb - 1 - n mod bs" if "n mod bs < bs - lb"
  proof -
    have "lb + n mod bs + 1 \<le> bs" using that by arith
    from le_Suc_ex [OF this] obtain k where k: "bs = lb + n mod bs + 1 + k" by blast
    have "2 * bs - 1 - lb - n mod bs = bs + k" using k by arith
    then have "md_zeros bs lb n = k mod bs" by (simp add: md_zeros_def)
    also have "k mod bs = k" using k by (intro mod_less) arith
    finally show ?thesis using k by arith
  qed
  show "md_zeros bs lb n = 2 * bs - 1 - lb - n mod bs" if "0 < bs" "lb < bs" "\<not> n mod bs < bs - lb"
    using that mod_less_divisor [of bs n] by (simp add: md_zeros_def)
qed

lemma md_pad_complete:
  assumes "0 < bs" "length (len_field n) < bs"
  shows "(n + length (md_pad bs len_field n)) mod bs = 0"
proof -
  let ?lb = "length (len_field n)"
  have "\<exists>k. n mod bs + (1 + md_zeros bs ?lb n + ?lb) = k * bs"
  proof (cases "n mod bs < bs - ?lb")
    case True
    then have "n mod bs + (1 + md_zeros bs ?lb n + ?lb) = 1 * bs" using assms by (simp add: md_zeros_split)
    then show ?thesis by blast
  next
    case False
    then have "n mod bs + (1 + md_zeros bs ?lb n + ?lb) = 2 * bs"
      using assms mod_less_divisor [OF assms(1), of n] md_zeros_split(2) [OF assms(1,2) False] by arith
    then show ?thesis by blast
  qed
  then have "(n mod bs + length (md_pad bs len_field n)) mod bs = 0"
    by (auto simp: md_pad_def add.assoc)
  then show ?thesis by (simp add: mod_add_left_eq)
qed

lemma bit_word_of_nat: "bit (of_nat x :: 'a :: len word) n \<longleftrightarrow> n < LENGTH('a) \<and> bit x n"
  by transfer (simp add: bit_take_bit_iff bit_of_nat_iff)

lemma ucast_of_nat_byte: "ucast (drop_bit (8 * k) (of_nat x :: 'a :: len word)) = (of_nat (x div 256 ^ k) :: u8)"
  if "8 * k + 8 \<le> LENGTH('a)"
proof -
  have d: "x div 256 ^ k = drop_bit (8 * k) x"
    by (simp add: drop_bit_eq_div power_mult)
  show ?thesis
    unfolding d using that by (intro bit_word_eqI) (auto simp: bit_ucast_iff bit_drop_bit_eq bit_word_of_nat)
qed

lemma upt_4: "[0..<4] = [0, 1, 2, 3 :: nat]"
  by code_simp

lemma be32_of_nat: "cpu_to_be32_bytes (of_nat x) = be_bytes 4 x"
  using ucast_of_nat_byte [of 0 x, where 'a = 32] ucast_of_nat_byte [of 1 x, where 'a = 32]
    ucast_of_nat_byte [of 2 x, where 'a = 32] ucast_of_nat_byte [of 3 x, where 'a = 32]
  by (simp add: cpu_to_be32_bytes_def be_bytes_def upt_4)

lemma le32_of_nat: "cpu_to_le32_bytes (of_nat x) = le_bytes 4 x"
  using ucast_of_nat_byte [of 0 x, where 'a = 32] ucast_of_nat_byte [of 1 x, where 'a = 32]
    ucast_of_nat_byte [of 2 x, where 'a = 32] ucast_of_nat_byte [of 3 x, where 'a = 32]
  by (simp add: cpu_to_le32_bytes_def le_bytes_def upt_4)

lemma be_bytes_append: "be_bytes k (x div 256 ^ j) @ be_bytes j x = be_bytes (k + j) x"
proof (rule nth_equalityI)
  fix i assume i: "i < length (be_bytes k (x div 256 ^ j) @ be_bytes j x)"
  have "x div 256 ^ j div 256 ^ (k - 1 - i) = x div 256 ^ (k + j - 1 - i)" if "i < k"
  proof -
    have "k + j - 1 - i = j + (k - 1 - i)" using that by simp
    then show ?thesis by (simp add: div_mult2_eq power_add)
  qed
  then show "(be_bytes k (x div 256 ^ j) @ be_bytes j x) ! i = be_bytes (k + j) x ! i"
    using i by (auto simp: be_bytes_def nth_append add.commute)
qed simp

lemma le_bytes_append: "le_bytes j x @ le_bytes k (x div 256 ^ j) = le_bytes (j + k) x"
proof (rule nth_equalityI)
  fix i assume i: "i < length (le_bytes j x @ le_bytes k (x div 256 ^ j))"
  have "x div 256 ^ j div 256 ^ (i - j) = x div 256 ^ i" if "j \<le> i"
    using that by (simp flip: div_mult2_eq power_add)
  then show "(le_bytes j x @ le_bytes k (x div 256 ^ j)) ! i = le_bytes (j + k) x ! i"
    using i by (auto simp: le_bytes_def nth_append)
qed simp

section \<open>The contract of a streaming hash\<close>

fun feed :: "('c \<Rightarrow> u8 list \<Rightarrow> u32 \<Rightarrow> 'c option) \<Rightarrow> 'c \<Rightarrow> u8 list list \<Rightarrow> 'c option" where
  "feed upd c [] = Some c"
| "feed upd c (d # ds) = (case upd c d (of_nat (length d)) of None \<Rightarrow> None | Some c' \<Rightarrow> feed upd c' ds)"

definition digest :: "('c \<Rightarrow> u8 list \<Rightarrow> u32 \<Rightarrow> 'c option) \<Rightarrow> ('c \<Rightarrow> u8 list option) \<Rightarrow> 'c \<Rightarrow> u8 list list \<Rightarrow> u8 list option" where
  "digest upd fin c ds = (case feed upd c ds of None \<Rightarrow> None | Some c' \<Rightarrow> fin c')"

locale stream_update =
  fixes bs :: nat
    and lim :: nat
    and tr :: "'s \<Rightarrow> u8 list \<Rightarrow> 's"
    and upd :: "'c \<Rightarrow> u8 list \<Rightarrow> u32 \<Rightarrow> 'c option"
    and st :: "'c \<Rightarrow> 's"
    and buf :: "'c \<Rightarrow> u8 list"
    and counts :: "'c \<Rightarrow> nat \<Rightarrow> bool"
  assumes bs_pos: "0 < bs"
    and upd_ok: "counts c n \<Longrightarrow> length d < lim \<Longrightarrow>
      \<exists>c'. upd c d (of_nat (length d)) = Some c' \<and> counts c' (n + length d) \<and>
           (st c', take ((n + length d) mod bs) (buf c')) = absorb bs tr (st c) (take (n mod bs) (buf c) @ d)"
begin

lemma feed_ok:
  assumes "counts c n" "\<forall>d \<in> set ds. length d < lim"
  shows "\<exists>c'. feed upd c ds = Some c' \<and> counts c' (n + length (concat ds)) \<and>
           (st c', take ((n + length (concat ds)) mod bs) (buf c')) =
           absorb bs tr (st c) (take (n mod bs) (buf c) @ concat ds)"
  using assms
proof (induction ds arbitrary: c n)
  case Nil
  have "length (take (n mod bs) (buf c)) < bs" using bs_pos by (simp add: min.strict_coboundedI2)
  then show ?case using Nil by simp
next
  case (Cons d ds)
  obtain c1 where c1: "upd c d (of_nat (length d)) = Some c1" "counts c1 (n + length d)"
    "(st c1, take ((n + length d) mod bs) (buf c1)) = absorb bs tr (st c) (take (n mod bs) (buf c) @ d)"
    using upd_ok [OF Cons.prems(1), of d] Cons.prems(2) by auto
  obtain c2 where "feed upd c1 ds = Some c2" "counts c2 (n + length d + length (concat ds))"
    "(st c2, take ((n + length d + length (concat ds)) mod bs) (buf c2)) =
       absorb bs tr (st c1) (take ((n + length d) mod bs) (buf c1) @ concat ds)"
    using Cons.IH [OF c1(2)] Cons.prems(2) by auto
  moreover have "absorb bs tr (st c) (take (n mod bs) (buf c) @ d @ concat ds) =
       absorb bs tr (st c1) (take ((n + length d) mod bs) (buf c1) @ concat ds)"
    using absorb_append [of bs tr "st c" "take (n mod bs) (buf c) @ d" "concat ds"] c1(3) [symmetric] by simp
  ultimately show ?case using c1(1) by (simp add: add.assoc)
qed

lemma pad_ok:
  assumes c: "counts c n" and lim: "bs < lim" and lf: "length (lf n) < bs"
    and pl: "unat pl = Suc (md_zeros bs (length (lf n)) n)"
  shows "\<exists>c1 c'. upd c (take (unat pl) (0x80 # replicate (bs - 1) 0)) pl = Some c1 \<and>
           upd c1 (lf n) (of_nat (length (lf n))) = Some c' \<and>
           st c' = fst (absorb bs tr (st c) (take (n mod bs) (buf c) @ md_pad bs lf n))"
proof -
  let ?z = "md_zeros bs (length (lf n)) n" and ?p = "0x80 # replicate (md_zeros bs (length (lf n)) n) (0 :: u8)"
  have z: "?z < bs" using bs_pos by (simp add: md_zeros_def)
  have pad: "take (unat pl) (0x80 # replicate (bs - 1) 0) = ?p"
    using z by (simp add: pl min_def)
  have plw: "pl = of_nat (length ?p)"
  proof -
    have "pl = of_nat (unat pl)" by simp
    then show ?thesis unfolding pl by simp
  qed
  obtain c' where f: "feed upd c [?p, lf n] = Some c'"
    and st: "(st c', take ((n + length (concat [?p, lf n])) mod bs) (buf c')) =
      absorb bs tr (st c) (take (n mod bs) (buf c) @ md_pad bs lf n)"
    using feed_ok [OF c, of "[?p, lf n]"] z lim lf by (auto simp: md_pad_def)
  obtain c1 where "upd c ?p pl = Some c1" "upd c1 (lf n) (of_nat (length (lf n))) = Some c'"
    using f unfolding feed.simps plw [symmetric] by (auto split: option.splits)
  then show ?thesis unfolding pad by (simp flip: st)
qed

end

text \<open>A \<open>final\<close> absorbs the padding of the bytes counted so far.\<close>

locale stream_hash = stream_update +
  fixes pad :: "nat \<Rightarrow> u8 list"
    and out :: "'a \<Rightarrow> u8 list"
    and fin :: "'b \<Rightarrow> u8 list option"
  assumes fin_ok: "counts c n \<Longrightarrow> fin c = Some (out (fst (absorb bs tr (st c) (take (n mod bs) (buf c) @ pad n))))"
begin

theorem digest_ok:
  assumes "counts c 0" "\<forall>d \<in> set ds. length d < lim"
  shows "digest upd fin c ds = Some (md_hash bs tr (st c) pad out (concat ds))"
proof -
  obtain c' where c': "feed upd c ds = Some c'" "counts c' (length (concat ds))"
    "(st c', take (length (concat ds) mod bs) (buf c')) = absorb bs tr (st c) (concat ds)"
    using feed_ok [OF assms] by auto
  then show ?thesis
    using absorb_append [of bs tr "st c" "concat ds" "pad (length (concat ds))"]
    by (simp add: digest_def md_hash_def fin_ok [OF c'(2)] flip: c'(3))
qed

end

section \<open>The loop over whole blocks\<close>

partial_function (option) for_blocks ::
    "('s \<Rightarrow> u8 list \<Rightarrow> 's) \<Rightarrow> u32 \<Rightarrow> 's \<Rightarrow> u8 list \<Rightarrow> u32 \<Rightarrow> u32 \<Rightarrow> ('s \<times> u32) option" where
  "for_blocks tr bs s data len i =
     (if i + (bs - 1) < len
      then for_blocks tr bs (tr s (take (unat bs) (drop (unat i) data))) data len (i + bs)
      else Some (s, i))"

lemma for_blocks_absorb:
  assumes "length data = unat len" "unat len + unat bs < 2 ^ 32" "0 < unat bs" "unat i \<le> unat len"
  shows "\<exists>s' i'. for_blocks tr bs s data len i = Some (s', i') \<and> unat i' \<le> unat len \<and>
           absorb (unat bs) tr s (drop (unat i) data) = (s', drop (unat i') data)"
  using assms
proof (induction "unat len - unat i" arbitrary: i s rule: less_induct)
  case less
  have b: "unat (bs - 1) = unat bs - 1"
    using less.prems(3) by (intro unat_minus_one) auto
  have i: "unat (i + (bs - 1)) = unat i + (unat bs - 1)"
    using less.prems b unat_add_lem [of i "bs - 1"] by simp linarith
  have i2: "unat (i + bs) = unat i + unat bs"
    using less.prems unat_add_lem [of i bs] by simp
  show ?case
  proof (cases "i + (bs - 1) < len")
    case True
    then have lt: "unat i + unat bs \<le> unat len"
      using i less.prems(3) by (simp add: word_less_nat_alt)
    have dec: "unat len - (unat i + unat bs) < unat len - unat i"
      using lt less.prems(3) by linarith
    obtain s' i' where "for_blocks tr bs (tr s (take (unat bs) (drop (unat i) data))) data len (i + bs) = Some (s', i')"
      "unat i' \<le> unat len"
      "absorb (unat bs) tr (tr s (take (unat bs) (drop (unat i) data))) (drop (unat i + unat bs) data) = (s', drop (unat i') data)"
      using less.hyps [of "i + bs" "tr s (take (unat bs) (drop (unat i) data))"] less.prems lt i2 dec by auto
    moreover have "absorb (unat bs) tr s (drop (unat i) data) =
        absorb (unat bs) tr (tr s (take (unat bs) (drop (unat i) data))) (drop (unat i + unat bs) data)"
    proof -
      have "unat bs \<le> length (drop (unat i) data)" using lt less.prems(1) by simp
      then show ?thesis using less.prems(3) by (subst absorb.simps) (simp add: add.commute)
    qed
    ultimately show ?thesis
      using True by (subst for_blocks.simps) auto
  next
    case False
    then have "unat len < unat i + unat bs" using i less.prems by (simp add: word_less_nat_alt)
    then have "absorb (unat bs) tr s (drop (unat i) data) = (s, drop (unat i) data)"
      using less.prems by simp
    then show ?thesis
      using False less.prems by (subst for_blocks.simps) auto
  qed
qed

text \<open>The branch of an \<open>update\<close> that completes the buffered block, runs over the whole
  blocks of the input and keeps the rest.\<close>

lemma block_update_full:
  fixes bs k :: nat and len B p :: u32
  assumes u: "unat B = bs" "unat p = bs - k" and k: "k < bs" and b: "bs \<le> length buf" and d: "length d = unat len" and n: "unat len + bs < 2 ^ 32"
    and full: "bs - k \<le> length d"
    and tr: "\<And>s b. tr s b = tr s (take bs b)"
  shows "\<exists>s' i'. for_blocks tr B (tr s (put_blk buf k (take (bs - k) d))) d len p = Some (s', i') \<and>
           (let buf' = put_blk (put_blk buf k (take (bs - k) d)) 0 (take (unat (len - i')) (drop (unat i') d))
            in length buf' = length buf \<and>
               (s', take ((k + length d) mod bs) buf') = absorb bs tr s (take k buf @ d))"
proof -
  let ?b = "put_blk buf k (take (bs - k) d)"
  have tk: "take bs ?b = take k buf @ take (bs - k) d"
    using k b full by (intro take_put_blk) simp_all
  obtain s' i' where f: "for_blocks tr B (tr s ?b) d len p = Some (s', i')" "unat i' \<le> unat len"
    "absorb bs tr (tr s ?b) (drop (bs - k) d) = (s', drop (unat i') d)"
    using for_blocks_absorb [of d len B p tr "tr s ?b"] d n full k by (auto simp: u)
  have a: "absorb bs tr s (take k buf @ d) = (s', drop (unat i') d)"
    using absorb_fill [of "take k buf" bs d tr s] k b full f(3) tk tr [of s ?b] by simp
  have r: "length (drop (unat i') d) = (k + length d) mod bs"
    using absorb_rest [of bs tr s "take k buf @ d"] k b a by simp
  have i: "unat (len - i') = length (drop (unat i') d)"
    using f(2) d by (simp add: unat_sub word_le_nat_alt)
  have lb: "length ?b = length buf" using b k full by simp
  have "(k + length d) mod bs < bs" using k by simp
  then have rl: "length (drop (unat i') d) \<le> length ?b" using r b lb by linarith
  have "length (put_blk ?b 0 (drop (unat i') d)) = length buf"
    using rl lb length_put_blk [of 0 "drop (unat i') d" ?b] by simp
  moreover have "take (length (drop (unat i') d)) (put_blk ?b 0 (drop (unat i') d)) = take 0 ?b @ drop (unat i') d"
    using rl by (intro take_put_blk) (simp_all only: add_0)
  then have "take ((k + length d) mod bs) (put_blk ?b 0 (drop (unat i') d)) = drop (unat i') d"
    by (simp only: r take_0 append_Nil)
  ultimately show ?thesis
    using f(1) a i by (intro exI [of _ s'] exI [of _ i']) (simp add: Let_def)
qed

lemma block_update_part:
  assumes "k + length d < bs" "bs \<le> length buf"
  shows "length (put_blk buf k d) = length buf \<and>
         (s, take ((k + length d) mod bs) (put_blk buf k d)) = absorb bs tr s (take k buf @ d)"
  using assms by (simp add: take_put_blk)

lemma be32_take_any: "4 * i + 4 \<le> n \<Longrightarrow> be32_to_cpu (take n b) i = be32_to_cpu b i"
  by (simp add: be32_to_cpu_def)

lemma word_index:
  fixes n :: nat
  assumes "k + 3 \<le> 32"
  shows "unat (drop_bit 3 (of_nat (8 * n) :: u32) AND mask k) = n mod 2 ^ k"
proof -
  have e: "8 * n = push_bit 3 n" by (simp add: push_bit_eq_mult)
  have "drop_bit 3 (of_nat (8 * n) :: u32) AND mask k = of_nat (n mod 2 ^ k)"
    unfolding e take_bit_eq_mod [symmetric] using assms
    by (intro bit_word_eqI) (auto simp: bit_simps bit_word_of_nat)
  moreover have "n mod 2 ^ k < 2 ^ 32"
    using assms mod_less_divisor [of "2 ^ k" n] power_increasing [of k 32 "2 :: nat"] by (simp del: mod_less_divisor)
  ultimately show ?thesis by (simp add: unat_of_nat)
qed

lemma pending_bytes: "unat (ucast (of_nat n AND 0x3f :: u64) :: u32) = n mod 64" "unat (of_nat n AND 0x3f :: u64) = n mod 64"
proof -
  have m: "(0x3f :: u64) = mask 6" by (simp add: mask_eq_exp_minus_1)
  have "ucast (of_nat n AND 0x3f :: u64) = (of_nat (n mod 2 ^ 6) :: u32)" "(of_nat n AND 0x3f :: u64) = of_nat (n mod 2 ^ 6)"
    unfolding m take_bit_eq_mod [symmetric] by (intro bit_word_eqI, auto simp: bit_simps bit_word_of_nat)+
  moreover have "n mod 64 < 64" by simp
  ultimately show "unat (ucast (of_nat n AND 0x3f :: u64) :: u32) = n mod 64" "unat (of_nat n AND 0x3f :: u64) = n mod 64"
    by (simp_all add: unat_of_nat)
qed

lemma byte_count_add: "m < 2 ^ 32 \<Longrightarrow> of_nat n + ucast (of_nat m :: u32) = (of_nat (n + m) :: u64)"
  by (simp add: unsigned_of_nat take_bit_nat_eq_self)

lemma length_absorb_state:
  "(\<And>s b. length (tr s b) = k) \<Longrightarrow> length s = k \<Longrightarrow> length (fst (absorb bs tr s m)) = k"
proof (induction bs tr s m rule: absorb.induct)
  case (1 bs tr s m)
  then show ?case by (subst absorb.simps) simp
qed

end
