(* ===== verification/Sha2.thy ===== *)
theory Sha2
  imports HashStream
begin

text \<open>
  What SHA-256 and SHA-512 share: the eight lines of a round group and how they
  relate to the shifting round of the standard, the message schedule, the
  compression of FIPS 180 as the reference, the rule that fixes the constants
  of the standard, and the carry of the bit counters.
\<close>

type_synonym 'w regs = "'w \<times> 'w \<times> 'w \<times> 'w \<times> 'w \<times> 'w \<times> 'w \<times> 'w"

section \<open>The eight lines of a round group\<close>

text \<open>The transforms of SHA-256 and SHA-512 do not shift their registers; each group of
  eight rounds is eight pairs of statements in which the roles of the registers rotate.
  A pair of statements computes new values for two registers from all eight, in their
  roles of that line, the round constant and the schedule word.\<close>

definition sha2_R0 :: "('w \<Rightarrow> 'w \<Rightarrow> 'w regs \<Rightarrow> 'w \<times> 'w) \<Rightarrow> 'w \<Rightarrow> 'w \<Rightarrow> 'w regs \<Rightarrow> 'w regs" where
  "sha2_R0 line k w = (\<lambda>(a, b, c, d, e, f, g, h).
     let (d, h) = line k w (a, b, c, d, e, f, g, h) in (a, b, c, d, e, f, g, h))"

definition sha2_R1 :: "('w \<Rightarrow> 'w \<Rightarrow> 'w regs \<Rightarrow> 'w \<times> 'w) \<Rightarrow> 'w \<Rightarrow> 'w \<Rightarrow> 'w regs \<Rightarrow> 'w regs" where
  "sha2_R1 line k w = (\<lambda>(a, b, c, d, e, f, g, h).
     let (c, g) = line k w (h, a, b, c, d, e, f, g) in (a, b, c, d, e, f, g, h))"

definition sha2_R2 :: "('w \<Rightarrow> 'w \<Rightarrow> 'w regs \<Rightarrow> 'w \<times> 'w) \<Rightarrow> 'w \<Rightarrow> 'w \<Rightarrow> 'w regs \<Rightarrow> 'w regs" where
  "sha2_R2 line k w = (\<lambda>(a, b, c, d, e, f, g, h).
     let (b, f) = line k w (g, h, a, b, c, d, e, f) in (a, b, c, d, e, f, g, h))"

definition sha2_R3 :: "('w \<Rightarrow> 'w \<Rightarrow> 'w regs \<Rightarrow> 'w \<times> 'w) \<Rightarrow> 'w \<Rightarrow> 'w \<Rightarrow> 'w regs \<Rightarrow> 'w regs" where
  "sha2_R3 line k w = (\<lambda>(a, b, c, d, e, f, g, h).
     let (a, e) = line k w (f, g, h, a, b, c, d, e) in (a, b, c, d, e, f, g, h))"

definition sha2_R4 :: "('w \<Rightarrow> 'w \<Rightarrow> 'w regs \<Rightarrow> 'w \<times> 'w) \<Rightarrow> 'w \<Rightarrow> 'w \<Rightarrow> 'w regs \<Rightarrow> 'w regs" where
  "sha2_R4 line k w = (\<lambda>(a, b, c, d, e, f, g, h).
     let (h, d) = line k w (e, f, g, h, a, b, c, d) in (a, b, c, d, e, f, g, h))"

definition sha2_R5 :: "('w \<Rightarrow> 'w \<Rightarrow> 'w regs \<Rightarrow> 'w \<times> 'w) \<Rightarrow> 'w \<Rightarrow> 'w \<Rightarrow> 'w regs \<Rightarrow> 'w regs" where
  "sha2_R5 line k w = (\<lambda>(a, b, c, d, e, f, g, h).
     let (g, c) = line k w (d, e, f, g, h, a, b, c) in (a, b, c, d, e, f, g, h))"

definition sha2_R6 :: "('w \<Rightarrow> 'w \<Rightarrow> 'w regs \<Rightarrow> 'w \<times> 'w) \<Rightarrow> 'w \<Rightarrow> 'w \<Rightarrow> 'w regs \<Rightarrow> 'w regs" where
  "sha2_R6 line k w = (\<lambda>(a, b, c, d, e, f, g, h).
     let (f, b) = line k w (c, d, e, f, g, h, a, b) in (a, b, c, d, e, f, g, h))"

definition sha2_R7 :: "('w \<Rightarrow> 'w \<Rightarrow> 'w regs \<Rightarrow> 'w \<times> 'w) \<Rightarrow> 'w \<Rightarrow> 'w \<Rightarrow> 'w regs \<Rightarrow> 'w regs" where
  "sha2_R7 line k w = (\<lambda>(a, b, c, d, e, f, g, h).
     let (e, a) = line k w (b, c, d, e, f, g, h, a) in (a, b, c, d, e, f, g, h))"

section \<open>The round of the standard\<close>

definition sha2_rnd :: "('w \<Rightarrow> 'w \<Rightarrow> 'w regs \<Rightarrow> 'w \<times> 'w) \<Rightarrow> 'w \<Rightarrow> 'w \<Rightarrow> 'w regs \<Rightarrow> 'w regs" where
  "sha2_rnd line k w = (\<lambda>(a, b, c, d, e, f, g, h).
     let (d, h) = line k w (a, b, c, d, e, f, g, h) in (h, a, b, c, d, e, f, g))"

definition sha2_rot0 :: "'w regs \<Rightarrow> 'w regs" where
  "sha2_rot0 = (\<lambda>(a, b, c, d, e, f, g, h). (a, b, c, d, e, f, g, h))"

definition sha2_rot1 :: "'w regs \<Rightarrow> 'w regs" where
  "sha2_rot1 = (\<lambda>(a, b, c, d, e, f, g, h). (h, a, b, c, d, e, f, g))"

definition sha2_rot2 :: "'w regs \<Rightarrow> 'w regs" where
  "sha2_rot2 = (\<lambda>(a, b, c, d, e, f, g, h). (g, h, a, b, c, d, e, f))"

definition sha2_rot3 :: "'w regs \<Rightarrow> 'w regs" where
  "sha2_rot3 = (\<lambda>(a, b, c, d, e, f, g, h). (f, g, h, a, b, c, d, e))"

definition sha2_rot4 :: "'w regs \<Rightarrow> 'w regs" where
  "sha2_rot4 = (\<lambda>(a, b, c, d, e, f, g, h). (e, f, g, h, a, b, c, d))"

definition sha2_rot5 :: "'w regs \<Rightarrow> 'w regs" where
  "sha2_rot5 = (\<lambda>(a, b, c, d, e, f, g, h). (d, e, f, g, h, a, b, c))"

definition sha2_rot6 :: "'w regs \<Rightarrow> 'w regs" where
  "sha2_rot6 = (\<lambda>(a, b, c, d, e, f, g, h). (c, d, e, f, g, h, a, b))"

definition sha2_rot7 :: "'w regs \<Rightarrow> 'w regs" where
  "sha2_rot7 = (\<lambda>(a, b, c, d, e, f, g, h). (b, c, d, e, f, g, h, a))"

lemma sha2_rot0 [simp]: "sha2_rot0 s = s"
  by (simp add: sha2_rot0_def case_prod_beta)

lemma sha2_lines:
  "sha2_rnd line k w (sha2_rot0 s) = sha2_rot1 (sha2_R0 line k w s)"
  "sha2_rnd line k w (sha2_rot1 s) = sha2_rot2 (sha2_R1 line k w s)"
  "sha2_rnd line k w (sha2_rot2 s) = sha2_rot3 (sha2_R2 line k w s)"
  "sha2_rnd line k w (sha2_rot3 s) = sha2_rot4 (sha2_R3 line k w s)"
  "sha2_rnd line k w (sha2_rot4 s) = sha2_rot5 (sha2_R4 line k w s)"
  "sha2_rnd line k w (sha2_rot5 s) = sha2_rot6 (sha2_R5 line k w s)"
  "sha2_rnd line k w (sha2_rot6 s) = sha2_rot7 (sha2_R6 line k w s)"
  "sha2_rnd line k w (sha2_rot7 s) = sha2_rot0 (sha2_R7 line k w s)"
  by (simp_all add: sha2_rnd_def case_prod_beta Let_def
      sha2_rot0_def sha2_R0_def sha2_rot1_def sha2_R1_def sha2_rot2_def sha2_R2_def sha2_rot3_def sha2_R3_def
      sha2_rot4_def sha2_R4_def sha2_rot5_def sha2_R5_def sha2_rot6_def sha2_R6_def sha2_rot7_def sha2_R7_def)

section \<open>The compression of FIPS 180\<close>

definition fips_ch :: "'w :: len word \<Rightarrow> 'w word \<Rightarrow> 'w word \<Rightarrow> 'w word" where
  "fips_ch x y z = (x AND y) XOR (NOT x AND z)"

definition fips_maj :: "'w :: len word \<Rightarrow> 'w word \<Rightarrow> 'w word \<Rightarrow> 'w word" where
  "fips_maj x y z = (x AND y) XOR (x AND z) XOR (y AND z)"

definition fips_line ::
    "('w :: len word \<Rightarrow> 'w word) \<Rightarrow> ('w word \<Rightarrow> 'w word) \<Rightarrow> 'w word \<Rightarrow> 'w word \<Rightarrow> 'w word regs \<Rightarrow> 'w word \<times> 'w word" where
  "fips_line Sigma0 Sigma1 k w = (\<lambda>(a, b, c, d, e, f, g, h).
     let T1 = h + Sigma1 e + fips_ch e f g + k + w; T2 = Sigma0 a + fips_maj a b c in (d + T1, T1 + T2))"

fun fips_W :: "('w :: len word \<Rightarrow> 'w word) \<Rightarrow> ('w word \<Rightarrow> 'w word) \<Rightarrow> (nat \<Rightarrow> 'w word) \<Rightarrow> nat \<Rightarrow> 'w word" where
  "fips_W sigma0 sigma1 M t =
     (if t < 16 then M t
      else sigma1 (fips_W sigma0 sigma1 M (t - 2)) + fips_W sigma0 sigma1 M (t - 7) +
           sigma0 (fips_W sigma0 sigma1 M (t - 15)) + fips_W sigma0 sigma1 M (t - 16))"

declare fips_W.simps [simp del]

definition fips_compress ::
    "nat \<Rightarrow> ('w :: len word \<Rightarrow> 'w word \<Rightarrow> 'w word regs \<Rightarrow> 'w word \<times> 'w word) \<Rightarrow> 'w word list \<Rightarrow> (nat \<Rightarrow> 'w word) \<Rightarrow> 'w word list \<Rightarrow> 'w word list" where
  "fips_compress n line K W H =
     (let (a, b, c, d, e, f, g, h) =
        fold (\<lambda>t. sha2_rnd line (K ! t) (W t)) [0..<n]
          (H ! 0, H ! 1, H ! 2, H ! 3, H ! 4, H ! 5, H ! 6, H ! 7)
      in [H ! 0 + a, H ! 1 + b, H ! 2 + c, H ! 3 + d, H ! 4 + e, H ! 5 + f, H ! 6 + g, H ! 7 + h])"

lemma ch_fips: "z XOR (x AND (y XOR z)) = fips_ch x y z"
  by (intro bit_word_eqI) (auto simp: fips_ch_def bit_simps)

lemma maj_fips: "(x AND y) OR (z AND (x OR y)) = fips_maj x y z"
  by (intro bit_word_eqI) (auto simp: fips_maj_def bit_simps)

lemma length_fold_update [simp]: "length (fold (\<lambda>i xs. xs[i := f i xs]) is xs) = length xs"
  by (induction "is" arbitrary: xs) simp_all

lemma load_words:
  "n \<le> length xs \<Longrightarrow> t < n \<Longrightarrow> fold (\<lambda>i xs. xs[i := M i]) [0..<n] xs ! t = M t"
  by (induction n) (auto simp: nth_list_update less_Suc_eq)

text \<open>The two loops that fill the schedule compute the recurrence of the standard.\<close>

lemma blend_words:
  assumes "n \<le> length xs" "16 \<le> n" "\<forall>t < 16. xs ! t = M t"
  shows "\<forall>t < n. fold (\<lambda>i W. W[i := sigma1 (W ! (i - 2)) + W ! (i - 7) + sigma0 (W ! (i - 15)) + W ! (i - 16)])
           [16..<n] xs ! t = fips_W sigma0 sigma1 M t"
  using assms(2,1)
proof (induction n rule: dec_induct)
  case base
  then show ?case using assms(3) by (simp add: fips_W.simps)
next
  case (step n)
  then show ?case
    by (auto simp: nth_list_update less_Suc_eq fips_W.simps [of _ _ _ n])
qed

lemma sha2_schedule:
  assumes "16 \<le> n" "n \<le> length xs" "t < n"
  shows "fold (\<lambda>i W. W[i := sigma1 (W ! (i - 2)) + W ! (i - 7) + sigma0 (W ! (i - 15)) + W ! (i - 16)])
           [16..<n] (fold (\<lambda>i W. W[i := M i]) [0..<16] xs) ! t = fips_W sigma0 sigma1 M t"
  using assms blend_words [of n "fold (\<lambda>i W. W[i := M i]) [0..<16] xs" M] load_words [of 16 xs _ M] by simp

section \<open>The constants of FIPS 180\<close>

text \<open>The first \<open>w\<close> bits of the fractional part of the \<open>k\<close>-th root of \<open>p\<close>, for a root
  below 8.\<close>

definition frac_root :: "nat \<Rightarrow> nat \<Rightarrow> int \<Rightarrow> int \<Rightarrow> bool" where
  "frac_root k w p v \<longleftrightarrow>
     list_ex (\<lambda>c. if c ^ k \<le> p \<and> p < (c + 1) ^ k
                  then 0 \<le> v \<and> v < 2 ^ w \<and>
                       (c * 2 ^ w + v) ^ k \<le> p * 2 ^ (w * k) \<and> p * 2 ^ (w * k) < (c * 2 ^ w + v + 1) ^ k
                  else False)
       [1, 2, 3, 4, 5, 6, 7]"

text \<open>A number below \<open>21\<^sup>2\<close> is prime when no smaller prime up to 19 divides it.\<close>

definition small_primes :: "int list" where
  "small_primes = filter (\<lambda>n. list_all (\<lambda>d. n = d \<or> n mod d \<noteq> 0) [2, 3, 5, 7, 11, 13, 17, 19]) [2..409]"

lemma small_primes_eval: "small_primes = [
     2, 3, 5, 7, 11, 13, 17, 19, 23, 29, 31, 37, 41, 43, 47, 53, 59, 61, 67, 71, 73, 79, 83,
     89, 97, 101, 103, 107, 109, 113, 127, 131, 137, 139, 149, 151, 157, 163, 167, 173, 179,
     181, 191, 193, 197, 199, 211, 223, 227, 229, 233, 239, 241, 251, 257, 263, 269, 271, 277,
     281, 283, 293, 307, 311, 313, 317, 331, 337, 347, 349, 353, 359, 367, 373, 379, 383, 389,
     397, 401, 409]"
  by code_simp

section \<open>Multi-word counters\<close>

lemma add_carry:
  fixes x y :: nat
  assumes "y < 2 ^ 32"
  shows "(of_nat (x + y) :: u32) < of_nat y \<longleftrightarrow> (x + y) div 2 ^ 32 = x div 2 ^ 32 + 1"
    and "\<not> (of_nat (x + y) :: u32) < of_nat y \<Longrightarrow> (x + y) div 2 ^ 32 = x div 2 ^ 32"
proof -
  have m: "x = x div 2 ^ 32 * 2 ^ 32 + x mod 2 ^ 32" by simp
  have lt: "x mod 2 ^ 32 < 2 ^ 32" by simp
  have a: "(x + y) div 2 ^ 32 = x div 2 ^ 32 + (x mod 2 ^ 32 + y) div 2 ^ 32"
  proof -
    have "x + y = (x mod 2 ^ 32 + y) + x div 2 ^ 32 * 2 ^ 32" using m by linarith
    then have "(x + y) div 2 ^ 32 = ((x mod 2 ^ 32 + y) + x div 2 ^ 32 * 2 ^ 32) div 2 ^ 32" by (rule arg_cong)
    also have "\<dots> = x div 2 ^ 32 + (x mod 2 ^ 32 + y) div 2 ^ 32" by (rule div_mult_self1) simp
    finally show ?thesis .
  qed
  have b: "(x + y) mod 2 ^ 32 = (x mod 2 ^ 32 + y) mod 2 ^ 32"
    by (simp add: mod_add_left_eq)
  have l: "(of_nat (x + y) :: u32) < of_nat y \<longleftrightarrow> (x mod 2 ^ 32 + y) mod 2 ^ 32 < y"
    using assms b by (simp add: word_less_nat_alt unat_of_nat del: of_nat_add)
  show "(of_nat (x + y) :: u32) < of_nat y \<longleftrightarrow> (x + y) div 2 ^ 32 = x div 2 ^ 32 + 1"
    and "\<not> (of_nat (x + y) :: u32) < of_nat y \<Longrightarrow> (x + y) div 2 ^ 32 = x div 2 ^ 32"
    using a l assms lt by (cases "x mod 2 ^ 32 + y < 2 ^ 32"; simp add: le_div_geq le_mod_geq)+
qed

end
