(* ===== verification/Sha256.thy ===== *)
theory Sha256
  imports Sha2
begin

text \<open>
  SHA-224 and SHA-256 of crypto/sha256_generic.c: the unrolled transform, the
  buffering of \<open>update\<close> with its 32-bit lengths and its two-word bit counter, and
  \<open>final\<close>.  The transform is the compression of FIPS 180 and the whole hash is
  the hash of the standard for every way of cutting the message into pieces
  shorter than 2^29 bytes; the bound is needed, since the counter of a longer
  piece loses its high bits.
\<close>

section \<open>The transform\<close>

record sha256_ctx =
  sha256_count :: "u32 list"
  sha256_state :: "u32 list"
  sha256_buf :: "u8 list"

definition sha256_Ch :: "u32 \<Rightarrow> u32 \<Rightarrow> u32 \<Rightarrow> u32" where
  "sha256_Ch x y z = z XOR (x AND (y XOR z))"

definition sha256_Maj :: "u32 \<Rightarrow> u32 \<Rightarrow> u32 \<Rightarrow> u32" where
  "sha256_Maj x y z = (x AND y) OR (z AND (x OR y))"

definition sha256_e0 :: "u32 \<Rightarrow> u32" where
  "sha256_e0 x = ror32 x 2 XOR ror32 x 13 XOR ror32 x 22"

definition sha256_e1 :: "u32 \<Rightarrow> u32" where
  "sha256_e1 x = ror32 x 6 XOR ror32 x 11 XOR ror32 x 25"

definition sha256_s0 :: "u32 \<Rightarrow> u32" where
  "sha256_s0 x = ror32 x 7 XOR ror32 x 18 XOR drop_bit 3 x"

definition sha256_s1 :: "u32 \<Rightarrow> u32" where
  "sha256_s1 x = ror32 x 17 XOR ror32 x 19 XOR drop_bit 10 x"

definition sha256_LOAD_OP :: "u8 list \<Rightarrow> nat \<Rightarrow> u32 list \<Rightarrow> u32 list" where
  "sha256_LOAD_OP input I W = W[I := be32_to_cpu input I]"

definition sha256_BLEND_OP :: "nat \<Rightarrow> u32 list \<Rightarrow> u32 list" where
  "sha256_BLEND_OP I W =
     W[I := sha256_s1 (W ! (I - 2)) + W ! (I - 7) + sha256_s0 (W ! (I - 15)) + W ! (I - 16)]"

definition sha256_line :: "u32 \<Rightarrow> u32 \<Rightarrow> u32 regs \<Rightarrow> u32 \<times> u32" where
  "sha256_line k w = (\<lambda>(a, b, c, d, e, f, g, h).
     let t1 = h + sha256_e1 e + sha256_Ch e f g + k + w;
         t2 = sha256_e0 a + sha256_Maj a b c;
         d = d + t1;
         h = t1 + t2
     in (d, h))"

definition sha256_rounds :: "u32 list \<Rightarrow> u32 regs \<Rightarrow> u32 regs" where
  "sha256_rounds W = (
           sha2_R7 sha256_line 0xc67178f2 (W ! 63) \<circ> sha2_R6 sha256_line 0xbef9a3f7 (W ! 62) \<circ>
           sha2_R5 sha256_line 0xa4506ceb (W ! 61) \<circ> sha2_R4 sha256_line 0x90befffa (W ! 60) \<circ>
           sha2_R3 sha256_line 0x8cc70208 (W ! 59) \<circ> sha2_R2 sha256_line 0x84c87814 (W ! 58) \<circ>
           sha2_R1 sha256_line 0x78a5636f (W ! 57) \<circ> sha2_R0 sha256_line 0x748f82ee (W ! 56) \<circ>
           sha2_R7 sha256_line 0x682e6ff3 (W ! 55) \<circ> sha2_R6 sha256_line 0x5b9cca4f (W ! 54) \<circ>
           sha2_R5 sha256_line 0x4ed8aa4a (W ! 53) \<circ> sha2_R4 sha256_line 0x391c0cb3 (W ! 52) \<circ>
           sha2_R3 sha256_line 0x34b0bcb5 (W ! 51) \<circ> sha2_R2 sha256_line 0x2748774c (W ! 50) \<circ>
           sha2_R1 sha256_line 0x1e376c08 (W ! 49) \<circ> sha2_R0 sha256_line 0x19a4c116 (W ! 48) \<circ>
           sha2_R7 sha256_line 0x106aa070 (W ! 47) \<circ> sha2_R6 sha256_line 0xf40e3585 (W ! 46) \<circ>
           sha2_R5 sha256_line 0xd6990624 (W ! 45) \<circ> sha2_R4 sha256_line 0xd192e819 (W ! 44) \<circ>
           sha2_R3 sha256_line 0xc76c51a3 (W ! 43) \<circ> sha2_R2 sha256_line 0xc24b8b70 (W ! 42) \<circ>
           sha2_R1 sha256_line 0xa81a664b (W ! 41) \<circ> sha2_R0 sha256_line 0xa2bfe8a1 (W ! 40) \<circ>
           sha2_R7 sha256_line 0x92722c85 (W ! 39) \<circ> sha2_R6 sha256_line 0x81c2c92e (W ! 38) \<circ>
           sha2_R5 sha256_line 0x766a0abb (W ! 37) \<circ> sha2_R4 sha256_line 0x650a7354 (W ! 36) \<circ>
           sha2_R3 sha256_line 0x53380d13 (W ! 35) \<circ> sha2_R2 sha256_line 0x4d2c6dfc (W ! 34) \<circ>
           sha2_R1 sha256_line 0x2e1b2138 (W ! 33) \<circ> sha2_R0 sha256_line 0x27b70a85 (W ! 32) \<circ>
           sha2_R7 sha256_line 0x14292967 (W ! 31) \<circ> sha2_R6 sha256_line 0x6ca6351 (W ! 30) \<circ>
           sha2_R5 sha256_line 0xd5a79147 (W ! 29) \<circ> sha2_R4 sha256_line 0xc6e00bf3 (W ! 28) \<circ>
           sha2_R3 sha256_line 0xbf597fc7 (W ! 27) \<circ> sha2_R2 sha256_line 0xb00327c8 (W ! 26) \<circ>
           sha2_R1 sha256_line 0xa831c66d (W ! 25) \<circ> sha2_R0 sha256_line 0x983e5152 (W ! 24) \<circ>
           sha2_R7 sha256_line 0x76f988da (W ! 23) \<circ> sha2_R6 sha256_line 0x5cb0a9dc (W ! 22) \<circ>
           sha2_R5 sha256_line 0x4a7484aa (W ! 21) \<circ> sha2_R4 sha256_line 0x2de92c6f (W ! 20) \<circ>
           sha2_R3 sha256_line 0x240ca1cc (W ! 19) \<circ> sha2_R2 sha256_line 0xfc19dc6 (W ! 18) \<circ>
           sha2_R1 sha256_line 0xefbe4786 (W ! 17) \<circ> sha2_R0 sha256_line 0xe49b69c1 (W ! 16) \<circ>
           sha2_R7 sha256_line 0xc19bf174 (W ! 15) \<circ> sha2_R6 sha256_line 0x9bdc06a7 (W ! 14) \<circ>
           sha2_R5 sha256_line 0x80deb1fe (W ! 13) \<circ> sha2_R4 sha256_line 0x72be5d74 (W ! 12) \<circ>
           sha2_R3 sha256_line 0x550c7dc3 (W ! 11) \<circ> sha2_R2 sha256_line 0x243185be (W ! 10) \<circ>
           sha2_R1 sha256_line 0x12835b01 (W ! 9) \<circ> sha2_R0 sha256_line 0xd807aa98 (W ! 8) \<circ>
           sha2_R7 sha256_line 0xab1c5ed5 (W ! 7) \<circ> sha2_R6 sha256_line 0x923f82a4 (W ! 6) \<circ>
           sha2_R5 sha256_line 0x59f111f1 (W ! 5) \<circ> sha2_R4 sha256_line 0x3956c25b (W ! 4) \<circ>
           sha2_R3 sha256_line 0xe9b5dba5 (W ! 3) \<circ> sha2_R2 sha256_line 0xb5c0fbcf (W ! 2) \<circ>
           sha2_R1 sha256_line 0x71374491 (W ! 1) \<circ> sha2_R0 sha256_line 0x428a2f98 (W ! 0))"

definition sha256_transform :: "u32 list \<Rightarrow> u8 list \<Rightarrow> u32 list" where
  "sha256_transform state input =
     (let W = replicate 64 0;
          W = fold (sha256_LOAD_OP input) [0..<16] W;
          W = fold sha256_BLEND_OP [16..<64] W;
          (a, b, c, d, e, f, g, h) = sha256_rounds W
            (state ! 0, state ! 1, state ! 2, state ! 3, state ! 4, state ! 5, state ! 6, state ! 7)
      in [state ! 0 + a, state ! 1 + b, state ! 2 + c, state ! 3 + d,
          state ! 4 + e, state ! 5 + f, state ! 6 + g, state ! 7 + h])"

section \<open>Initialisation, update and final\<close>

definition sha224_init :: "sha256_ctx \<Rightarrow> sha256_ctx" where
  "sha224_init sctx = sctx\<lparr>sha256_state :=
       [0xc1059ed8, 0x367cd507, 0x3070dd17, 0xf70e5939, 0xffc00b31, 0x68581511, 0x64f98fa7, 0xbefa4fa4],
     sha256_count := [0, 0]\<rparr>"

definition sha256_init :: "sha256_ctx \<Rightarrow> sha256_ctx" where
  "sha256_init sctx = sctx\<lparr>sha256_state :=
       [0x6a09e667, 0xbb67ae85, 0x3c6ef372, 0xa54ff53a, 0x510e527f, 0x9b05688c, 0x1f83d9ab, 0x5be0cd19],
     sha256_count := [0, 0]\<rparr>"

definition sha256_index :: "u32 list \<Rightarrow> u32" where
  "sha256_index cnt = drop_bit 3 (cnt ! 0) AND 0x3f"

definition sha256_add_bits :: "u32 list \<Rightarrow> u32 \<Rightarrow> u32 list" where
  "sha256_add_bits cnt len =
     (let c0 = cnt ! 0 + push_bit 3 len
      in if c0 < push_bit 3 len then [c0, cnt ! 1 + 1 + drop_bit 29 len] else [c0, cnt ! 1])"

definition sha256_update :: "sha256_ctx \<Rightarrow> u8 list \<Rightarrow> u32 \<Rightarrow> sha256_ctx option" where
  "sha256_update sctx data len =
     (let index = sha256_index (sha256_count sctx);
          cnt = sha256_add_bits (sha256_count sctx) len;
          part_len = 64 - index
      in if part_len \<le> len
         then let buf = put_blk (sha256_buf sctx) (unat index) (take (unat part_len) data);
                  state = sha256_transform (sha256_state sctx) buf
              in (case for_blocks sha256_transform 64 state data len part_len of
                    None \<Rightarrow> None
                  | Some (state, i) \<Rightarrow>
                      Some \<lparr>sha256_count = cnt, sha256_state = state,
                            sha256_buf = put_blk buf 0 (take (unat (len - i)) (drop (unat i) data))\<rparr>)
         else Some \<lparr>sha256_count = cnt, sha256_state = sha256_state sctx,
                    sha256_buf = put_blk (sha256_buf sctx) (unat index) (take (unat len) data)\<rparr>)"

definition sha256_digest :: "u32 list \<Rightarrow> u8 list" where
  "sha256_digest state = concat (map (\<lambda>i. cpu_to_be32_bytes (state ! i)) [0..<8])"

definition sha256_final :: "sha256_ctx \<Rightarrow> (u8 list \<times> sha256_ctx) option" where
  "sha256_final sctx =
     (let padding = 0x80 # replicate 63 0;
          bits = cpu_to_be32_bytes (sha256_count sctx ! 1) @ cpu_to_be32_bytes (sha256_count sctx ! 0);
          index = sha256_index (sha256_count sctx);
          pad_len = (if index < 56 then 56 - index else (64 + 56) - index)
      in case sha256_update sctx (take (unat pad_len) padding) pad_len of
           None \<Rightarrow> None
         | Some sctx \<Rightarrow>
             (case sha256_update sctx bits 8 of
                None \<Rightarrow> None
              | Some sctx \<Rightarrow>
                  Some (sha256_digest (sha256_state sctx),
                        \<lparr>sha256_count = replicate 2 0, sha256_state = replicate 8 0, sha256_buf = replicate 128 0\<rparr>)))"

definition sha224_final :: "sha256_ctx \<Rightarrow> (u8 list \<times> sha256_ctx) option" where
  "sha224_final sctx =
     (case sha256_final sctx of None \<Rightarrow> None | Some (D, sctx) \<Rightarrow> Some (take 28 D, sctx))"

section \<open>The transform against the standard\<close>

text \<open>The round constants of the standard, eight to a row.\<close>

definition fips_K256 :: "u32 list" where
  "fips_K256 = concat [
     [0x428a2f98, 0x71374491, 0xb5c0fbcf, 0xe9b5dba5, 0x3956c25b, 0x59f111f1, 0x923f82a4, 0xab1c5ed5],
     [0xd807aa98, 0x12835b01, 0x243185be, 0x550c7dc3, 0x72be5d74, 0x80deb1fe, 0x9bdc06a7, 0xc19bf174],
     [0xe49b69c1, 0xefbe4786, 0xfc19dc6, 0x240ca1cc, 0x2de92c6f, 0x4a7484aa, 0x5cb0a9dc, 0x76f988da],
     [0x983e5152, 0xa831c66d, 0xb00327c8, 0xbf597fc7, 0xc6e00bf3, 0xd5a79147, 0x6ca6351, 0x14292967],
     [0x27b70a85, 0x2e1b2138, 0x4d2c6dfc, 0x53380d13, 0x650a7354, 0x766a0abb, 0x81c2c92e, 0x92722c85],
     [0xa2bfe8a1, 0xa81a664b, 0xc24b8b70, 0xc76c51a3, 0xd192e819, 0xd6990624, 0xf40e3585, 0x106aa070],
     [0x19a4c116, 0x1e376c08, 0x2748774c, 0x34b0bcb5, 0x391c0cb3, 0x4ed8aa4a, 0x5b9cca4f, 0x682e6ff3],
     [0x748f82ee, 0x78a5636f, 0x84c87814, 0x8cc70208, 0x90befffa, 0xa4506ceb, 0xbef9a3f7, 0xc67178f2]]"

lemma sha256_line_fips: "sha256_line = fips_line sha256_e0 sha256_e1"
  by (simp add: fun_eq_iff sha256_line_def fips_line_def sha256_Ch_def sha256_Maj_def ch_fips maj_fips Let_def)

lemma upt_64: "[0..<64] = [0, 1, 2, 3, 4, 5, 6, 7, 8, 9, 10, 11, 12, 13, 14, 15, 16, 17, 18, 19, 20,
     21, 22, 23, 24, 25, 26, 27, 28, 29, 30, 31, 32, 33, 34, 35, 36, 37, 38, 39, 40, 41, 42, 43, 44,
     45, 46, 47, 48, 49, 50, 51, 52, 53, 54, 55, 56, 57, 58, 59, 60, 61, 62, 63 :: nat]"
  by code_simp

lemma sha256_rounds_fold:
  "sha256_rounds W s = fold (\<lambda>t. sha2_rnd sha256_line (fips_K256 ! t) (W ! t)) [0..<64] s"
proof -
  have "sha2_rot0 (sha256_rounds W s) = fold (\<lambda>t. sha2_rnd sha256_line (fips_K256 ! t) (W ! t)) [0..<64] (sha2_rot0 s)"
    unfolding upt_64 by (simp add: sha256_rounds_def sha2_lines fips_K256_def del: sha2_rot0)
  then show ?thesis by simp
qed

lemma fold_cong_nth:
  "(\<And>t. t < n \<Longrightarrow> f t = g t) \<Longrightarrow> fold f [0..<n] s = fold g [0..<n] s"
  by (intro fold_cong) auto

theorem sha256_transform_fips:
  "sha256_transform state input =
   fips_compress 64 (fips_line sha256_e0 sha256_e1) fips_K256
     (fips_W sha256_s0 sha256_s1 (be32_to_cpu input)) state"
proof -
  let ?W = "fold sha256_BLEND_OP [16..<64] (fold (sha256_LOAD_OP input) [0..<16] (replicate 64 0))"
  have W: "?W ! t = fips_W sha256_s0 sha256_s1 (be32_to_cpu input) t" if "t < 64" for t
    using that sha2_schedule [of 64 "replicate 64 0" t sha256_s1 sha256_s0 "be32_to_cpu input"]
    unfolding sha256_BLEND_OP_def [abs_def] sha256_LOAD_OP_def [abs_def] by (simp del: upt_rec_numeral)
  have "sha256_rounds ?W s = fold (\<lambda>t. sha2_rnd (fips_line sha256_e0 sha256_e1) (fips_K256 ! t)
      (fips_W sha256_s0 sha256_s1 (be32_to_cpu input) t)) [0..<64] s" for s
    unfolding sha256_rounds_fold sha256_line_fips by (rule fold_cong_nth) (simp only: W)
  then show ?thesis
    by (simp add: sha256_transform_def fips_compress_def Let_def del: upt_rec_numeral)
qed

section \<open>The stream\<close>

definition sha256_counts :: "sha256_ctx \<Rightarrow> nat \<Rightarrow> bool" where
  "sha256_counts c n \<longleftrightarrow>
     sha256_count c = [of_nat (8 * n), of_nat (8 * n div 2 ^ 32)] \<and> length (sha256_buf c) = 128"

lemma load_prefix:
  assumes "4 * n \<le> k"
  shows "fold (sha256_LOAD_OP (take k b)) [0..<n] W = fold (sha256_LOAD_OP b) [0..<n] W"
  using assms by (intro fold_cong) (auto simp: sha256_LOAD_OP_def be32_take_any)

lemma sha256_transform_prefix: "sha256_transform s b = sha256_transform s (take 64 b)"
  by (simp add: sha256_transform_def load_prefix del: upt_rec_numeral)

lemma sha256_index_ok: "sha256_counts c n \<Longrightarrow> unat (sha256_index (sha256_count c)) = n mod 64"
  using word_index [of 6 n] by (simp add: sha256_counts_def sha256_index_def mask_eq_exp_minus_1)

lemma word_len:
  assumes "length d < 2 ^ 29"
  shows "unat (of_nat (length d) :: u32) = length d" "drop_bit 29 (of_nat (length d) :: u32) = 0"
    "push_bit 3 (of_nat (length d) :: u32) = of_nat (8 * length d)"
proof -
  show len: "unat (of_nat (length d) :: u32) = length d" using assms by (simp add: unat_of_nat)
  have "unat (drop_bit 29 (of_nat (length d) :: u32)) = drop_bit 29 (length d)" by (simp only: unat_drop_bit_eq len)
  also have "\<dots> = 0" using assms by (simp add: drop_bit_eq_div)
  finally show "drop_bit 29 (of_nat (length d) :: u32) = 0" by (simp only: unat_eq_0)
  show "push_bit 3 (of_nat (length d) :: u32) = of_nat (8 * length d)" by (simp add: push_bit_eq_mult)
qed

lemma sha256_add_bits_ok:
  assumes "sha256_counts c n" "length d < 2 ^ 29"
  shows "sha256_add_bits (sha256_count c) (of_nat (length d)) =
         [of_nat (8 * (n + length d)), of_nat (8 * (n + length d) div 2 ^ 32)]"
  using add_carry [of "8 * length d" "8 * n"] assms
  by (auto simp: sha256_counts_def sha256_add_bits_def Let_def distrib_left word_len [OF assms(2)])

lemma sha256_update_ok:
  assumes c: "sha256_counts c n" and d: "length d < 2 ^ 29"
  shows "\<exists>c'. sha256_update c d (of_nat (length d)) = Some c' \<and> sha256_counts c' (n + length d) \<and>
           (sha256_state c', take ((n + length d) mod 64) (sha256_buf c')) =
           absorb 64 sha256_transform (sha256_state c) (take (n mod 64) (sha256_buf c) @ d)"
proof -
  let ?len = "of_nat (length d) :: u32"
  define index where "index = sha256_index (sha256_count c)"
  have index: "unat index = n mod 64" using sha256_index_ok [OF c] by (simp add: index_def)
  have p: "unat (64 - index) = 64 - n mod 64"
    using index by (simp add: unat_sub word_le_nat_alt)
  have m: "(n mod 64 + length d) mod 64 = (n + length d) mod 64" by (simp add: mod_add_left_eq)
  note defs = sha256_update_def Let_def index_def [symmetric] sha256_add_bits_ok [OF c d] index p
  have b: "length (sha256_buf c) = 128" using c by (simp add: sha256_counts_def)
  show ?thesis
  proof (cases "64 - index \<le> ?len")
    case True
    then have full: "64 - n mod 64 \<le> length d" using p word_len [OF d] by (simp add: word_le_nat_alt)
    obtain s' i' buf' where "for_blocks sha256_transform 64
        (sha256_transform (sha256_state c) (put_blk (sha256_buf c) (n mod 64) (take (64 - n mod 64) d))) d ?len (64 - index) = Some (s', i')"
      "buf' = put_blk (put_blk (sha256_buf c) (n mod 64) (take (64 - n mod 64) d)) 0
         (take (unat (?len - i')) (drop (unat i') d))"
      "length buf' = 128"
      "(s', take ((n + length d) mod 64) buf') =
         absorb 64 sha256_transform (sha256_state c) (take (n mod 64) (sha256_buf c) @ d)"
      using block_update_full [of 64 64 "64 - index" "n mod 64" "sha256_buf c" d ?len sha256_transform "sha256_state c"]
        p full word_len [OF d] d b sha256_transform_prefix m by (auto simp: Let_def)
    then show ?thesis
      using True by (simp add: defs sha256_counts_def)
  next
    case False
    then have part: "n mod 64 + length d < 64" using p word_len [OF d] by (simp add: word_le_nat_alt)
    then show ?thesis
      using False b m word_len [OF d]
        block_update_part [of "n mod 64" d 64 "sha256_buf c" "sha256_state c" sha256_transform]
      by (simp add: defs sha256_counts_def)
  qed
qed

interpretation sha256: stream_update 64 "2 ^ 29" sha256_transform sha256_update sha256_state sha256_buf sha256_counts
  by unfold_locales (simp_all add: sha256_update_ok)

lemma sha256_final_ok:
  assumes "sha256_counts c n"
  shows "map_option fst (sha256_final c) =
    Some (sha256_digest (fst (absorb 64 sha256_transform (sha256_state c)
      (take (n mod 64) (sha256_buf c) @ md_pad 64 (be_bytes 8 \<circ> (*) 8) n))))"
proof -
  define index where "index = sha256_index (sha256_count c)"
  have index: "unat index = n mod 64" using sha256_index_ok [OF assms] by (simp add: index_def)
  define pl where "pl = (if index < 56 then 56 - index else (64 + 56) - index)"
  have pl: "unat pl = Suc (md_zeros 64 8 n)"
    using index by (auto simp: pl_def md_zeros_split word_less_nat_alt unat_sub word_le_nat_alt)
  have bits: "cpu_to_be32_bytes (sha256_count c ! 1) @ cpu_to_be32_bytes (sha256_count c ! 0) = be_bytes 8 (8 * n)"
    using be_bytes_append [of 4 "8 * n" 4] assms by (simp add: sha256_counts_def be32_of_nat del: of_nat_mult)
  obtain c1 c' where "sha256_update c (take (unat pl) (0x80 # replicate 63 0)) pl = Some c1"
    "sha256_update c1 (be_bytes 8 (8 * n)) 8 = Some c'"
    "sha256_state c' = fst (absorb 64 sha256_transform (sha256_state c) (take (n mod 64) (sha256_buf c) @ md_pad 64 (be_bytes 8 \<circ> (*) 8) n))"
    using sha256.pad_ok [OF assms, of "be_bytes 8 \<circ> (*) 8" pl] pl by auto
  then show ?thesis
    unfolding sha256_final_def Let_def index_def [symmetric] pl_def [symmetric] bits by simp
qed

interpretation sha256_hash: stream_hash 64 "2 ^ 29" sha256_transform sha256_update sha256_state sha256_buf sha256_counts
  "md_pad 64 (be_bytes 8 \<circ> (*) 8)" sha256_digest "map_option fst \<circ> sha256_final"
  by unfold_locales (simp add: sha256_final_ok)

lemma sha224_final_ok:
  "sha256_counts c n \<Longrightarrow> map_option fst (sha224_final c) =
    Some (take 28 (sha256_digest (fst (absorb 64 sha256_transform (sha256_state c)
      (take (n mod 64) (sha256_buf c) @ md_pad 64 (be_bytes 8 \<circ> (*) 8) n)))))"
  using sha256_final_ok [of c n] by (auto simp: sha224_final_def split: option.splits)

interpretation sha224_hash: stream_hash 64 "2 ^ 29" sha256_transform sha256_update sha256_state sha256_buf sha256_counts
  "md_pad 64 (be_bytes 8 \<circ> (*) 8)" "take 28 \<circ> sha256_digest" "map_option fst \<circ> sha224_final"
  by unfold_locales (simp add: sha224_final_ok)

section \<open>SHA-224 and SHA-256 of FIPS 180\<close>

definition fips_compress256 :: "u32 list \<Rightarrow> u8 list \<Rightarrow> u32 list" where
  "fips_compress256 H B =
     fips_compress 64
       (fips_line (\<lambda>x. word_rotr 2 x XOR word_rotr 13 x XOR word_rotr 22 x)
                  (\<lambda>x. word_rotr 6 x XOR word_rotr 11 x XOR word_rotr 25 x))
       fips_K256
       (fips_W (\<lambda>x. word_rotr 7 x XOR word_rotr 18 x XOR drop_bit 3 x)
               (\<lambda>x. word_rotr 17 x XOR word_rotr 19 x XOR drop_bit 10 x) (be32_to_cpu B)) H"

definition fips_IV224 :: "u32 list" where
  "fips_IV224 = [0xc1059ed8, 0x367cd507, 0x3070dd17, 0xf70e5939, 0xffc00b31, 0x68581511, 0x64f98fa7, 0xbefa4fa4]"

definition fips_IV256 :: "u32 list" where
  "fips_IV256 = [0x6a09e667, 0xbb67ae85, 0x3c6ef372, 0xa54ff53a, 0x510e527f, 0x9b05688c, 0x1f83d9ab, 0x5be0cd19]"

definition fips_sha256 :: "u8 list \<Rightarrow> u8 list" where
  "fips_sha256 m = md_hash 64 fips_compress256 fips_IV256 (md_pad 64 (be_bytes 8 \<circ> (*) 8))
     (concat \<circ> map cpu_to_be32_bytes) m"

definition fips_sha224 :: "u8 list \<Rightarrow> u8 list" where
  "fips_sha224 m = md_hash 64 fips_compress256 fips_IV224 (md_pad 64 (be_bytes 8 \<circ> (*) 8))
     (take 28 \<circ> concat \<circ> map cpu_to_be32_bytes) m"

lemma sha256_transform_spec: "sha256_transform = fips_compress256"
  by (intro ext) (simp add: sha256_transform_fips fips_compress256_def ror32_rotr
      sha256_e0_def [abs_def] sha256_e1_def [abs_def] sha256_s0_def [abs_def] sha256_s1_def [abs_def])

lemma length_fips_compress [simp]: "length (fips_compress n line K W H) = 8"
  by (simp add: fips_compress_def Let_def case_prod_beta)

lemma sha256_digest_map: "length s = 8 \<Longrightarrow> sha256_digest s = concat (map cpu_to_be32_bytes s)"
  unfolding sha256_digest_def by (intro arg_cong [where f = concat] nth_equalityI) (simp_all del: upt_rec_numeral)

lemma sha256_md_hash:
  assumes "length iv = 8"
  shows "md_hash 64 sha256_transform iv pad sha256_digest m = md_hash 64 fips_compress256 iv pad (concat \<circ> map cpu_to_be32_bytes) m"
    "md_hash 64 sha256_transform iv pad (take 28 \<circ> sha256_digest) m = md_hash 64 fips_compress256 iv pad (take 28 \<circ> concat \<circ> map cpu_to_be32_bytes) m"
  using length_absorb_state [of fips_compress256 8 iv 64 "m @ pad (length m)"] assms
  by (simp_all add: md_hash_def sha256_transform_spec sha256_digest_map fips_compress256_def)

lemma sha256_init_counts:
  "length (sha256_buf c) = 128 \<Longrightarrow> sha256_counts (sha256_init c) 0 \<and> sha256_counts (sha224_init c) 0"
  by (simp add: sha256_counts_def sha256_init_def sha224_init_def)

section \<open>Properties\<close>

text \<open>
  C32: sha256_update and sha224_final/sha256_final compute the SHA-256 and SHA-224 of FIPS 180:
  from a freshly initialised context, feeding a message in any pieces shorter than 2^29 bytes
  and finishing returns (no loop runs forever) the digest of the concatenated message, with
  the padding and the 64-bit length of the standard.
\<close>

theorem sha256_stream:
  assumes "length (sha256_buf c) = 128" "\<forall>d \<in> set ds. length d < 2 ^ 29"
  shows "digest sha256_update (map_option fst \<circ> sha256_final) (sha256_init c) ds = Some (fips_sha256 (concat ds)) \<and>
         digest sha256_update (map_option fst \<circ> sha224_final) (sha224_init c) ds = Some (fips_sha224 (concat ds))"
  using sha256_hash.digest_ok [of "sha256_init c" ds] sha224_hash.digest_ok [of "sha224_init c" ds]
    sha256_init_counts [OF assms(1)] assms(2)
  by (simp add: fips_sha256_def fips_sha224_def sha256_md_hash fips_IV256_def fips_IV224_def
      sha256_init_def sha224_init_def)

theorem sha256_stream_witness:
  "digest sha256_update (map_option fst \<circ> sha256_final)
     (sha256_init \<lparr>sha256_count = [7, 7], sha256_state = [], sha256_buf = replicate 128 0xff\<rparr>) [[0x61], [], [0x62, 0x63]] =
     Some (fips_sha256 [0x61, 0x62, 0x63])"
  using sha256_stream [of "\<lparr>sha256_count = [7, 7], sha256_state = [], sha256_buf = replicate 128 0xff\<rparr>" "[[0x61], [], [0x62, 0x63]]"]
  by simp

text \<open>
  C37: the bit counter of sha256_update loses the high bits of a long piece: after a first piece
  of 2^29 bytes, which is 2^32 bits, the counter stands at zero bits as for the empty message,
  because the number of bits reaches the high word only when the low word carries.
\<close>

theorem sha256_counter_loses_bits:
  assumes "length (sha256_buf c) = 128" "length d = 2 ^ 29"
  shows "\<exists>c'. sha256_update (sha256_init c) d (2 ^ 29) = Some c' \<and> sha256_count c' = [0, 0]"
proof -
  have z: "sha256_index [0, 0] = 0" "sha256_add_bits [0, 0] (2 ^ 29) = [0, 0]" "(64 :: u32) \<le> 2 ^ 29"
    by code_simp+
  have u: "unat (2 ^ 29 :: u32) = 2 ^ 29" by simp
  show ?thesis
    using block_update_full [of 64 64 64 0 "sha256_buf c" d "2 ^ 29" sha256_transform "sha256_state (sha256_init c)"]
      assms sha256_transform_prefix z u
    by (auto simp: sha256_update_def sha256_init_def Let_def)
qed

theorem sha256_counter_loses_bits_witness:
  "\<exists>c'. sha256_update (sha256_init \<lparr>sha256_count = [], sha256_state = [], sha256_buf = replicate 128 0\<rparr>)
     (replicate (2 ^ 29) 0) (2 ^ 29) = Some c' \<and> sha256_count c' = [0, 0]"
proof (rule sha256_counter_loses_bits)
  show "length (sha256_buf \<lparr>sha256_count = [], sha256_state = [], sha256_buf = replicate 128 0\<rparr>) = 128"
    by (simp only: sha256_ctx.select_convs length_replicate)
  show "length (replicate (2 ^ 29) (0 :: u8)) = 2 ^ 29" by (rule length_replicate)
qed

end
