(* ===== verification/Sha512.thy ===== *)
theory Sha512
  imports Sha256
begin

text \<open>
  SHA-384 and SHA-512 of crypto/sha512_generic.c: the transform on 64-bit words,
  whose loop runs over groups of eight rounds, the buffering with its four-word
  bit counter, and \<open>final\<close>.  The last property checks every constant of the SHA-2
  code against the rule of the standard.
\<close>

section \<open>64-bit words\<close>

definition be64_to_cpu :: "u8 list \<Rightarrow> nat \<Rightarrow> u64" where
  "be64_to_cpu p i = push_bit 32 (ucast (be32_to_cpu p (2 * i))) OR ucast (be32_to_cpu p (2 * i + 1))"

definition cpu_to_be64_bytes :: "u64 \<Rightarrow> u8 list" where
  "cpu_to_be64_bytes w = cpu_to_be32_bytes (ucast (drop_bit 32 w)) @ cpu_to_be32_bytes (ucast w)"

section \<open>The transform\<close>

record sha512_ctx =
  sha512_state :: "u64 list"
  sha512_count :: "u32 list"
  sha512_buf :: "u8 list"

definition sha512_Ch :: "u64 \<Rightarrow> u64 \<Rightarrow> u64 \<Rightarrow> u64" where
  "sha512_Ch x y z = z XOR (x AND (y XOR z))"

definition sha512_Maj :: "u64 \<Rightarrow> u64 \<Rightarrow> u64 \<Rightarrow> u64" where
  "sha512_Maj x y z = (x AND y) OR (z AND (x OR y))"

definition RORu64 :: "u64 \<Rightarrow> nat \<Rightarrow> u64" where
  "RORu64 x y = drop_bit y x OR push_bit (64 - y) x"

definition sha512_K :: "u64 list" where
  "sha512_K = concat [
     [0x428a2f98d728ae22, 0x7137449123ef65cd, 0xb5c0fbcfec4d3b2f],
     [0xe9b5dba58189dbbc, 0x3956c25bf348b538, 0x59f111f1b605d019],
     [0x923f82a4af194f9b, 0xab1c5ed5da6d8118, 0xd807aa98a3030242],
     [0x12835b0145706fbe, 0x243185be4ee4b28c, 0x550c7dc3d5ffb4e2],
     [0x72be5d74f27b896f, 0x80deb1fe3b1696b1, 0x9bdc06a725c71235],
     [0xc19bf174cf692694, 0xe49b69c19ef14ad2, 0xefbe4786384f25e3],
     [0xfc19dc68b8cd5b5, 0x240ca1cc77ac9c65, 0x2de92c6f592b0275],
     [0x4a7484aa6ea6e483, 0x5cb0a9dcbd41fbd4, 0x76f988da831153b5],
     [0x983e5152ee66dfab, 0xa831c66d2db43210, 0xb00327c898fb213f],
     [0xbf597fc7beef0ee4, 0xc6e00bf33da88fc2, 0xd5a79147930aa725],
     [0x6ca6351e003826f, 0x142929670a0e6e70, 0x27b70a8546d22ffc],
     [0x2e1b21385c26c926, 0x4d2c6dfc5ac42aed, 0x53380d139d95b3df],
     [0x650a73548baf63de, 0x766a0abb3c77b2a8, 0x81c2c92e47edaee6],
     [0x92722c851482353b, 0xa2bfe8a14cf10364, 0xa81a664bbc423001],
     [0xc24b8b70d0f89791, 0xc76c51a30654be30, 0xd192e819d6ef5218],
     [0xd69906245565a910, 0xf40e35855771202a, 0x106aa07032bbd1b8],
     [0x19a4c116b8d2d0c8, 0x1e376c085141ab53, 0x2748774cdf8eeb99],
     [0x34b0bcb5e19b48a8, 0x391c0cb3c5c95a63, 0x4ed8aa4ae3418acb],
     [0x5b9cca4f7763e373, 0x682e6ff3d6b2b8a3, 0x748f82ee5defb2fc],
     [0x78a5636f43172f60, 0x84c87814a1f0ab72, 0x8cc702081a6439ec],
     [0x90befffa23631e28, 0xa4506cebde82bde9, 0xbef9a3f7b2c67915],
     [0xc67178f2e372532b, 0xca273eceea26619c, 0xd186b8c721c0c207],
     [0xeada7dd6cde0eb1e, 0xf57d4f7fee6ed178, 0x6f067aa72176fba],
     [0xa637dc5a2c898a6, 0x113f9804bef90dae, 0x1b710b35131c471b],
     [0x28db77f523047d84, 0x32caab7b40c72493, 0x3c9ebe0a15c9bebc],
     [0x431d67c49c100d4c, 0x4cc5d4becb3e42b6, 0x597f299cfc657e2a],
     [0x5fcb6fab3ad6faec, 0x6c44198c4a475817]]"

definition sha512_e0 :: "u64 \<Rightarrow> u64" where
  "sha512_e0 x = RORu64 x 28 XOR RORu64 x 34 XOR RORu64 x 39"

definition sha512_e1 :: "u64 \<Rightarrow> u64" where
  "sha512_e1 x = RORu64 x 14 XOR RORu64 x 18 XOR RORu64 x 41"

definition sha512_s0 :: "u64 \<Rightarrow> u64" where
  "sha512_s0 x = RORu64 x 1 XOR RORu64 x 8 XOR drop_bit 7 x"

definition sha512_s1 :: "u64 \<Rightarrow> u64" where
  "sha512_s1 x = RORu64 x 19 XOR RORu64 x 61 XOR drop_bit 6 x"

definition sha512_LOAD_OP :: "u8 list \<Rightarrow> nat \<Rightarrow> u64 list \<Rightarrow> u64 list" where
  "sha512_LOAD_OP input I W = W[I := be64_to_cpu input I]"

definition sha512_BLEND_OP :: "nat \<Rightarrow> u64 list \<Rightarrow> u64 list" where
  "sha512_BLEND_OP I W =
     W[I := sha512_s1 (W ! (I - 2)) + W ! (I - 7) + sha512_s0 (W ! (I - 15)) + W ! (I - 16)]"

definition sha512_line :: "u64 \<Rightarrow> u64 \<Rightarrow> u64 regs \<Rightarrow> u64 \<times> u64" where
  "sha512_line k w = (\<lambda>(a, b, c, d, e, f, g, h).
     let t1 = h + sha512_e1 e + sha512_Ch e f g + k + w;
         t2 = sha512_e0 a + sha512_Maj a b c;
         d = d + t1;
         h = t1 + t2
     in (d, h))"

definition sha512_body :: "u64 list \<Rightarrow> nat \<Rightarrow> u64 regs \<Rightarrow> u64 regs" where
  "sha512_body W i = (
      sha2_R7 sha512_line (sha512_K ! (i + 7)) (W ! (i + 7)) \<circ>
      sha2_R6 sha512_line (sha512_K ! (i + 6)) (W ! (i + 6)) \<circ>
      sha2_R5 sha512_line (sha512_K ! (i + 5)) (W ! (i + 5)) \<circ>
      sha2_R4 sha512_line (sha512_K ! (i + 4)) (W ! (i + 4)) \<circ>
      sha2_R3 sha512_line (sha512_K ! (i + 3)) (W ! (i + 3)) \<circ>
      sha2_R2 sha512_line (sha512_K ! (i + 2)) (W ! (i + 2)) \<circ>
      sha2_R1 sha512_line (sha512_K ! (i + 1)) (W ! (i + 1)) \<circ>
      sha2_R0 sha512_line (sha512_K ! i) (W ! i))"

definition sha512_transform :: "u64 list \<Rightarrow> u8 list \<Rightarrow> u64 list" where
  "sha512_transform state input =
     (let W = replicate 80 0;
          W = fold (sha512_LOAD_OP input) [0..<16] W;
          W = fold sha512_BLEND_OP [16..<80] W;
          (a, b, c, d, e, f, g, h) = fold (\<lambda>j. sha512_body W (8 * j)) [0..<10]
            (state ! 0, state ! 1, state ! 2, state ! 3, state ! 4, state ! 5, state ! 6, state ! 7)
      in [state ! 0 + a, state ! 1 + b, state ! 2 + c, state ! 3 + d,
          state ! 4 + e, state ! 5 + f, state ! 6 + g, state ! 7 + h])"

section \<open>Initialisation, update and final\<close>

definition sha512_init :: "sha512_ctx \<Rightarrow> sha512_ctx" where
  "sha512_init sctx = sctx\<lparr>sha512_state :=
       [0x6a09e667f3bcc908, 0xbb67ae8584caa73b, 0x3c6ef372fe94f82b, 0xa54ff53a5f1d36f1,
        0x510e527fade682d1, 0x9b05688c2b3e6c1f, 0x1f83d9abfb41bd6b, 0x5be0cd19137e2179],
     sha512_count := [0, 0, 0, 0]\<rparr>"

definition sha384_init :: "sha512_ctx \<Rightarrow> sha512_ctx" where
  "sha384_init sctx = sctx\<lparr>sha512_state :=
       [0xcbbb9d5dc1059ed8, 0x629a292a367cd507, 0x9159015a3070dd17, 0x152fecd8f70e5939,
        0x67332667ffc00b31, 0x8eb44a8768581511, 0xdb0c2e0d64f98fa7, 0x47b5481dbefa4fa4],
     sha512_count := [0, 0, 0, 0]\<rparr>"

definition sha512_index :: "u32 list \<Rightarrow> u32" where
  "sha512_index cnt = drop_bit 3 (cnt ! 0) AND 0x7f"

definition sha512_add_bits :: "u32 list \<Rightarrow> u32 \<Rightarrow> u32 list" where
  "sha512_add_bits cnt len =
     (let c0 = cnt ! 0 + push_bit 3 len; c1 = cnt ! 1; c2 = cnt ! 2; c3 = cnt ! 3
      in if c0 < push_bit 3 len
         then let c1 = c1 + 1
              in if c1 < 1
                 then let c2 = c2 + 1
                      in if c2 < 1
                         then let c3 = c3 + 1 in [c0, c1 + drop_bit 29 len, c2, c3]
                         else [c0, c1 + drop_bit 29 len, c2, c3]
                 else [c0, c1 + drop_bit 29 len, c2, c3]
         else [c0, c1, c2, c3])"

definition sha512_update :: "sha512_ctx \<Rightarrow> u8 list \<Rightarrow> u32 \<Rightarrow> sha512_ctx option" where
  "sha512_update sctx data len =
     (let index = sha512_index (sha512_count sctx);
          cnt = sha512_add_bits (sha512_count sctx) len;
          part_len = 128 - index
      in if part_len \<le> len
         then let buf = put_blk (sha512_buf sctx) (unat index) (take (unat part_len) data);
                  state = sha512_transform (sha512_state sctx) buf
              in (case for_blocks sha512_transform 128 state data len part_len of
                    None \<Rightarrow> None
                  | Some (state, i) \<Rightarrow>
                      Some \<lparr>sha512_state = state, sha512_count = cnt,
                            sha512_buf = put_blk buf 0 (take (unat (len - i)) (drop (unat i) data))\<rparr>)
         else Some \<lparr>sha512_state = sha512_state sctx, sha512_count = cnt,
                    sha512_buf = put_blk (sha512_buf sctx) (unat index) (take (unat len) data)\<rparr>)"

definition sha512_digest :: "u64 list \<Rightarrow> u8 list" where
  "sha512_digest state = concat (map (\<lambda>i. cpu_to_be64_bytes (state ! i)) [0..<8])"

definition sha512_final :: "sha512_ctx \<Rightarrow> (u8 list \<times> sha512_ctx) option" where
  "sha512_final sctx =
     (let padding = 0x80 # replicate 127 0;
          bits = cpu_to_be32_bytes (sha512_count sctx ! 3) @ cpu_to_be32_bytes (sha512_count sctx ! 2) @
                 cpu_to_be32_bytes (sha512_count sctx ! 1) @ cpu_to_be32_bytes (sha512_count sctx ! 0);
          index = sha512_index (sha512_count sctx);
          pad_len = (if index < 112 then 112 - index else (128 + 112) - index)
      in case sha512_update sctx (take (unat pad_len) padding) pad_len of
           None \<Rightarrow> None
         | Some sctx \<Rightarrow>
             (case sha512_update sctx bits 16 of
                None \<Rightarrow> None
              | Some sctx \<Rightarrow>
                  Some (sha512_digest (sha512_state sctx),
                        \<lparr>sha512_state = replicate 8 0, sha512_count = replicate 4 0, sha512_buf = replicate 128 0\<rparr>)))"

definition sha384_final :: "sha512_ctx \<Rightarrow> (u8 list \<times> sha512_ctx) option" where
  "sha384_final sctx =
     (case sha512_final sctx of None \<Rightarrow> None | Some (D, sctx) \<Rightarrow> Some (take 48 D, sctx))"

section \<open>The transform against the standard\<close>

lemma sha512_line_fips: "sha512_line = fips_line sha512_e0 sha512_e1"
  by (simp add: fun_eq_iff sha512_line_def fips_line_def sha512_Ch_def sha512_Maj_def ch_fips maj_fips Let_def)

lemma sha512_body_fold:
  "sha512_body W i s = fold (\<lambda>t. sha2_rnd sha512_line (sha512_K ! t) (W ! t)) [i..<i + 8] s"
proof -
  have u: "[i..<i + 8] = [i, i + 1, i + 2, i + 3, i + 4, i + 5, i + 6, i + 7]"
    by (simp add: upt_rec)
  have "sha2_rot0 (sha512_body W i s) = fold (\<lambda>t. sha2_rnd sha512_line (sha512_K ! t) (W ! t)) [i..<i + 8] (sha2_rot0 s)"
    unfolding u by (simp add: sha512_body_def sha2_lines del: sha2_rot0)
  then show ?thesis by simp
qed

lemma sha512_rounds_fold:
  "fold (\<lambda>j. sha512_body W (8 * j)) [0..<n] s = fold (\<lambda>t. sha2_rnd sha512_line (sha512_K ! t) (W ! t)) [0..<8 * n] s"
proof (induction n)
  case (Suc n)
  have "[0..<8 * Suc n] = [0..<8 * n] @ [8 * n..<8 * n + 8]"
    using upt_add_eq_append [of 0 "8 * n" 8] by (simp add: add.commute)
  then show ?case using Suc by (simp add: sha512_body_fold)
qed simp

theorem sha512_transform_fips:
  "sha512_transform state input =
   fips_compress 80 (fips_line sha512_e0 sha512_e1) sha512_K
     (fips_W sha512_s0 sha512_s1 (be64_to_cpu input)) state"
proof -
  let ?W = "fold sha512_BLEND_OP [16..<80] (fold (sha512_LOAD_OP input) [0..<16] (replicate 80 0))"
  have W: "?W ! t = fips_W sha512_s0 sha512_s1 (be64_to_cpu input) t" if "t < 80" for t
    using that sha2_schedule [of 80 "replicate 80 0" t sha512_s1 sha512_s0 "be64_to_cpu input"]
    unfolding sha512_BLEND_OP_def [abs_def] sha512_LOAD_OP_def [abs_def] by (simp del: upt_rec_numeral)
  have "fold (\<lambda>j. sha512_body ?W (8 * j)) [0..<10] s = fold (\<lambda>t. sha2_rnd (fips_line sha512_e0 sha512_e1) (sha512_K ! t)
      (fips_W sha512_s0 sha512_s1 (be64_to_cpu input) t)) [0..<8 * 10] s" for s
    unfolding sha512_rounds_fold sha512_line_fips by (rule fold_cong_nth) (simp only: W)
  then show ?thesis
    by (simp add: sha512_transform_def fips_compress_def Let_def del: upt_rec_numeral)
qed

section \<open>The stream\<close>

definition sha512_words :: "nat \<Rightarrow> u32 list" where
  "sha512_words x = [of_nat x, of_nat (x div 2 ^ 32), of_nat (x div 2 ^ 32 div 2 ^ 32), of_nat (x div 2 ^ 32 div 2 ^ 32 div 2 ^ 32)]"

definition sha512_counts :: "sha512_ctx \<Rightarrow> nat \<Rightarrow> bool" where
  "sha512_counts c n \<longleftrightarrow>
     sha512_count c = sha512_words (8 * n) \<and> length (sha512_buf c) = 128"

lemma sha512_load_prefix:
  assumes "8 * n \<le> k"
  shows "fold (sha512_LOAD_OP (take k b)) [0..<n] W = fold (sha512_LOAD_OP b) [0..<n] W"
  using assms by (intro fold_cong) (auto simp: sha512_LOAD_OP_def be64_to_cpu_def be32_take_any)

lemma sha512_transform_prefix: "sha512_transform s b = sha512_transform s (take 128 b)"
  by (simp add: sha512_transform_def sha512_load_prefix del: upt_rec_numeral)

lemma sha512_index_ok: "sha512_counts c n \<Longrightarrow> unat (sha512_index (sha512_count c)) = n mod 128"
  using word_index [of 7 n] by (simp add: sha512_counts_def sha512_words_def sha512_index_def mask_eq_exp_minus_1)

lemma sha512_add_bits_ok:
  assumes "sha512_counts c n" "length d < 2 ^ 29"
  shows "sha512_add_bits (sha512_count c) (of_nat (length d)) = sha512_words (8 * (n + length d))"
proof -
  define x where "x = 8 * n"
  define y where "y = 8 * length d"
  have y: "y < 2 ^ 32" using assms(2) by (simp add: y_def)
  have e: "8 * (n + length d) = x + y" by (simp add: x_def y_def)
  note w = word_len [OF assms(2), folded y_def]
  have carry: "x div 2 ^ 32 div 2 ^ 32 = z \<Longrightarrow> (x div 2 ^ 32 + 1) div 2 ^ 32 = z + 1 \<longleftrightarrow> (of_nat (x div 2 ^ 32 + 1) :: u32) < 1"
    for x z :: nat using add_carry(1) [of 1 "x div 2 ^ 32"] by (simp del: of_nat_add)
  have stay: "\<not> (of_nat (x + 1) :: u32) < 1 \<Longrightarrow> (x + 1) div 2 ^ 32 = x div 2 ^ 32"
    and step: "(of_nat (x + 1) :: u32) < 1 \<Longrightarrow> (x + 1) div 2 ^ 32 = x div 2 ^ 32 + 1" for x :: nat
    using add_carry [of 1 x] by (auto simp del: of_nat_add)
  have c0: "(of_nat (x + y) :: u32) < of_nat y \<Longrightarrow> (x + y) div 2 ^ 32 = x div 2 ^ 32 + 1"
    "\<not> (of_nat (x + y) :: u32) < of_nat y \<Longrightarrow> (x + y) div 2 ^ 32 = x div 2 ^ 32"
    using add_carry [OF y, of x] by blast+
  have cnt: "sha512_count c = sha512_words x" using assms(1) by (simp add: sha512_counts_def x_def)
  show ?thesis
    unfolding e cnt sha512_add_bits_def sha512_words_def w Let_def
    using c0 step [of "x div 2 ^ 32"] stay [of "x div 2 ^ 32"]
      step [of "x div 2 ^ 32 div 2 ^ 32"] stay [of "x div 2 ^ 32 div 2 ^ 32"]
    by (auto simp: add.commute)
qed

lemma sha512_update_ok:
  assumes c: "sha512_counts c n" and d: "length d < 2 ^ 29"
  shows "\<exists>c'. sha512_update c d (of_nat (length d)) = Some c' \<and> sha512_counts c' (n + length d) \<and>
           (sha512_state c', take ((n + length d) mod 128) (sha512_buf c')) =
           absorb 128 sha512_transform (sha512_state c) (take (n mod 128) (sha512_buf c) @ d)"
proof -
  let ?len = "of_nat (length d) :: u32"
  define index where "index = sha512_index (sha512_count c)"
  have index: "unat index = n mod 128" using sha512_index_ok [OF c] by (simp add: index_def)
  have p: "unat (128 - index) = 128 - n mod 128"
    using index by (simp add: unat_sub word_le_nat_alt)
  have m: "(n mod 128 + length d) mod 128 = (n + length d) mod 128" by (simp add: mod_add_left_eq)
  note defs = sha512_update_def Let_def index_def [symmetric] sha512_add_bits_ok [OF c d] index p
  have b: "length (sha512_buf c) = 128" using c by (simp add: sha512_counts_def)
  show ?thesis
  proof (cases "128 - index \<le> ?len")
    case True
    then have full: "128 - n mod 128 \<le> length d" using p word_len [OF d] by (simp add: word_le_nat_alt)
    obtain s' i' buf' where "for_blocks sha512_transform 128
        (sha512_transform (sha512_state c) (put_blk (sha512_buf c) (n mod 128) (take (128 - n mod 128) d))) d ?len (128 - index) = Some (s', i')"
      "buf' = put_blk (put_blk (sha512_buf c) (n mod 128) (take (128 - n mod 128) d)) 0
         (take (unat (?len - i')) (drop (unat i') d))"
      "length buf' = 128"
      "(s', take ((n + length d) mod 128) buf') =
         absorb 128 sha512_transform (sha512_state c) (take (n mod 128) (sha512_buf c) @ d)"
      using block_update_full [of 128 128 "128 - index" "n mod 128" "sha512_buf c" d ?len sha512_transform "sha512_state c"]
        p full word_len [OF d] d b sha512_transform_prefix m by (auto simp: Let_def)
    then show ?thesis
      using True by (simp add: defs sha512_counts_def)
  next
    case False
    then have part: "n mod 128 + length d < 128" using p word_len [OF d] by (simp add: word_le_nat_alt)
    then show ?thesis
      using False b m word_len [OF d]
        block_update_part [of "n mod 128" d 128 "sha512_buf c" "sha512_state c" sha512_transform]
      by (simp add: defs sha512_counts_def)
  qed
qed

interpretation sha512: stream_update 128 "2 ^ 29" sha512_transform sha512_update sha512_state sha512_buf sha512_counts
  by unfold_locales (simp_all add: sha512_update_ok)

lemma sha512_words_bytes:
  "cpu_to_be32_bytes (sha512_words x ! 3) @ cpu_to_be32_bytes (sha512_words x ! 2) @
   cpu_to_be32_bytes (sha512_words x ! 1) @ cpu_to_be32_bytes (sha512_words x ! 0) = be_bytes 16 x"
proof -
  have p: "(256 :: nat) ^ 4 = 2 ^ 32" by simp
  have "be_bytes 4 (x div 2 ^ 32) @ be_bytes 4 x = be_bytes (4 + 4) x" for x
    using be_bytes_append [of 4 x 4] unfolding p .
  moreover have "be_bytes 4 (x div 2 ^ 32 div 2 ^ 32) @ be_bytes (4 + 4) x = be_bytes (4 + (4 + 4)) x" for x
    using be_bytes_append [of 4 x "4 + 4"] unfolding power_add p div_mult2_eq .
  moreover have "be_bytes 4 (x div 2 ^ 32 div 2 ^ 32 div 2 ^ 32) @ be_bytes (4 + (4 + 4)) x = be_bytes (4 + (4 + (4 + 4))) x" for x
    using be_bytes_append [of 4 x "4 + (4 + 4)"] unfolding power_add p div_mult2_eq .
  ultimately show ?thesis
    by (simp add: sha512_words_def be32_of_nat numeral_3_eq_3)
qed

lemma sha512_final_ok:
  assumes "sha512_counts c n"
  shows "map_option fst (sha512_final c) =
    Some (sha512_digest (fst (absorb 128 sha512_transform (sha512_state c)
      (take (n mod 128) (sha512_buf c) @ md_pad 128 (be_bytes 16 \<circ> (*) 8) n))))"
proof -
  define index where "index = sha512_index (sha512_count c)"
  have index: "unat index = n mod 128" using sha512_index_ok [OF assms] by (simp add: index_def)
  define pl where "pl = (if index < 112 then 112 - index else (128 + 112) - index)"
  have pl: "unat pl = Suc (md_zeros 128 16 n)"
    using index by (auto simp: pl_def md_zeros_split word_less_nat_alt unat_sub word_le_nat_alt)
  have bits: "cpu_to_be32_bytes (sha512_count c ! 3) @ cpu_to_be32_bytes (sha512_count c ! 2) @
      cpu_to_be32_bytes (sha512_count c ! 1) @ cpu_to_be32_bytes (sha512_count c ! 0) = be_bytes 16 (8 * n)"
    using assms by (simp only: sha512_counts_def sha512_words_bytes)
  obtain c1 c' where "sha512_update c (take (unat pl) (0x80 # replicate 127 0)) pl = Some c1"
    "sha512_update c1 (be_bytes 16 (8 * n)) 16 = Some c'"
    "sha512_state c' = fst (absorb 128 sha512_transform (sha512_state c) (take (n mod 128) (sha512_buf c) @ md_pad 128 (be_bytes 16 \<circ> (*) 8) n))"
    using sha512.pad_ok [OF assms, of "be_bytes 16 \<circ> (*) 8" pl] pl by auto
  then show ?thesis
    unfolding sha512_final_def Let_def index_def [symmetric] pl_def [symmetric] bits by simp
qed

interpretation sha512_hash: stream_hash 128 "2 ^ 29" sha512_transform sha512_update sha512_state sha512_buf sha512_counts
  "md_pad 128 (be_bytes 16 \<circ> (*) 8)" sha512_digest "map_option fst \<circ> sha512_final"
  by unfold_locales (simp add: sha512_final_ok)

lemma sha384_final_ok:
  "sha512_counts c n \<Longrightarrow> map_option fst (sha384_final c) =
    Some (take 48 (sha512_digest (fst (absorb 128 sha512_transform (sha512_state c)
      (take (n mod 128) (sha512_buf c) @ md_pad 128 (be_bytes 16 \<circ> (*) 8) n)))))"
  using sha512_final_ok [of c n] by (auto simp: sha384_final_def split: option.splits)

interpretation sha384_hash: stream_hash 128 "2 ^ 29" sha512_transform sha512_update sha512_state sha512_buf sha512_counts
  "md_pad 128 (be_bytes 16 \<circ> (*) 8)" "take 48 \<circ> sha512_digest" "map_option fst \<circ> sha384_final"
  by unfold_locales (simp add: sha384_final_ok)

section \<open>SHA-384 and SHA-512 of FIPS 180\<close>

definition fips_compress512 :: "u64 list \<Rightarrow> u8 list \<Rightarrow> u64 list" where
  "fips_compress512 H B =
     fips_compress 80
       (fips_line (\<lambda>x. word_rotr 28 x XOR word_rotr 34 x XOR word_rotr 39 x)
                  (\<lambda>x. word_rotr 14 x XOR word_rotr 18 x XOR word_rotr 41 x))
       sha512_K
       (fips_W (\<lambda>x. word_rotr 1 x XOR word_rotr 8 x XOR drop_bit 7 x)
               (\<lambda>x. word_rotr 19 x XOR word_rotr 61 x XOR drop_bit 6 x) (be64_to_cpu B)) H"

definition fips_IV384 :: "u64 list" where
  "fips_IV384 = [0xcbbb9d5dc1059ed8, 0x629a292a367cd507, 0x9159015a3070dd17, 0x152fecd8f70e5939,
     0x67332667ffc00b31, 0x8eb44a8768581511, 0xdb0c2e0d64f98fa7, 0x47b5481dbefa4fa4]"

definition fips_IV512 :: "u64 list" where
  "fips_IV512 = [0x6a09e667f3bcc908, 0xbb67ae8584caa73b, 0x3c6ef372fe94f82b, 0xa54ff53a5f1d36f1,
     0x510e527fade682d1, 0x9b05688c2b3e6c1f, 0x1f83d9abfb41bd6b, 0x5be0cd19137e2179]"

definition fips_sha512 :: "u8 list \<Rightarrow> u8 list" where
  "fips_sha512 m = md_hash 128 fips_compress512 fips_IV512 (md_pad 128 (be_bytes 16 \<circ> (*) 8))
     (concat \<circ> map cpu_to_be64_bytes) m"

definition fips_sha384 :: "u8 list \<Rightarrow> u8 list" where
  "fips_sha384 m = md_hash 128 fips_compress512 fips_IV384 (md_pad 128 (be_bytes 16 \<circ> (*) 8))
     (take 48 \<circ> concat \<circ> map cpu_to_be64_bytes) m"

lemma RORu64_rotr: "0 < k \<Longrightarrow> k < 64 \<Longrightarrow> RORu64 x k = word_rotr k x"
  using shifts_rotr [of k x] by (simp add: RORu64_def)

lemma sha512_transform_spec: "sha512_transform = fips_compress512"
  by (intro ext) (simp add: sha512_transform_fips fips_compress512_def RORu64_rotr
      sha512_e0_def [abs_def] sha512_e1_def [abs_def] sha512_s0_def [abs_def] sha512_s1_def [abs_def])

lemma sha512_digest_map: "length s = 8 \<Longrightarrow> sha512_digest s = concat (map cpu_to_be64_bytes s)"
  unfolding sha512_digest_def by (intro arg_cong [where f = concat] nth_equalityI) (simp_all del: upt_rec_numeral)

lemma sha512_md_hash:
  assumes "length iv = 8"
  shows "md_hash 128 sha512_transform iv pad sha512_digest m = md_hash 128 fips_compress512 iv pad (concat \<circ> map cpu_to_be64_bytes) m"
    "md_hash 128 sha512_transform iv pad (take 48 \<circ> sha512_digest) m = md_hash 128 fips_compress512 iv pad (take 48 \<circ> concat \<circ> map cpu_to_be64_bytes) m"
  using length_absorb_state [of fips_compress512 8 iv 128 "m @ pad (length m)"] assms
  by (simp_all add: md_hash_def sha512_transform_spec sha512_digest_map fips_compress512_def)

lemma sha512_init_counts:
  "length (sha512_buf c) = 128 \<Longrightarrow> sha512_counts (sha512_init c) 0 \<and> sha512_counts (sha384_init c) 0"
  by (simp add: sha512_counts_def sha512_words_def sha512_init_def sha384_init_def)

section \<open>Properties\<close>

text \<open>
  C33: sha512_update and sha384_final/sha512_final compute the SHA-512 and SHA-384 of FIPS 180:
  from a freshly initialised context, feeding a message in any pieces shorter than 2^29 bytes
  and finishing returns the digest of the concatenated message, with the padding and the
  128-bit length of the standard.
\<close>

theorem sha512_stream:
  assumes "length (sha512_buf c) = 128" "\<forall>d \<in> set ds. length d < 2 ^ 29"
  shows "digest sha512_update (map_option fst \<circ> sha512_final) (sha512_init c) ds = Some (fips_sha512 (concat ds)) \<and>
         digest sha512_update (map_option fst \<circ> sha384_final) (sha384_init c) ds = Some (fips_sha384 (concat ds))"
  using sha512_hash.digest_ok [of "sha512_init c" ds] sha384_hash.digest_ok [of "sha384_init c" ds]
    sha512_init_counts [OF assms(1)] assms(2)
  by (simp add: fips_sha512_def fips_sha384_def sha512_md_hash fips_IV512_def fips_IV384_def
      sha512_init_def sha384_init_def)

theorem sha512_stream_witness:
  "digest sha512_update (map_option fst \<circ> sha384_final)
     (sha384_init \<lparr>sha512_state = [], sha512_count = [7], sha512_buf = replicate 128 0xff\<rparr>) [[0x61], [], [0x62, 0x63]] =
     Some (fips_sha384 [0x61, 0x62, 0x63])"
  using sha512_stream [of "\<lparr>sha512_state = [], sha512_count = [7], sha512_buf = replicate 128 0xff\<rparr>" "[[0x61], [], [0x62, 0x63]]"]
  by simp

text \<open>
  C36: every constant of the SHA-2 code is the one that FIPS 180 prescribes.  The round constants
  of SHA-256 and SHA-512 are the first 32 and 64 bits of the fractional parts of the cube roots
  of the first 64 and 80 primes; the initial values of SHA-256 and SHA-512 are those of the
  square roots of the first eight primes, those of SHA-384 of the next eight, and those of
  SHA-224 are the low halves of those of SHA-384.
\<close>

theorem sha2_constants:
  "list_all2 (\<lambda>p k. frac_root 3 32 p (uint k)) (take 64 small_primes) fips_K256 \<and>
   list_all2 (\<lambda>p k. frac_root 3 64 p (uint k)) small_primes sha512_K \<and>
   list_all2 (\<lambda>p h. frac_root 2 32 p (uint h)) (take 8 small_primes) (sha256_state (sha256_init c)) \<and>
   list_all2 (\<lambda>p h. frac_root 2 64 p (uint h)) (take 8 small_primes) (sha512_state (sha512_init c')) \<and>
   list_all2 (\<lambda>p h. frac_root 2 64 p (uint h)) (take 8 (drop 8 small_primes)) (sha512_state (sha384_init c')) \<and>
   sha256_state (sha224_init c) = map ucast (sha512_state (sha384_init c'))"
proof -
  have "list_all2 (\<lambda>p k. frac_root 3 32 p (uint k)) (take 64 small_primes) fips_K256"
    and "list_all2 (\<lambda>p k. frac_root 3 64 p (uint k)) small_primes sha512_K"
    and "list_all2 (\<lambda>p h. frac_root 2 32 p (uint h)) (take 8 small_primes) fips_IV256"
    and "list_all2 (\<lambda>p h. frac_root 2 64 p (uint h)) (take 8 small_primes) fips_IV512"
    and "list_all2 (\<lambda>p h. frac_root 2 64 p (uint h)) (take 8 (drop 8 small_primes)) fips_IV384"
    and "fips_IV224 = map ucast fips_IV384"
    unfolding small_primes_eval by code_simp+
  moreover have "sha256_state (sha256_init c) = fips_IV256" "sha256_state (sha224_init c) = fips_IV224"
    "sha512_state (sha512_init c') = fips_IV512" "sha512_state (sha384_init c') = fips_IV384"
    by (simp_all add: sha256_init_def sha224_init_def sha512_init_def sha384_init_def fips_IV256_def fips_IV224_def fips_IV512_def fips_IV384_def)
  ultimately show ?thesis by simp
qed

end
