(* ===== verification/Sha1.thy ===== *)
theory Sha1
  imports Sha256
begin

text \<open>
  SHA-1: the transform of lib/sha1.c and the buffering of crypto/sha1_generic.c,
  whose \<open>update\<close> starts its \<open>do\<close> loop at minus the number of pending bytes.  The
  whole hash is the SHA-1 of FIPS 180.
\<close>

section \<open>The transform of lib/sha1.c\<close>

definition sha1_f1 :: "u32 \<Rightarrow> u32 \<Rightarrow> u32 \<Rightarrow> u32" where
  "sha1_f1 x y z = z XOR (x AND (y XOR z))"

definition sha1_f2 :: "u32 \<Rightarrow> u32 \<Rightarrow> u32 \<Rightarrow> u32" where
  "sha1_f2 x y z = x XOR y XOR z"

definition sha1_f3 :: "u32 \<Rightarrow> u32 \<Rightarrow> u32 \<Rightarrow> u32" where
  "sha1_f3 x y z = (x AND y) + (z AND (x XOR y))"

definition sha1_K1 :: u32 where "sha1_K1 = 0x5A827999"
definition sha1_K2 :: u32 where "sha1_K2 = 0x6ED9EBA1"
definition sha1_K3 :: u32 where "sha1_K3 = 0x8F1BBCDC"
definition sha1_K4 :: u32 where "sha1_K4 = 0xCA62C1D6"

definition sha1_round ::
    "(u32 \<Rightarrow> u32 \<Rightarrow> u32 \<Rightarrow> u32) \<Rightarrow> u32 \<Rightarrow> u32 list \<Rightarrow> nat \<Rightarrow> u32 \<times> u32 \<times> u32 \<times> u32 \<times> u32 \<Rightarrow> u32 \<times> u32 \<times> u32 \<times> u32 \<times> u32" where
  "sha1_round f K W i = (\<lambda>(a, b, c, d, e).
     let t = f b c d + K + rol32 a 5 + e + W ! i
     in (t, a, rol32 b 30, c, d))"

definition sha_transform :: "u32 list \<Rightarrow> u8 list \<Rightarrow> u32 list" where
  "sha_transform dig input =
     (let W = replicate 80 0;
          W = fold (\<lambda>i W. W[i := be32_to_cpu input i]) [0..<16] W;
          W = fold (\<lambda>i W. W[i + 16 := rol32 (W ! (i + 13) XOR W ! (i + 8) XOR W ! (i + 2) XOR W ! i) 1]) [0..<64] W;
          s = (dig ! 0, dig ! 1, dig ! 2, dig ! 3, dig ! 4);
          s = fold (sha1_round sha1_f1 sha1_K1 W) [0..<20] s;
          s = fold (sha1_round sha1_f2 sha1_K2 W) [20..<40] s;
          s = fold (sha1_round sha1_f3 sha1_K3 W) [40..<60] s;
          s = fold (sha1_round sha1_f2 sha1_K4 W) [60..<80] s;
          (a, b, c, d, e) = s
      in [dig ! 0 + a, dig ! 1 + b, dig ! 2 + c, dig ! 3 + d, dig ! 4 + e])"

definition sha_init :: "u32 list" where
  "sha_init = [0x67452301, 0xefcdab89, 0x98badcfe, 0x10325476, 0xc3d2e1f0]"

section \<open>Initialisation, update and final of crypto/sha1\_generic.c\<close>

record sha1_ctx =
  sha1_count :: u64
  sha1_state :: "u32 list"
  sha1_buffer :: "u8 list"

definition sha1_init :: "sha1_ctx \<Rightarrow> sha1_ctx" where
  "sha1_init sctx = \<lparr>sha1_count = 0,
     sha1_state = [0x67452301, 0xefcdab89, 0x98badcfe, 0x10325476, 0xc3d2e1f0],
     sha1_buffer = replicate 64 0\<rparr>"

text \<open>The \<open>do\<close> loop of \<open>sha1_update\<close>.  Its \<open>src\<close> is the buffer of the context in the first
  turn when bytes are pending, and \<open>data + done\<close> in all later ones.\<close>

partial_function (option) sha1_loop ::
    "u8 list \<Rightarrow> u32 \<Rightarrow> u32 list \<Rightarrow> u32 \<Rightarrow> u8 list \<Rightarrow> (u32 list \<times> u32 \<times> u8 list) option" where
  "sha1_loop data len state dn src =
     (let state = sha_transform state src;
          dn = dn + 64;
          src = drop (unat dn) data
      in if dn + 63 < len then sha1_loop data len state dn src else Some (state, dn, src))"

definition sha1_update :: "sha1_ctx \<Rightarrow> u8 list \<Rightarrow> u32 \<Rightarrow> sha1_ctx option" where
  "sha1_update sctx data len =
     (let partial = ucast (sha1_count sctx AND 0x3f) :: u32;
          cnt = sha1_count sctx + ucast len
      in if partial + len > 63
         then let (dn, buffer, src) =
                    (if partial \<noteq> 0
                     then let buffer = put_blk (sha1_buffer sctx) (unat partial) (take (unat (- partial + 64)) data)
                          in (- partial, buffer, buffer)
                     else (0, sha1_buffer sctx, data))
              in (case sha1_loop data len (sha1_state sctx) dn src of
                    None \<Rightarrow> None
                  | Some (state, dn, src) \<Rightarrow>
                      Some \<lparr>sha1_count = cnt, sha1_state = state,
                            sha1_buffer = put_blk buffer 0 (take (unat (len - dn)) src)\<rparr>)
         else Some \<lparr>sha1_count = cnt, sha1_state = sha1_state sctx,
                    sha1_buffer = put_blk (sha1_buffer sctx) (unat partial) (take (unat len) data)\<rparr>)"

definition sha1_digest :: "u32 list \<Rightarrow> u8 list" where
  "sha1_digest state = concat (map (\<lambda>i. cpu_to_be32_bytes (state ! i)) [0..<5])"

definition sha1_final :: "sha1_ctx \<Rightarrow> (u8 list \<times> sha1_ctx) option" where
  "sha1_final sctx =
     (let padding = 0x80 # replicate 63 0;
          bitlen = push_bit 3 (sha1_count sctx);
          bits = cpu_to_be32_bytes (ucast (drop_bit 32 bitlen)) @ cpu_to_be32_bytes (ucast bitlen);
          index = ucast (sha1_count sctx AND 0x3f) :: u32;
          padlen = (if index < 56 then 56 - index else (64 + 56) - index)
      in case sha1_update sctx (take (unat padlen) padding) padlen of
           None \<Rightarrow> None
         | Some sctx \<Rightarrow>
             (case sha1_update sctx bits 8 of
                None \<Rightarrow> None
              | Some sctx \<Rightarrow>
                  Some (sha1_digest (sha1_state sctx),
                        \<lparr>sha1_count = 0, sha1_state = replicate 5 0, sha1_buffer = replicate 64 0\<rparr>)))"

section \<open>The compression of FIPS 180\<close>

fun fips1_W :: "(nat \<Rightarrow> u32) \<Rightarrow> nat \<Rightarrow> u32" where
  "fips1_W M t =
     (if t < 16 then M t
      else word_rotl 1 (fips1_W M (t - 3) XOR fips1_W M (t - 8) XOR fips1_W M (t - 14) XOR fips1_W M (t - 16)))"

declare fips1_W.simps [simp del]

definition fips1_f :: "nat \<Rightarrow> u32 \<Rightarrow> u32 \<Rightarrow> u32 \<Rightarrow> u32" where
  "fips1_f t x y z =
     (if t < 20 then fips_ch x y z else if t < 40 then x XOR y XOR z
      else if t < 60 then fips_maj x y z else x XOR y XOR z)"

definition fips1_K :: "nat \<Rightarrow> u32" where
  "fips1_K t = (if t < 20 then 0x5A827999 else if t < 40 then 0x6ED9EBA1 else if t < 60 then 0x8F1BBCDC else 0xCA62C1D6)"

definition fips1_round :: "(nat \<Rightarrow> u32) \<Rightarrow> nat \<Rightarrow> u32 \<times> u32 \<times> u32 \<times> u32 \<times> u32 \<Rightarrow> u32 \<times> u32 \<times> u32 \<times> u32 \<times> u32" where
  "fips1_round W t = (\<lambda>(a, b, c, d, e).
     (word_rotl 5 a + fips1_f t b c d + e + fips1_K t + W t, a, word_rotl 30 b, c, d))"

definition fips1_compress :: "u32 list \<Rightarrow> u8 list \<Rightarrow> u32 list" where
  "fips1_compress H B =
     (let (a, b, c, d, e) = fold (fips1_round (fips1_W (be32_to_cpu B))) [0..<80] (H ! 0, H ! 1, H ! 2, H ! 3, H ! 4)
      in [H ! 0 + a, H ! 1 + b, H ! 2 + c, H ! 3 + d, H ! 4 + e])"

text \<open>The majority as a sum: its two terms have no common bit.\<close>

lemma sha1_f3_maj: "sha1_f3 x y z = fips_maj x y z"
proof -
  have "sha1_f3 x y z = (x AND y) OR (z AND (x XOR y))"
    unfolding sha1_f3_def by (intro disjunctive_add) (auto simp: bit_simps)
  also have "\<dots> = fips_maj x y z"
    by (intro bit_word_eqI) (auto simp: fips_maj_def bit_simps)
  finally show ?thesis .
qed

lemma sha1_blend:
  assumes "n + 16 \<le> length xs" "\<forall>t < 16. xs ! t = M t"
  shows "\<forall>t < n + 16. fold (\<lambda>i W. W[i + 16 := rol32 (W ! (i + 13) XOR W ! (i + 8) XOR W ! (i + 2) XOR W ! i) 1])
           [0..<n] xs ! t = fips1_W M t"
  using assms(1)
proof (induction n)
  case 0
  then show ?case using assms(2) by (simp add: fips1_W.simps)
next
  case (Suc n)
  let ?W = "fold (\<lambda>i W. W[i + 16 := rol32 (W ! (i + 13) XOR W ! (i + 8) XOR W ! (i + 2) XOR W ! i) 1]) [0..<n] xs"
  have l: "length ?W = length xs"
    by (rule fold_invariant [where I = "\<lambda>W. length W = length xs"]) auto
  have "fips1_W M (n + 16) = rol32 (?W ! (n + 13) XOR ?W ! (n + 8) XOR ?W ! (n + 2) XOR ?W ! n) 1"
    using Suc by (subst fips1_W.simps) (simp add: rol32_rotl add.commute)
  then show ?case
    using Suc l by (auto simp: nth_list_update less_Suc_eq)
qed

lemma sha1_rounds_fips:
  assumes "\<And>t. t \<in> set ts \<Longrightarrow> f = fips1_f t \<and> K = fips1_K t \<and> W ! t = Wf t"
  shows "fold (sha1_round f K W) ts s = fold (fips1_round Wf) ts s"
  using assms
  by (intro fold_cong) (auto simp: sha1_round_def fips1_round_def Let_def rol32_rotl fun_eq_iff ac_simps)

lemma sha1_rounds_split:
  "fold f [0..<80] s = fold f [60..<80] (fold f [40..<60] (fold f [20..<40] (fold f [0..<20] s)))"
proof -
  have "[0..<80] = [0..<20] @ [20..<40] @ [40..<60] @ [60..<80]" by code_simp
  then show ?thesis by (simp del: upt_rec_numeral)
qed

lemma sha1_functions:
  "t < 20 \<Longrightarrow> sha1_f1 = fips1_f t \<and> sha1_K1 = fips1_K t"
  "20 \<le> t \<Longrightarrow> t < 40 \<Longrightarrow> sha1_f2 = fips1_f t \<and> sha1_K2 = fips1_K t"
  "40 \<le> t \<Longrightarrow> t < 60 \<Longrightarrow> sha1_f3 = fips1_f t \<and> sha1_K3 = fips1_K t"
  "60 \<le> t \<Longrightarrow> sha1_f2 = fips1_f t \<and> sha1_K4 = fips1_K t"
  by (auto simp: fun_eq_iff fips1_f_def fips1_K_def sha1_f1_def sha1_f2_def sha1_f3_maj ch_fips
      sha1_K1_def sha1_K2_def sha1_K3_def sha1_K4_def)

lemma sha_transform_fips: "sha_transform = fips1_compress"
proof (intro ext)
  fix dig and input :: "u8 list"
  define W where "W = fold (\<lambda>i W. W[i + 16 := rol32 (W ! (i + 13) XOR W ! (i + 8) XOR W ! (i + 2) XOR W ! i) 1])
    [0..<64] (fold (\<lambda>i W. W[i := be32_to_cpu input i]) [0..<16] (replicate 80 0))"
  have W: "W ! t = fips1_W (be32_to_cpu input) t" if "t < 80" for t
    using that sha1_blend [of 64 "fold (\<lambda>i W. W[i := be32_to_cpu input i]) [0..<16] (replicate 80 0)" "be32_to_cpu input"]
      load_words [of 16 "replicate 80 0" _ "be32_to_cpu input"] unfolding W_def by (simp del: upt_rec_numeral)
  have r: "fold (sha1_round f K W) [a..<b] s = fold (fips1_round (fips1_W (be32_to_cpu input))) [a..<b] s"
    if "b \<le> 80" "\<And>t. a \<le> t \<Longrightarrow> t < b \<Longrightarrow> f = fips1_f t \<and> K = fips1_K t" for f K a b s
    using that W by (intro sha1_rounds_fips) auto
  have "fold (sha1_round sha1_f2 sha1_K4 W) [60..<80] (fold (sha1_round sha1_f3 sha1_K3 W) [40..<60]
      (fold (sha1_round sha1_f2 sha1_K2 W) [20..<40] (fold (sha1_round sha1_f1 sha1_K1 W) [0..<20] s))) =
      fold (fips1_round (fips1_W (be32_to_cpu input))) [0..<80] s" for s
    unfolding sha1_rounds_split
    using r [of 20 0 sha1_f1 sha1_K1] r [of 40 20 sha1_f2 sha1_K2] r [of 60 40 sha1_f3 sha1_K3] r [of 80 60 sha1_f2 sha1_K4]
    by (simp add: sha1_functions del: upt_rec_numeral)
  then show "sha_transform dig input = fips1_compress dig input"
    unfolding sha_transform_def fips1_compress_def Let_def W_def [symmetric] by (simp del: upt_rec_numeral)
qed

section \<open>The stream\<close>

definition sha1_counts :: "sha1_ctx \<Rightarrow> nat \<Rightarrow> bool" where
  "sha1_counts c n \<longleftrightarrow> sha1_count c = of_nat n \<and> length (sha1_buffer c) = 64"

lemma sha_transform_prefix: "sha_transform s b = sha_transform s (take 64 b)"
proof -
  have "fold (\<lambda>i W. W[i := be32_to_cpu b i]) [0..<16] W = fold (\<lambda>i W. W[i := be32_to_cpu (take 64 b) i]) [0..<16] W" for W
    by (intro fold_cong) (auto simp: be32_take_any)
  then show ?thesis by (simp add: sha_transform_def del: upt_rec_numeral)
qed

lemma sha1_loop_ok:
  assumes "length data = unat len" "unat len + 64 < 2 ^ 32" "unat (dn + 64) \<le> unat len"
  shows "\<exists>s' d'. sha1_loop data len s dn src = Some (s', d', drop (unat d') data) \<and> unat d' \<le> unat len \<and>
           absorb 64 sha_transform (sha_transform s src) (drop (unat (dn + 64)) data) = (s', drop (unat d') data)"
  using assms(3)
proof (induction "unat len - unat (dn + 64)" arbitrary: dn s src rule: less_induct)
  case less
  define e where "e = dn + 64"
  have le: "unat e \<le> unat len" using less.prems by (simp add: e_def)
  have u: "unat (e + 63) = unat e + 63" "unat (e + 64) = unat e + 64"
    using le assms(2) unat_add_lem [of e 63] unat_add_lem [of e 64] by simp_all
  show ?case
  proof (cases "e + 63 < len")
    case True
    then have l: "unat e + 64 \<le> unat len" using u by (simp add: word_less_nat_alt)
    then have dec: "unat len - (unat e + 64) < unat len - unat e" by linarith
    obtain s' d' where "sha1_loop data len (sha_transform s src) e (drop (unat e) data) = Some (s', d', drop (unat d') data)"
      "unat d' \<le> unat len"
      "absorb 64 sha_transform (sha_transform (sha_transform s src) (drop (unat e) data)) (drop (unat e + 64) data) = (s', drop (unat d') data)"
      using less.hyps [of e "sha_transform s src" "drop (unat e) data"] l u dec by (auto simp flip: e_def)
    moreover have "absorb 64 sha_transform (sha_transform s src) (drop (unat e) data) =
        absorb 64 sha_transform (sha_transform (sha_transform s src) (take 64 (drop (unat e) data))) (drop (unat e + 64) data)"
    proof -
      have "64 \<le> length (drop (unat e) data)" using l assms(1) by simp
      then show ?thesis by (subst absorb.simps) (simp add: add.commute)
    qed
    ultimately show ?thesis
      using True sha_transform_prefix [of "sha_transform s src" "drop (unat e) data"]
      by (subst sha1_loop.simps) (simp add: Let_def flip: e_def)
  next
    case False
    then have "length (drop (unat e) data) < 64" using u assms(1) by (simp add: word_less_nat_alt)
    then show ?thesis using False le by (subst sha1_loop.simps) (simp add: Let_def flip: e_def)
  qed
qed

lemma sha1_update_ok:
  assumes c: "sha1_counts c n" and d: "length d < 2 ^ 32 - 64"
  shows "\<exists>c'. sha1_update c d (of_nat (length d)) = Some c' \<and> sha1_counts c' (n + length d) \<and>
           (sha1_state c', take ((n + length d) mod 64) (sha1_buffer c')) =
           absorb 64 sha_transform (sha1_state c) (take (n mod 64) (sha1_buffer c) @ d)"
proof -
  define len where "len = (of_nat (length d) :: u32)"
  define k where "k = n mod 64"
  define p where "p = (ucast (sha1_count c AND 0x3f) :: u32)"
  have len: "unat len = length d" using d by (simp add: len_def unat_of_nat)
  have p: "unat p = k" using c pending_bytes(1) [of n] by (simp add: p_def k_def sha1_counts_def)
  have k: "k < 64" by (simp add: k_def)
  have b: "length (sha1_buffer c) = 64" using c by (simp add: sha1_counts_def)
  have cnt: "sha1_count c + ucast len = of_nat (n + length d)"
    using c d byte_count_add [of "length d" n] by (simp add: sha1_counts_def len_def)
  have pl: "unat (p + len) = k + length d"
    using p k len d unat_add_lem [of p len] by simp
  have m: "(k + length d) mod 64 = (n + length d) mod 64" by (simp add: k_def mod_add_left_eq)
  note defs = sha1_update_def Let_def p_def [symmetric] len_def [symmetric] cnt
  show ?thesis
  proof (cases "p + len > 63")
    case False
    then have "k + length d < 64" using pl by (simp add: word_less_nat_alt)
    then show ?thesis
      using False b m len p block_update_part [of k d 64 "sha1_buffer c" "sha1_state c" sha_transform]
      unfolding defs by (simp add: sha1_counts_def flip: k_def)
  next
    case True
    then have full: "64 - k \<le> length d" using pl by (simp add: word_less_nat_alt)
    define dn where "dn = - p"
    define buf where "buf = (if p \<noteq> 0 then put_blk (sha1_buffer c) k (take (64 - k) d) else sha1_buffer c)"
    define src where "src = (if p \<noteq> 0 then buf else d)"
    have pz: "p = 0 \<longleftrightarrow> k = 0" using p unat_eq_0 [of p] by simp
    have "dn + 64 = 64 - p" by (simp add: dn_def)
    then have dn: "unat (dn + 64) = 64 - k" using p k by (simp add: unat_sub word_le_nat_alt)
    have lb: "length buf = 64" using b k full by (simp add: buf_def)
    have src: "take 64 src = take k (sha1_buffer c) @ take (64 - k) d"
    proof (cases "p = 0")
      case False
      then show ?thesis using b k full by (simp add: src_def buf_def put_blk_def)
    qed (simp add: src_def pz)
    obtain s' d' where l: "sha1_loop d len (sha1_state c) dn src = Some (s', d', drop (unat d') d)" "unat d' \<le> unat len"
      "absorb 64 sha_transform (sha_transform (sha1_state c) src) (drop (64 - k) d) = (s', drop (unat d') d)"
      using sha1_loop_ok [of d len dn "sha1_state c" src] len d full dn by auto
    have a: "absorb 64 sha_transform (sha1_state c) (take k (sha1_buffer c) @ d) = (s', drop (unat d') d)"
      using absorb_fill [of "take k (sha1_buffer c)" 64 d sha_transform "sha1_state c"] k b full l(3)
        sha_transform_prefix [of "sha1_state c" src] by (simp add: src)
    have r: "length (drop (unat d') d) = (n + length d) mod 64"
      using absorb_rest [of 64 sha_transform "sha1_state c" "take k (sha1_buffer c) @ d"] a b k m by simp
    have i: "take (unat (len - d')) (drop (unat d') d) = drop (unat d') d"
      using l(2) len by (simp add: unat_sub word_le_nat_alt)
    have rl: "length (drop (unat d') d) \<le> length buf" using r lb by simp
    have pb: "length (put_blk buf 0 (drop (unat d') d)) = 64"
      using rl lb length_put_blk [of 0 "drop (unat d') d" buf] by simp
    have "take (length (drop (unat d') d)) (put_blk buf 0 (drop (unat d') d)) = take 0 buf @ drop (unat d') d"
      using rl by (intro take_put_blk) (simp_all only: add_0)
    then have tk: "take ((n + length d) mod 64) (put_blk buf 0 (drop (unat d') d)) = drop (unat d') d"
      by (simp only: r take_0 append_Nil)
    have choice: "(if p \<noteq> 0 then (- p, put_blk (sha1_buffer c) (unat p) (take (unat (- p + 64)) d), put_blk (sha1_buffer c) (unat p) (take (unat (- p + 64)) d))
        else (0, sha1_buffer c, d)) = (dn, buf, src)"
      using p dn by (simp add: buf_def src_def dn_def)
    show ?thesis
      using True l(1) a i pb tk unfolding defs
      by (simp add: choice sha1_counts_def flip: k_def)
  qed
qed

interpretation sha1: stream_update 64 "2 ^ 32 - 64" sha_transform sha1_update sha1_state sha1_buffer sha1_counts
  by unfold_locales (simp_all add: sha1_update_ok)

lemma sha1_bits:
  "cpu_to_be32_bytes (ucast (drop_bit 32 (push_bit 3 (of_nat n :: u64)))) @ cpu_to_be32_bytes (ucast (push_bit 3 (of_nat n :: u64))) =
   be_bytes 8 (8 * n)"
proof -
  have p: "push_bit 3 (of_nat n :: u64) = of_nat (8 * n)" by (simp add: push_bit_eq_mult)
  have "ucast (of_nat x :: u64) = (of_nat x :: u32)" for x :: nat
    by (intro bit_word_eqI) (auto simp: bit_ucast_iff bit_word_of_nat)
  moreover have "ucast (drop_bit 32 (of_nat x :: u64)) = (of_nat (x div 2 ^ 32) :: u32)" for x :: nat
    unfolding drop_bit_eq_div [symmetric] by (intro bit_word_eqI) (auto simp: bit_simps bit_word_of_nat simp del: drop_bit_eq_div)
  ultimately show ?thesis
    unfolding p using be_bytes_append [of 4 "8 * n" 4] by (simp only: be32_of_nat) simp
qed

lemma sha1_final_ok:
  assumes "sha1_counts c n"
  shows "map_option fst (sha1_final c) =
    Some (sha1_digest (fst (absorb 64 sha_transform (sha1_state c)
      (take (n mod 64) (sha1_buffer c) @ md_pad 64 (be_bytes 8 \<circ> (*) 8) n))))"
proof -
  define index where "index = (ucast (sha1_count c AND 0x3f) :: u32)"
  have index: "unat index = n mod 64"
    using assms pending_bytes(1) [of n] by (simp add: index_def sha1_counts_def)
  define pl where "pl = (if index < 56 then 56 - index else (64 + 56) - index)"
  have pl: "unat pl = Suc (md_zeros 64 8 n)"
    using index by (auto simp: pl_def md_zeros_split word_less_nat_alt unat_sub word_le_nat_alt)
  have bits: "cpu_to_be32_bytes (ucast (drop_bit 32 (push_bit 3 (sha1_count c)))) @ cpu_to_be32_bytes (ucast (push_bit 3 (sha1_count c))) =
      be_bytes 8 (8 * n)"
    using assms by (simp only: sha1_counts_def sha1_bits)
  obtain c1 c' where "sha1_update c (take (unat pl) (0x80 # replicate 63 0)) pl = Some c1"
    "sha1_update c1 (be_bytes 8 (8 * n)) 8 = Some c'"
    "sha1_state c' = fst (absorb 64 sha_transform (sha1_state c) (take (n mod 64) (sha1_buffer c) @ md_pad 64 (be_bytes 8 \<circ> (*) 8) n))"
    using sha1.pad_ok [OF assms, of "be_bytes 8 \<circ> (*) 8" pl] pl by auto
  then show ?thesis
    unfolding sha1_final_def Let_def index_def [symmetric] pl_def [symmetric] bits by simp
qed

interpretation sha1_hash: stream_hash 64 "2 ^ 32 - 64" sha_transform sha1_update sha1_state sha1_buffer sha1_counts
  "md_pad 64 (be_bytes 8 \<circ> (*) 8)" sha1_digest "map_option fst \<circ> sha1_final"
  by unfold_locales (simp add: sha1_final_ok)

definition fips_sha1 :: "u8 list \<Rightarrow> u8 list" where
  "fips_sha1 m = md_hash 64 fips1_compress [0x67452301, 0xefcdab89, 0x98badcfe, 0x10325476, 0xc3d2e1f0]
     (md_pad 64 (be_bytes 8 \<circ> (*) 8)) (concat \<circ> map cpu_to_be32_bytes) m"

lemma length_fips1_compress [simp]: "length (fips1_compress H B) = 5"
  by (simp add: fips1_compress_def Let_def case_prod_beta del: upt_rec_numeral)

lemma sha1_digest_map: "length s = 5 \<Longrightarrow> sha1_digest s = concat (map cpu_to_be32_bytes s)"
  unfolding sha1_digest_def by (intro arg_cong [where f = concat] nth_equalityI) (simp_all del: upt_rec_numeral)

section \<open>Properties\<close>

text \<open>
  C34: sha1_init, sha1_update and sha1_final compute the SHA-1 of FIPS 180: from any context,
  feeding a message in pieces of at most 2^32 - 65 bytes and finishing returns the digest of the
  concatenated message.  The do loop of the update ends, and the arithmetic that starts it at
  minus the number of pending bytes addresses exactly the bytes that follow the completed block.
\<close>

theorem sha1_stream:
  assumes "\<forall>d \<in> set ds. length d < 2 ^ 32 - 64"
  shows "digest sha1_update (map_option fst \<circ> sha1_final) (sha1_init c) ds = Some (fips_sha1 (concat ds))"
proof -
  have "sha1_counts (sha1_init c) 0" by (simp add: sha1_counts_def sha1_init_def)
  moreover have "length (fst (absorb 64 fips1_compress [0x67452301, 0xefcdab89, 0x98badcfe, 0x10325476, 0xc3d2e1f0] m)) = 5" for m
    by (rule length_absorb_state) simp_all
  ultimately show ?thesis
    using sha1_hash.digest_ok [of "sha1_init c" ds] assms
    by (simp add: fips_sha1_def md_hash_def sha_transform_fips sha1_digest_map sha1_init_def)
qed

theorem sha1_stream_witness:
  "digest sha1_update (map_option fst \<circ> sha1_final)
     (sha1_init \<lparr>sha1_count = 5, sha1_state = [], sha1_buffer = []\<rparr>) [[0x61], [], replicate 100 0x62] =
     Some (fips_sha1 ([0x61] @ replicate 100 0x62))"
  using sha1_stream [of "[[0x61], [], replicate 100 0x62]"] by simp

text \<open>
  The bound on the pieces is needed, since \<open>partial + len\<close> wraps: with one byte pending, an update of the
  largest length, 2^32 - 1, makes the test \<open>partial + len > 63\<close> false, so no block is hashed
  and the state keeps its value, while the copy that follows writes the whole input after the
  pending byte of the 64-byte buffer.
\<close>

lemma sha1_length_wraps:
  assumes "sha1_count c = 1" "length (sha1_buffer c) = 64" "length d = 2 ^ 32 - 1"
  shows "\<exists>c'. sha1_update c d (2 ^ 32 - 1) = Some c' \<and> sha1_state c' = sha1_state c \<and>
           length (sha1_buffer c') = 2 ^ 32"
proof -
  have w: "(ucast (1 AND 0x3f :: u64) :: u32) = 1" "(2 ^ 32 - 1 :: u32) = - 1" by code_simp+
  have u: "unat (- 1 :: u32) = 2 ^ 32 - 1" by (simp add: unsigned_minus_1_eq_mask mask_eq_exp_minus_1)
  show ?thesis
    unfolding w(2) using assms by (simp add: sha1_update_def Let_def w u put_blk_def)
qed

end
