(* ===== verification/MdHash.thy ===== *)
theory MdHash
  imports HashStream
begin

text \<open>
  MD4 and MD5 of crypto/md4.c and crypto/md5.c: the unrolled transforms, checked
  step by step against RFC 1320 and RFC 1321, and the common text of \<open>update\<close>
  and \<open>final\<close>.
\<close>

section \<open>Register lines\<close>

type_synonym md_regs = "u32 \<times> u32 \<times> u32 \<times> u32"

text \<open>The transforms name their registers in rotating roles: a step updates the register in
  the first role from all four.\<close>

definition md_R0 :: "(u32 \<Rightarrow> u32 \<Rightarrow> u32 \<Rightarrow> u32 \<Rightarrow> u32) \<Rightarrow> md_regs \<Rightarrow> md_regs" where
  "md_R0 op = (\<lambda>(a, b, c, d). let a = op a b c d in (a, b, c, d))"

definition md_R1 :: "(u32 \<Rightarrow> u32 \<Rightarrow> u32 \<Rightarrow> u32 \<Rightarrow> u32) \<Rightarrow> md_regs \<Rightarrow> md_regs" where
  "md_R1 op = (\<lambda>(a, b, c, d). let d = op d a b c in (a, b, c, d))"

definition md_R2 :: "(u32 \<Rightarrow> u32 \<Rightarrow> u32 \<Rightarrow> u32 \<Rightarrow> u32) \<Rightarrow> md_regs \<Rightarrow> md_regs" where
  "md_R2 op = (\<lambda>(a, b, c, d). let c = op c d a b in (a, b, c, d))"

definition md_R3 :: "(u32 \<Rightarrow> u32 \<Rightarrow> u32 \<Rightarrow> u32 \<Rightarrow> u32) \<Rightarrow> md_regs \<Rightarrow> md_regs" where
  "md_R3 op = (\<lambda>(a, b, c, d). let b = op b c d a in (a, b, c, d))"

definition md_rnd :: "(u32 \<Rightarrow> u32 \<Rightarrow> u32 \<Rightarrow> u32 \<Rightarrow> u32) \<Rightarrow> md_regs \<Rightarrow> md_regs" where
  "md_rnd op = (\<lambda>(a, b, c, d). (d, op a b c d, b, c))"

definition md_rot0 :: "md_regs \<Rightarrow> md_regs" where
  "md_rot0 = (\<lambda>(a, b, c, d). (a, b, c, d))"

definition md_rot1 :: "md_regs \<Rightarrow> md_regs" where
  "md_rot1 = (\<lambda>(a, b, c, d). (d, a, b, c))"

definition md_rot2 :: "md_regs \<Rightarrow> md_regs" where
  "md_rot2 = (\<lambda>(a, b, c, d). (c, d, a, b))"

definition md_rot3 :: "md_regs \<Rightarrow> md_regs" where
  "md_rot3 = (\<lambda>(a, b, c, d). (b, c, d, a))"

lemma md_rot0 [simp]: "md_rot0 s = s"
  by (simp add: md_rot0_def case_prod_beta)

lemma md_lines:
  "md_rnd op (md_rot0 s) = md_rot1 (md_R0 op s)"
  "md_rnd op (md_rot1 s) = md_rot2 (md_R1 op s)"
  "md_rnd op (md_rot2 s) = md_rot3 (md_R2 op s)"
  "md_rnd op (md_rot3 s) = md_rot0 (md_R3 op s)"
  by (simp_all add: md_rnd_def case_prod_beta Let_def
      md_rot0_def md_R0_def md_rot1_def md_R1_def md_rot2_def md_R2_def md_rot3_def md_R3_def)

section \<open>MD4\<close>

definition lshift :: "u32 \<Rightarrow> nat \<Rightarrow> u32" where
  "lshift x s = (let x = x AND 0xFFFFFFFF in (push_bit s x AND 0xFFFFFFFF) OR drop_bit (32 - s) x)"

definition md4_F :: "u32 \<Rightarrow> u32 \<Rightarrow> u32 \<Rightarrow> u32" where
  "md4_F x y z = (x AND y) OR (NOT x AND z)"

definition md4_G :: "u32 \<Rightarrow> u32 \<Rightarrow> u32 \<Rightarrow> u32" where
  "md4_G x y z = (x AND y) OR (x AND z) OR (y AND z)"

definition md4_H :: "u32 \<Rightarrow> u32 \<Rightarrow> u32 \<Rightarrow> u32" where
  "md4_H x y z = x XOR y XOR z"

definition md4_ROUND1 :: "u32 \<Rightarrow> nat \<Rightarrow> u32 \<Rightarrow> u32 \<Rightarrow> u32 \<Rightarrow> u32 \<Rightarrow> u32" where
  "md4_ROUND1 k s a b c d = lshift (a + md4_F b c d + k) s"

definition md4_ROUND2 :: "u32 \<Rightarrow> nat \<Rightarrow> u32 \<Rightarrow> u32 \<Rightarrow> u32 \<Rightarrow> u32 \<Rightarrow> u32" where
  "md4_ROUND2 k s a b c d = lshift (a + md4_G b c d + k + 0x5A827999) s"

definition md4_ROUND3 :: "u32 \<Rightarrow> nat \<Rightarrow> u32 \<Rightarrow> u32 \<Rightarrow> u32 \<Rightarrow> u32 \<Rightarrow> u32" where
  "md4_ROUND3 k s a b c d = lshift (a + md4_H b c d + k + 0x6ED9EBA1) s"

definition md4_steps :: "u32 list \<Rightarrow> md_regs \<Rightarrow> md_regs" where
  "md4_steps inp =
       (md_R3 (md4_ROUND3 (inp ! 15) 15) \<circ>
        md_R2 (md4_ROUND3 (inp ! 7) 11) \<circ>
        md_R1 (md4_ROUND3 (inp ! 11) 9) \<circ>
        md_R0 (md4_ROUND3 (inp ! 3) 3) \<circ>
        md_R3 (md4_ROUND3 (inp ! 13) 15) \<circ>
        md_R2 (md4_ROUND3 (inp ! 5) 11) \<circ>
        md_R1 (md4_ROUND3 (inp ! 9) 9) \<circ>
        md_R0 (md4_ROUND3 (inp ! 1) 3) \<circ>
        md_R3 (md4_ROUND3 (inp ! 14) 15) \<circ>
        md_R2 (md4_ROUND3 (inp ! 6) 11) \<circ>
        md_R1 (md4_ROUND3 (inp ! 10) 9) \<circ>
        md_R0 (md4_ROUND3 (inp ! 2) 3) \<circ>
        md_R3 (md4_ROUND3 (inp ! 12) 15) \<circ>
        md_R2 (md4_ROUND3 (inp ! 4) 11) \<circ>
        md_R1 (md4_ROUND3 (inp ! 8) 9) \<circ>
        md_R0 (md4_ROUND3 (inp ! 0) 3) \<circ>
        md_R3 (md4_ROUND2 (inp ! 15) 13) \<circ>
        md_R2 (md4_ROUND2 (inp ! 11) 9) \<circ>
        md_R1 (md4_ROUND2 (inp ! 7) 5) \<circ>
        md_R0 (md4_ROUND2 (inp ! 3) 3) \<circ>
        md_R3 (md4_ROUND2 (inp ! 14) 13) \<circ>
        md_R2 (md4_ROUND2 (inp ! 10) 9) \<circ>
        md_R1 (md4_ROUND2 (inp ! 6) 5) \<circ>
        md_R0 (md4_ROUND2 (inp ! 2) 3) \<circ>
        md_R3 (md4_ROUND2 (inp ! 13) 13) \<circ>
        md_R2 (md4_ROUND2 (inp ! 9) 9) \<circ>
        md_R1 (md4_ROUND2 (inp ! 5) 5) \<circ>
        md_R0 (md4_ROUND2 (inp ! 1) 3) \<circ>
        md_R3 (md4_ROUND2 (inp ! 12) 13) \<circ>
        md_R2 (md4_ROUND2 (inp ! 8) 9) \<circ>
        md_R1 (md4_ROUND2 (inp ! 4) 5) \<circ>
        md_R0 (md4_ROUND2 (inp ! 0) 3) \<circ>
        md_R3 (md4_ROUND1 (inp ! 15) 19) \<circ>
        md_R2 (md4_ROUND1 (inp ! 14) 11) \<circ>
        md_R1 (md4_ROUND1 (inp ! 13) 7) \<circ>
        md_R0 (md4_ROUND1 (inp ! 12) 3) \<circ>
        md_R3 (md4_ROUND1 (inp ! 11) 19) \<circ>
        md_R2 (md4_ROUND1 (inp ! 10) 11) \<circ>
        md_R1 (md4_ROUND1 (inp ! 9) 7) \<circ>
        md_R0 (md4_ROUND1 (inp ! 8) 3) \<circ>
        md_R3 (md4_ROUND1 (inp ! 7) 19) \<circ>
        md_R2 (md4_ROUND1 (inp ! 6) 11) \<circ>
        md_R1 (md4_ROUND1 (inp ! 5) 7) \<circ>
        md_R0 (md4_ROUND1 (inp ! 4) 3) \<circ>
        md_R3 (md4_ROUND1 (inp ! 3) 19) \<circ>
        md_R2 (md4_ROUND1 (inp ! 2) 11) \<circ>
        md_R1 (md4_ROUND1 (inp ! 1) 7) \<circ>
        md_R0 (md4_ROUND1 (inp ! 0) 3))"

definition md4_transform :: "u32 list \<Rightarrow> u32 list \<Rightarrow> u32 list" where
  "md4_transform hash inp =
     (let (a, b, c, d) = md4_steps inp (hash ! 0, hash ! 1, hash ! 2, hash ! 3)
      in [hash ! 0 + a, hash ! 1 + b, hash ! 2 + c, hash ! 3 + d])"

section \<open>MD5\<close>

definition md5_F1 :: "u32 \<Rightarrow> u32 \<Rightarrow> u32 \<Rightarrow> u32" where
  "md5_F1 x y z = z XOR (x AND (y XOR z))"

definition md5_F2 :: "u32 \<Rightarrow> u32 \<Rightarrow> u32 \<Rightarrow> u32" where
  "md5_F2 x y z = md5_F1 z x y"

definition md5_F3 :: "u32 \<Rightarrow> u32 \<Rightarrow> u32 \<Rightarrow> u32" where
  "md5_F3 x y z = x XOR y XOR z"

definition md5_F4 :: "u32 \<Rightarrow> u32 \<Rightarrow> u32 \<Rightarrow> u32" where
  "md5_F4 x y z = y XOR (x OR NOT z)"

definition md5_STEP :: "(u32 \<Rightarrow> u32 \<Rightarrow> u32 \<Rightarrow> u32) \<Rightarrow> u32 \<Rightarrow> nat \<Rightarrow> u32 \<Rightarrow> u32 \<Rightarrow> u32 \<Rightarrow> u32 \<Rightarrow> u32" where
  "md5_STEP f inp s w x y z =
     (let w = w + (f x y z + inp) in (push_bit s w OR drop_bit (32 - s) w) + x)"

definition md5_steps :: "u32 list \<Rightarrow> md_regs \<Rightarrow> md_regs" where
  "md5_steps inp =
       (md_R3 (md5_STEP md5_F4 (inp ! 9 + 0xeb86d391) 21) \<circ>
        md_R2 (md5_STEP md5_F4 (inp ! 2 + 0x2ad7d2bb) 15) \<circ>
        md_R1 (md5_STEP md5_F4 (inp ! 11 + 0xbd3af235) 10) \<circ>
        md_R0 (md5_STEP md5_F4 (inp ! 4 + 0xf7537e82) 6) \<circ>
        md_R3 (md5_STEP md5_F4 (inp ! 13 + 0x4e0811a1) 21) \<circ>
        md_R2 (md5_STEP md5_F4 (inp ! 6 + 0xa3014314) 15) \<circ>
        md_R1 (md5_STEP md5_F4 (inp ! 15 + 0xfe2ce6e0) 10) \<circ>
        md_R0 (md5_STEP md5_F4 (inp ! 8 + 0x6fa87e4f) 6) \<circ>
        md_R3 (md5_STEP md5_F4 (inp ! 1 + 0x85845dd1) 21) \<circ>
        md_R2 (md5_STEP md5_F4 (inp ! 10 + 0xffeff47d) 15) \<circ>
        md_R1 (md5_STEP md5_F4 (inp ! 3 + 0x8f0ccc92) 10) \<circ>
        md_R0 (md5_STEP md5_F4 (inp ! 12 + 0x655b59c3) 6) \<circ>
        md_R3 (md5_STEP md5_F4 (inp ! 5 + 0xfc93a039) 21) \<circ>
        md_R2 (md5_STEP md5_F4 (inp ! 14 + 0xab9423a7) 15) \<circ>
        md_R1 (md5_STEP md5_F4 (inp ! 7 + 0x432aff97) 10) \<circ>
        md_R0 (md5_STEP md5_F4 (inp ! 0 + 0xf4292244) 6) \<circ>
        md_R3 (md5_STEP md5_F3 (inp ! 2 + 0xc4ac5665) 23) \<circ>
        md_R2 (md5_STEP md5_F3 (inp ! 15 + 0x1fa27cf8) 16) \<circ>
        md_R1 (md5_STEP md5_F3 (inp ! 12 + 0xe6db99e5) 11) \<circ>
        md_R0 (md5_STEP md5_F3 (inp ! 9 + 0xd9d4d039) 4) \<circ>
        md_R3 (md5_STEP md5_F3 (inp ! 6 + 0x4881d05) 23) \<circ>
        md_R2 (md5_STEP md5_F3 (inp ! 3 + 0xd4ef3085) 16) \<circ>
        md_R1 (md5_STEP md5_F3 (inp ! 0 + 0xeaa127fa) 11) \<circ>
        md_R0 (md5_STEP md5_F3 (inp ! 13 + 0x289b7ec6) 4) \<circ>
        md_R3 (md5_STEP md5_F3 (inp ! 10 + 0xbebfbc70) 23) \<circ>
        md_R2 (md5_STEP md5_F3 (inp ! 7 + 0xf6bb4b60) 16) \<circ>
        md_R1 (md5_STEP md5_F3 (inp ! 4 + 0x4bdecfa9) 11) \<circ>
        md_R0 (md5_STEP md5_F3 (inp ! 1 + 0xa4beea44) 4) \<circ>
        md_R3 (md5_STEP md5_F3 (inp ! 14 + 0xfde5380c) 23) \<circ>
        md_R2 (md5_STEP md5_F3 (inp ! 11 + 0x6d9d6122) 16) \<circ>
        md_R1 (md5_STEP md5_F3 (inp ! 8 + 0x8771f681) 11) \<circ>
        md_R0 (md5_STEP md5_F3 (inp ! 5 + 0xfffa3942) 4) \<circ>
        md_R3 (md5_STEP md5_F2 (inp ! 12 + 0x8d2a4c8a) 20) \<circ>
        md_R2 (md5_STEP md5_F2 (inp ! 7 + 0x676f02d9) 14) \<circ>
        md_R1 (md5_STEP md5_F2 (inp ! 2 + 0xfcefa3f8) 9) \<circ>
        md_R0 (md5_STEP md5_F2 (inp ! 13 + 0xa9e3e905) 5) \<circ>
        md_R3 (md5_STEP md5_F2 (inp ! 8 + 0x455a14ed) 20) \<circ>
        md_R2 (md5_STEP md5_F2 (inp ! 3 + 0xf4d50d87) 14) \<circ>
        md_R1 (md5_STEP md5_F2 (inp ! 14 + 0xc33707d6) 9) \<circ>
        md_R0 (md5_STEP md5_F2 (inp ! 9 + 0x21e1cde6) 5) \<circ>
        md_R3 (md5_STEP md5_F2 (inp ! 4 + 0xe7d3fbc8) 20) \<circ>
        md_R2 (md5_STEP md5_F2 (inp ! 15 + 0xd8a1e681) 14) \<circ>
        md_R1 (md5_STEP md5_F2 (inp ! 10 + 0x2441453) 9) \<circ>
        md_R0 (md5_STEP md5_F2 (inp ! 5 + 0xd62f105d) 5) \<circ>
        md_R3 (md5_STEP md5_F2 (inp ! 0 + 0xe9b6c7aa) 20) \<circ>
        md_R2 (md5_STEP md5_F2 (inp ! 11 + 0x265e5a51) 14) \<circ>
        md_R1 (md5_STEP md5_F2 (inp ! 6 + 0xc040b340) 9) \<circ>
        md_R0 (md5_STEP md5_F2 (inp ! 1 + 0xf61e2562) 5) \<circ>
        md_R3 (md5_STEP md5_F1 (inp ! 15 + 0x49b40821) 22) \<circ>
        md_R2 (md5_STEP md5_F1 (inp ! 14 + 0xa679438e) 17) \<circ>
        md_R1 (md5_STEP md5_F1 (inp ! 13 + 0xfd987193) 12) \<circ>
        md_R0 (md5_STEP md5_F1 (inp ! 12 + 0x6b901122) 7) \<circ>
        md_R3 (md5_STEP md5_F1 (inp ! 11 + 0x895cd7be) 22) \<circ>
        md_R2 (md5_STEP md5_F1 (inp ! 10 + 0xffff5bb1) 17) \<circ>
        md_R1 (md5_STEP md5_F1 (inp ! 9 + 0x8b44f7af) 12) \<circ>
        md_R0 (md5_STEP md5_F1 (inp ! 8 + 0x698098d8) 7) \<circ>
        md_R3 (md5_STEP md5_F1 (inp ! 7 + 0xfd469501) 22) \<circ>
        md_R2 (md5_STEP md5_F1 (inp ! 6 + 0xa8304613) 17) \<circ>
        md_R1 (md5_STEP md5_F1 (inp ! 5 + 0x4787c62a) 12) \<circ>
        md_R0 (md5_STEP md5_F1 (inp ! 4 + 0xf57c0faf) 7) \<circ>
        md_R3 (md5_STEP md5_F1 (inp ! 3 + 0xc1bdceee) 22) \<circ>
        md_R2 (md5_STEP md5_F1 (inp ! 2 + 0x242070db) 17) \<circ>
        md_R1 (md5_STEP md5_F1 (inp ! 1 + 0xe8c7b756) 12) \<circ>
        md_R0 (md5_STEP md5_F1 (inp ! 0 + 0xd76aa478) 7))"

definition md5_transform :: "u32 list \<Rightarrow> u32 list \<Rightarrow> u32 list" where
  "md5_transform hash inp =
     (let (a, b, c, d) = md5_steps inp (hash ! 0, hash ! 1, hash ! 2, hash ! 3)
      in [hash ! 0 + a, hash ! 1 + b, hash ! 2 + c, hash ! 3 + d])"

section \<open>The steps of RFC 1320 and RFC 1321\<close>

definition rfc_F :: "u32 \<Rightarrow> u32 \<Rightarrow> u32 \<Rightarrow> u32" where
  "rfc_F x y z = (x AND y) OR (NOT x AND z)"

definition rfc_G4 :: "u32 \<Rightarrow> u32 \<Rightarrow> u32 \<Rightarrow> u32" where
  "rfc_G4 x y z = (x AND y) OR (x AND z) OR (y AND z)"

definition rfc_G5 :: "u32 \<Rightarrow> u32 \<Rightarrow> u32 \<Rightarrow> u32" where
  "rfc_G5 x y z = (x AND z) OR (y AND NOT z)"

definition rfc_H :: "u32 \<Rightarrow> u32 \<Rightarrow> u32 \<Rightarrow> u32" where
  "rfc_H x y z = x XOR y XOR z"

definition rfc_I :: "u32 \<Rightarrow> u32 \<Rightarrow> u32 \<Rightarrow> u32" where
  "rfc_I x y z = y XOR (x OR NOT z)"

text \<open>Step \<open>i\<close> of MD4, counted from 0: the message word follows the three orders of the
  RFC (ascending, by columns, bit-reversed), the rotation its four amounts per round.\<close>

definition rfc1320_k :: "nat \<Rightarrow> nat" where
  "rfc1320_k i =
     (if i < 16 then i
      else if i < 32 then 4 * (i mod 4) + (i - 16) div 4
      else 8 * (i mod 2) + 4 * (i div 2 mod 2) + 2 * (i div 4 mod 2) + i div 8 mod 2)"

definition rfc1320_s :: "nat \<Rightarrow> nat" where
  "rfc1320_s i = [3, 7, 11, 19, 3, 5, 9, 13, 3, 9, 11, 15] ! (4 * (i div 16) + i mod 4)"

definition rfc1320_step :: "u32 list \<Rightarrow> nat \<Rightarrow> md_regs \<Rightarrow> md_regs" where
  "rfc1320_step X i = (\<lambda>(a, b, c, d).
     (d, word_rotl (rfc1320_s i)
           (a + (if i < 16 then rfc_F b c d else if i < 32 then rfc_G4 b c d else rfc_H b c d) + X ! rfc1320_k i +
            (if i < 16 then 0 else if i < 32 then 0x5A827999 else 0x6ED9EBA1)), b, c))"

definition rfc1321_k :: "nat \<Rightarrow> nat" where
  "rfc1321_k i =
     (if i < 16 then i else if i < 32 then (5 * i + 1) mod 16 else if i < 48 then (3 * i + 5) mod 16 else 7 * i mod 16)"

definition rfc1321_s :: "nat \<Rightarrow> nat" where
  "rfc1321_s i = [7, 12, 17, 22, 5, 9, 14, 20, 4, 11, 16, 23, 6, 10, 15, 21] ! (4 * (i div 16) + i mod 4)"

definition rfc1321_T :: "u32 list" where
  "rfc1321_T = [
     0xd76aa478, 0xe8c7b756, 0x242070db, 0xc1bdceee, 0xf57c0faf, 0x4787c62a,
     0xa8304613, 0xfd469501, 0x698098d8, 0x8b44f7af, 0xffff5bb1, 0x895cd7be,
     0x6b901122, 0xfd987193, 0xa679438e, 0x49b40821, 0xf61e2562, 0xc040b340,
     0x265e5a51, 0xe9b6c7aa, 0xd62f105d, 0x2441453, 0xd8a1e681, 0xe7d3fbc8,
     0x21e1cde6, 0xc33707d6, 0xf4d50d87, 0x455a14ed, 0xa9e3e905, 0xfcefa3f8,
     0x676f02d9, 0x8d2a4c8a, 0xfffa3942, 0x8771f681, 0x6d9d6122, 0xfde5380c,
     0xa4beea44, 0x4bdecfa9, 0xf6bb4b60, 0xbebfbc70, 0x289b7ec6, 0xeaa127fa,
     0xd4ef3085, 0x4881d05, 0xd9d4d039, 0xe6db99e5, 0x1fa27cf8, 0xc4ac5665,
     0xf4292244, 0x432aff97, 0xab9423a7, 0xfc93a039, 0x655b59c3, 0x8f0ccc92,
     0xffeff47d, 0x85845dd1, 0x6fa87e4f, 0xfe2ce6e0, 0xa3014314, 0x4e0811a1,
     0xf7537e82, 0xbd3af235, 0x2ad7d2bb, 0xeb86d391]"

definition rfc1321_f :: "nat \<Rightarrow> u32 \<Rightarrow> u32 \<Rightarrow> u32 \<Rightarrow> u32" where
  "rfc1321_f i = (if i < 16 then rfc_F else if i < 32 then rfc_G5 else if i < 48 then rfc_H else rfc_I)"

definition rfc1321_step :: "u32 list \<Rightarrow> nat \<Rightarrow> md_regs \<Rightarrow> md_regs" where
  "rfc1321_step X i = (\<lambda>(a, b, c, d).
     (d, b + word_rotl (rfc1321_s i) (a + rfc1321_f i b c d + X ! rfc1321_k i + rfc1321_T ! i), b, c))"

definition rfc_compress :: "nat \<Rightarrow> (u32 list \<Rightarrow> nat \<Rightarrow> md_regs \<Rightarrow> md_regs) \<Rightarrow> u32 list \<Rightarrow> u8 list \<Rightarrow> u32 list" where
  "rfc_compress n step H B =
     (let (a, b, c, d) = fold (step (map (le32_to_cpu B) [0..<16])) [0..<n] (H ! 0, H ! 1, H ! 2, H ! 3)
      in [H ! 0 + a, H ! 1 + b, H ! 2 + c, H ! 3 + d])"

section \<open>The transforms against the RFCs\<close>

lemma lshift_rotl: "0 < k \<Longrightarrow> k < 32 \<Longrightarrow> lshift x k = word_rotl k x"
proof -
  have m: "(0xFFFFFFFF :: u32) = - 1" by simp
  show "lshift x k = word_rotl k x" if "0 < k" "k < 32"
    using shifts_rotl [of k x] that unfolding lshift_def m by (simp add: Let_def)
qed

lemma md5_functions: "md5_F1 = rfc_F" "md5_F2 = rfc_G5" "md5_F3 = rfc_H" "md5_F4 = rfc_I"
  by (auto simp: fun_eq_iff md5_F1_def md5_F2_def md5_F3_def md5_F4_def rfc_F_def rfc_G5_def rfc_H_def rfc_I_def
      intro!: bit_word_eqI simp: bit_simps)

lemma md5_STEP_rfc:
  "0 < s \<Longrightarrow> s < 32 \<Longrightarrow> md_rnd (md5_STEP f (x + t) s) = (\<lambda>(a, b, c, d). (d, b + word_rotl s (a + f b c d + x + t), b, c))"
  by (simp add: md_rnd_def md5_STEP_def fun_eq_iff ac_simps Let_def rol32_rotl flip: rol32_def)

lemma rotation_amounts:
  "i < 64 \<Longrightarrow> 0 < rfc1321_s i \<and> rfc1321_s i < 32"
  "i < 48 \<Longrightarrow> 0 < rfc1320_s i \<and> rfc1320_s i < 32"
proof -
  have "list_all (\<lambda>i. 0 < rfc1321_s i \<and> rfc1321_s i < 32) [0..<64]"
    "list_all (\<lambda>i. 0 < rfc1320_s i \<and> rfc1320_s i < 32) [0..<48]" by code_simp+
  then show "i < 64 \<Longrightarrow> 0 < rfc1321_s i \<and> rfc1321_s i < 32"
    "i < 48 \<Longrightarrow> 0 < rfc1320_s i \<and> rfc1320_s i < 32"
    by (auto simp: list_all_iff simp del: upt_rec_numeral)
qed

lemma upt_48: "[0..<48] = [0, 1, 2, 3, 4, 5, 6, 7, 8, 9, 10, 11, 12, 13, 14, 15, 16, 17, 18, 19, 20, 21, 22, 23, 24, 25, 26, 27, 28, 29, 30, 31, 32, 33, 34, 35, 36, 37, 38, 39, 40, 41, 42, 43, 44, 45, 46, 47 :: nat]"
  by code_simp

lemma upt_md5: "[0..<64] = [0, 1, 2, 3, 4, 5, 6, 7, 8, 9, 10, 11, 12, 13, 14, 15, 16, 17, 18, 19, 20, 21, 22, 23, 24, 25, 26, 27, 28, 29, 30, 31, 32, 33, 34, 35, 36, 37, 38, 39, 40, 41, 42, 43, 44, 45, 46, 47, 48, 49, 50, 51, 52, 53, 54, 55, 56, 57, 58, 59, 60, 61, 62, 63 :: nat]"
  by code_simp

lemma md5_steps_rfc: "md5_steps inp s = fold (rfc1321_step inp) [0..<64] s"
proof -
  have "fold (rfc1321_step inp) [0..<64] s =
      fold (\<lambda>i. md_rnd (md5_STEP (rfc1321_f i) (inp ! rfc1321_k i + rfc1321_T ! i) (rfc1321_s i))) [0..<64] s"
    by (intro fold_cong) (auto simp: rotation_amounts rfc1321_step_def md5_STEP_rfc)
  also have "\<dots> = fold (\<lambda>i. md_rnd (md5_STEP (rfc1321_f i) (inp ! rfc1321_k i + rfc1321_T ! i) (rfc1321_s i))) [0..<64] (md_rot0 s)"
    by (simp del: upt_rec_numeral)
  also have "\<dots> = md_rot0 (md5_steps inp s)"
    unfolding upt_md5
    by (simp add: md5_steps_def md_lines rfc1321_f_def rfc1321_k_def rfc1321_s_def rfc1321_T_def md5_functions del: md_rot0)
  finally show ?thesis by simp
qed

definition md4_op :: "u32 list \<Rightarrow> nat \<Rightarrow> u32 \<Rightarrow> u32 \<Rightarrow> u32 \<Rightarrow> u32 \<Rightarrow> u32" where
  "md4_op inp i = (if i < 16 then md4_ROUND1 else if i < 32 then md4_ROUND2 else md4_ROUND3) (inp ! rfc1320_k i) (rfc1320_s i)"

lemma md4_op_rfc: "i < 48 \<Longrightarrow> rfc1320_step inp i = md_rnd (md4_op inp i)"
  using rotation_amounts(2) [of i]
  by (auto simp: fun_eq_iff rfc1320_step_def md_rnd_def md4_op_def md4_ROUND1_def md4_ROUND2_def md4_ROUND3_def
      md4_F_def md4_G_def md4_H_def rfc_F_def rfc_G4_def rfc_H_def lshift_rotl)

lemma md4_steps_rfc: "md4_steps inp s = fold (rfc1320_step inp) [0..<48] s"
proof -
  have "fold (rfc1320_step inp) [0..<48] s = fold (\<lambda>i. md_rnd (md4_op inp i)) [0..<48] s"
    by (intro fold_cong) (auto simp: md4_op_rfc)
  also have "\<dots> = fold (\<lambda>i. md_rnd (md4_op inp i)) [0..<48] (md_rot0 s)"
    by (simp del: upt_rec_numeral)
  also have "\<dots> = md_rot0 (md4_steps inp s)"
    unfolding upt_48
    by (simp add: md4_steps_def md_lines md4_op_def rfc1320_k_def rfc1320_s_def del: md_rot0)
      (simp only: numeral_2_eq_2 numeral_3_eq_3 One_nat_def)
  finally show ?thesis by simp
qed

section \<open>Update and final\<close>

text \<open>\<open>md4.c\<close> and \<open>md5.c\<close> have the same context and the same text in \<open>update\<close> and \<open>final\<close>, up
  to the transform they call.  The block is kept as its 64 bytes: the phone is little-endian,
  so the conversions of the block in place change nothing.\<close>

record md_ctx =
  md_hash_words :: "u32 list"
  md_block :: "u8 list"
  byte_count :: u64

definition block_words :: "u8 list \<Rightarrow> u32 list" where
  "block_words block = map (le32_to_cpu block) [0..<16]"

definition md4_transform_helper :: "u32 list \<Rightarrow> u8 list \<Rightarrow> u32 list" where
  "md4_transform_helper hash block = md4_transform hash (block_words block)"

definition md5_transform_helper :: "u32 list \<Rightarrow> u8 list \<Rightarrow> u32 list" where
  "md5_transform_helper hash block = md5_transform hash (block_words block)"

definition md_init :: "md_ctx \<Rightarrow> md_ctx" where
  "md_init mctx = mctx\<lparr>md_hash_words := [0x67452301, 0xefcdab89, 0x98badcfe, 0x10325476], byte_count := 0\<rparr>"

function md_loop :: "(u32 list \<Rightarrow> u8 list \<Rightarrow> u32 list) \<Rightarrow> u32 list \<Rightarrow> u8 list \<Rightarrow> u8 list \<Rightarrow> u32 \<Rightarrow> u32 list \<times> u8 list" where
  "md_loop helper hash block data len =
     (if 64 \<le> len
      then let block = put_blk block 0 (take 64 data); hash = helper hash block
           in md_loop helper hash block (drop 64 data) (len - 64)
      else (hash, put_blk block 0 (take (unat len) data)))"
  by pat_completeness auto
termination
  by (relation "measure (\<lambda>(helper, hash, block, data, len). unat len)")
    (auto simp: unat_sub word_le_nat_alt)

declare md_loop.simps [simp del]

definition md_update :: "(u32 list \<Rightarrow> u8 list \<Rightarrow> u32 list) \<Rightarrow> md_ctx \<Rightarrow> u8 list \<Rightarrow> u32 \<Rightarrow> md_ctx" where
  "md_update helper mctx data len =
     (let avail = 64 - (ucast (byte_count mctx AND 0x3f) :: u32);
          cnt = byte_count mctx + ucast len
      in if avail > len
         then mctx\<lparr>byte_count := cnt,
                   md_block := put_blk (md_block mctx) (unat (64 - avail)) (take (unat len) data)\<rparr>
         else let block = put_blk (md_block mctx) (unat (64 - avail)) (take (unat avail) data);
                  hash = helper (md_hash_words mctx) block;
                  (hash, block) = md_loop helper hash block (drop (unat avail) data) (len - avail)
              in \<lparr>md_hash_words = hash, md_block = block, byte_count = cnt\<rparr>)"

definition md_final :: "(u32 list \<Rightarrow> u8 list \<Rightarrow> u32 list) \<Rightarrow> md_ctx \<Rightarrow> u8 list \<times> md_ctx" where
  "md_final helper mctx =
     (let offset = unat (byte_count mctx AND 0x3f);
          p = offset + 1;
          padding = 56 - int p;
          hash = md_hash_words mctx;
          block = (md_block mctx)[offset := 0x80];
          (hash, block, p, padding) =
            (if padding < 0
             then let block = put_blk block p (replicate (nat (padding + 8)) 0)
                  in (helper hash block, block, 0, 56)
             else (hash, block, p, padding));
          block = put_blk block p (replicate (nat padding) 0);
          block = put_blk block 56 (cpu_to_le32_bytes (ucast (push_bit 3 (byte_count mctx))));
          block = put_blk block 60 (cpu_to_le32_bytes (ucast (drop_bit 29 (byte_count mctx))));
          hash = helper hash block
      in (concat (map (\<lambda>i. cpu_to_le32_bytes (hash ! i)) [0..<4]),
          \<lparr>md_hash_words = replicate 4 0, md_block = replicate 64 0, byte_count = 0\<rparr>))"

definition md4_init :: "md_ctx \<Rightarrow> md_ctx" where
  "md4_init = md_init"

definition md4_update :: "md_ctx \<Rightarrow> u8 list \<Rightarrow> u32 \<Rightarrow> md_ctx" where
  "md4_update = md_update md4_transform_helper"

definition md4_final :: "md_ctx \<Rightarrow> u8 list \<times> md_ctx" where
  "md4_final = md_final md4_transform_helper"

definition md5_init :: "md_ctx \<Rightarrow> md_ctx" where
  "md5_init = md_init"

definition md5_update :: "md_ctx \<Rightarrow> u8 list \<Rightarrow> u32 \<Rightarrow> md_ctx" where
  "md5_update = md_update md5_transform_helper"

definition md5_final :: "md_ctx \<Rightarrow> u8 list \<times> md_ctx" where
  "md5_final = md_final md5_transform_helper"

lemma md4_helper_rfc: "md4_transform_helper = rfc_compress 48 rfc1320_step"
  by (simp add: fun_eq_iff md4_transform_helper_def md4_transform_def rfc_compress_def md4_steps_rfc block_words_def Let_def del: upt_rec_numeral)

lemma md5_helper_rfc: "md5_transform_helper = rfc_compress 64 rfc1321_step"
  by (simp add: fun_eq_iff md5_transform_helper_def md5_transform_def rfc_compress_def md5_steps_rfc block_words_def Let_def del: upt_rec_numeral)

section \<open>The stream\<close>

definition md_counts :: "md_ctx \<Rightarrow> nat \<Rightarrow> bool" where
  "md_counts c n \<longleftrightarrow> byte_count c = of_nat n \<and> length (md_block c) = 64"

lemma md_loop_ok:
  assumes "length block = 64" "length data = unat len"
  shows "\<exists>h' block'. md_loop helper h block data len = (h', block') \<and> length block' = 64 \<and>
           (h', take (length data mod 64) block') = absorb 64 helper h data"
  using assms
proof (induction helper h block data len rule: md_loop.induct)
  case (1 helper h block data len)
  show ?case
  proof (cases "64 \<le> len")
    case True
    then have l: "64 \<le> length data" "unat (len - 64) = length data - 64"
      using "1.prems" by (simp_all add: word_le_nat_alt unat_sub)
    have b: "put_blk block 0 (take 64 data) = take 64 data"
      using l "1.prems" by (simp add: put_blk_def)
    obtain h' block' where "md_loop helper (helper h (take 64 data)) (take 64 data) (drop 64 data) (len - 64) = (h', block')"
      "length block' = 64" "(h', take (length (drop 64 data) mod 64) block') = absorb 64 helper (helper h (take 64 data)) (drop 64 data)"
      using 1(1) [OF True refl refl] "1.prems" l b by auto
    then show ?thesis
      using True b l by (subst md_loop.simps, subst absorb.simps) (simp add: le_mod_geq)
  next
    case False
    then have "length data < 64" using "1.prems" by (simp add: word_le_nat_alt)
    then show ?thesis
      using False "1.prems" take_put_blk [of 0 data block "length data"] by (subst md_loop.simps) simp
  qed
qed

lemma md_update_ok:
  assumes c: "md_counts c n" and d: "length d < 2 ^ 32"
  shows "\<exists>c'. Some (md_update helper c d (of_nat (length d))) = Some c' \<and> md_counts c' (n + length d) \<and>
           (md_hash_words c', take ((n + length d) mod 64) (md_block c')) =
           absorb 64 helper (md_hash_words c) (take (n mod 64) (md_block c) @ d)"
proof -
  define len where "len = (of_nat (length d) :: u32)"
  define k where "k = n mod 64"
  define avail where "avail = 64 - (ucast (byte_count c AND 0x3f) :: u32)"
  have len: "unat len = length d" using d by (simp add: len_def unat_of_nat)
  have k: "k < 64" by (simp add: k_def)
  have b: "length (md_block c) = 64" using c by (simp add: md_counts_def)
  have bc: "unat (ucast (byte_count c AND 0x3f) :: u32) = k"
    using c pending_bytes(1) [of n] by (simp add: md_counts_def k_def)
  have avail: "unat avail = 64 - k" "unat (64 - avail) = k"
    using bc k by (simp_all add: avail_def unat_sub word_le_nat_alt)
  have cnt: "byte_count c + ucast len = of_nat (n + length d)"
    using c d byte_count_add [of "length d" n] by (simp add: md_counts_def len_def)
  have m: "(k + length d) mod 64 = (n + length d) mod 64" by (simp add: k_def mod_add_left_eq)
  note defs = md_update_def Let_def avail_def [symmetric] len_def [symmetric] cnt avail
  show ?thesis
  proof (cases "avail > len")
    case True
    then have "k + length d < 64" using avail len by (simp add: word_less_nat_alt)
    then show ?thesis
      using True b m len block_update_part [of k d 64 "md_block c" "md_hash_words c" helper]
      unfolding defs by (simp add: md_counts_def flip: k_def)
  next
    case False
    then have full: "64 - k \<le> length d" using avail len by (simp add: word_less_nat_alt not_less)
    let ?b = "put_blk (md_block c) k (take (64 - k) d)"
    have bl: "?b = take k (md_block c) @ take (64 - k) d" "length ?b = 64"
      using b k full by (simp_all add: put_blk_def)
    have rest: "length (drop (64 - k) d) = unat (len - avail)"
      using False len avail by (simp add: unat_sub not_less)
    obtain h' block' where l: "md_loop helper (helper (md_hash_words c) ?b) ?b (drop (64 - k) d) (len - avail) = (h', block')"
      "length block' = 64"
      "(h', take (length (drop (64 - k) d) mod 64) block') = absorb 64 helper (helper (md_hash_words c) ?b) (drop (64 - k) d)"
      using md_loop_ok [OF bl(2) rest, of helper "helper (md_hash_words c) ?b"] by auto
    have "k + length d = 64 + length (drop (64 - k) d)" using k full by simp
    then have r: "length (drop (64 - k) d) mod 64 = (n + length d) mod 64"
      using m by (metis mod_add_self1)
    have "absorb 64 helper (md_hash_words c) (take k (md_block c) @ d) = (h', take ((n + length d) mod 64) block')"
      using absorb_fill [of "take k (md_block c)" 64 d helper "md_hash_words c"] k b full l(3) bl(1) r by simp
    then show ?thesis
      using False l(1,2) unfolding defs by (simp add: md_counts_def flip: k_def)
  qed
qed

lemma md_length_bytes:
  "cpu_to_le32_bytes (ucast (push_bit 3 (of_nat n :: u64))) @ cpu_to_le32_bytes (ucast (drop_bit 29 (of_nat n :: u64))) =
   le_bytes 8 (8 * n)"
proof -
  have e: "8 * n = push_bit 3 n" by (simp add: push_bit_eq_mult)
  have "ucast (push_bit 3 (of_nat n :: u64)) = (of_nat (8 * n) :: u32)"
    unfolding e by (intro bit_word_eqI) (auto simp: bit_simps bit_word_of_nat)
  moreover have "ucast (drop_bit 29 (of_nat n :: u64)) = (of_nat (8 * n div 2 ^ 32) :: u32)"
  proof -
    have "8 * n div 2 ^ 32 = drop_bit 29 n" by (simp add: drop_bit_eq_div)
    then show ?thesis by (intro bit_word_eqI) (auto simp: bit_simps bit_word_of_nat simp del: drop_bit_eq_div)
  qed
  ultimately show ?thesis
    using le_bytes_append [of 4 "8 * n" 4] by (simp only: le32_of_nat) simp
qed

lemma md_len_field:
  "length B = 64 \<Longrightarrow> length x = 4 \<Longrightarrow> length y = 4 \<Longrightarrow> put_blk (put_blk B 56 x) 60 y = take 56 B @ x @ y"
  by (simp add: put_blk_def)

definition md_digest :: "u32 list \<Rightarrow> u8 list" where
  "md_digest hash = concat (map (\<lambda>i. cpu_to_le32_bytes (hash ! i)) [0..<4])"

lemma md_final_ok:
  assumes c: "md_counts c n"
  shows "Some (fst (md_final helper c)) =
    Some (md_digest (fst (absorb 64 helper (md_hash_words c)
      (take (n mod 64) (md_block c) @ md_pad 64 (le_bytes 8 \<circ> (*) 8) n))))"
proof -
  define k where "k = n mod 64"
  define t where "t = take k (md_block c)"
  define lf where "lf = cpu_to_le32_bytes (ucast (push_bit 3 (byte_count c))) @ cpu_to_le32_bytes (ucast (drop_bit 29 (byte_count c)))"
  have k: "k < 64" by (simp add: k_def)
  have b: "length (md_block c) = 64" using c by (simp add: md_counts_def)
  have off: "unat (byte_count c AND 0x3f) = k"
    using c pending_bytes(2) [of n] by (simp add: md_counts_def k_def)
  have lf: "lf = le_bytes 8 (8 * n)"
    using c by (simp only: lf_def md_counts_def md_length_bytes)
  have t: "length t = k" using k b by (simp add: t_def)
  have u: "(md_block c)[k := 0x80] = t @ 0x80 # drop (Suc k) (md_block c)"
    using k b by (simp add: t_def upd_conv_take_nth_drop)
  have one: "fst (absorb 64 helper h B) = helper h B" if "length B = 64" for h B
    using absorb_block [of B 64 helper h "[]"] that by simp
  show ?thesis
  proof (cases "k < 56")
    case True
    have z: "md_zeros 64 8 n = 55 - k" using True md_zeros_split(1) [of n 64 8] by (simp add: k_def)
    have "take 56 (put_blk (t @ 0x80 # drop (Suc k) (md_block c)) (Suc k) (replicate (55 - k) 0)) = t @ 0x80 # replicate (55 - k) 0"
      using True t b by (subst take_put_blk) auto
    then have "fst (md_final helper c) = md_digest (helper (md_hash_words c) (t @ 0x80 # replicate (55 - k) 0 @ lf))"
      using True t b unfolding md_final_def Let_def off u lf_def md_digest_def
      by (simp add: md_len_field nat_diff_distrib del: upt_rec_numeral)
    then show ?thesis
      using one [of "t @ md_pad 64 (le_bytes 8 \<circ> (*) 8) n"] True t
      by (simp add: md_pad_def z lf k_def [symmetric] t_def [symmetric])
  next
    case False
    have z: "md_zeros 64 8 n = 63 - k + 56"
      using False k md_zeros_split(2) [of 64 8 n] by (simp add: k_def)
    have b1: "put_blk (t @ 0x80 # drop (Suc k) (md_block c)) (k + 1) (replicate (63 - k) 0) = t @ 0x80 # replicate (63 - k) 0"
      using False k t b by (simp add: put_blk_def)
    have b2: "take 56 (put_blk (t @ 0x80 # replicate (63 - k) 0) 0 (replicate 56 0)) = replicate 56 0"
      using False k t by (subst take_put_blk) auto
    have b3: "length (put_blk (t @ 0x80 # replicate (63 - k) 0) 0 (replicate 56 0)) = 64"
      using False k t length_put_blk [of 0 "replicate 56 0" "t @ 0x80 # replicate (63 - k) 0"] by simp
    have i: "nat (56 - int (k + 1) + 8) = 63 - k" "56 - int (k + 1) < 0" "nat 56 = 56" using False k by auto
    have "fst (md_final helper c) = md_digest (helper (helper (md_hash_words c) (t @ 0x80 # replicate (63 - k) 0)) (replicate 56 0 @ lf))"
      by (simp only: md_final_def Let_def off u i b1 b2 if_True prod.case md_len_field [OF b3 length_32_bytes(1) length_32_bytes(1)]
          lf_def md_digest_def fst_conv)
    moreover have "t @ md_pad 64 (le_bytes 8 \<circ> (*) 8) n = (t @ 0x80 # replicate (63 - k) 0) @ replicate 56 0 @ lf"
      by (simp add: md_pad_def z lf replicate_add)
    ultimately show ?thesis
      using absorb_block [of "t @ 0x80 # replicate (63 - k) 0" 64 helper "md_hash_words c" "replicate 56 0 @ lf"]
        one [of "replicate 56 0 @ lf"] False k t lf
      by (simp add: k_def [symmetric] t_def [symmetric])
  qed
qed

interpretation md4_hash: stream_hash 64 "2 ^ 32" md4_transform_helper "\<lambda>c d n. Some (md4_update c d n)" md_hash_words md_block md_counts
  "md_pad 64 (le_bytes 8 \<circ> (*) 8)" md_digest "\<lambda>c. Some (fst (md4_final c))"
  unfolding md4_update_def md4_final_def by unfold_locales (simp, erule (1) md_update_ok, erule md_final_ok)

interpretation md5_hash: stream_hash 64 "2 ^ 32" md5_transform_helper "\<lambda>c d n. Some (md5_update c d n)" md_hash_words md_block md_counts
  "md_pad 64 (le_bytes 8 \<circ> (*) 8)" md_digest "\<lambda>c. Some (fst (md5_final c))"
  unfolding md5_update_def md5_final_def by unfold_locales (simp, erule (1) md_update_ok, erule md_final_ok)

section \<open>The hashes of the RFCs\<close>

definition rfc1320_md4 :: "u8 list \<Rightarrow> u8 list" where
  "rfc1320_md4 m = md_hash 64 (rfc_compress 48 rfc1320_step) [0x67452301, 0xefcdab89, 0x98badcfe, 0x10325476]
     (md_pad 64 (le_bytes 8 \<circ> (*) 8)) (concat \<circ> map cpu_to_le32_bytes) m"

definition rfc1321_md5 :: "u8 list \<Rightarrow> u8 list" where
  "rfc1321_md5 m = md_hash 64 (rfc_compress 64 rfc1321_step) [0x67452301, 0xefcdab89, 0x98badcfe, 0x10325476]
     (md_pad 64 (le_bytes 8 \<circ> (*) 8)) (concat \<circ> map cpu_to_le32_bytes) m"

lemma length_rfc_compress [simp]: "length (rfc_compress n step H B) = 4"
  by (simp add: rfc_compress_def Let_def case_prod_beta del: upt_rec_numeral)

lemma md_digest_map: "length s = 4 \<Longrightarrow> md_digest s = concat (map cpu_to_le32_bytes s)"
  unfolding md_digest_def by (intro arg_cong [where f = concat] nth_equalityI) (simp_all del: upt_rec_numeral)

section \<open>Properties\<close>

text \<open>
  C35: the MD4 and MD5 of the kernel are those of RFC 1320 and RFC 1321: from a freshly
  initialised context, feeding a message in any pieces of less than 2^32 bytes and finishing
  gives the digest of the concatenated message.  In particular the unrolled transforms use the
  message words, the rotations and the functions of the RFCs in every step, and both branches of
  the final padding (with and without an extra block) give the padding of the RFCs.
\<close>

theorem md_stream:
  assumes "length (md_block c) = 64" "\<forall>d \<in> set ds. length d < 2 ^ 32"
  shows "digest (\<lambda>c d n. Some (md4_update c d n)) (\<lambda>c. Some (fst (md4_final c))) (md4_init c) ds = Some (rfc1320_md4 (concat ds)) \<and>
         digest (\<lambda>c d n. Some (md5_update c d n)) (\<lambda>c. Some (fst (md5_final c))) (md5_init c) ds = Some (rfc1321_md5 (concat ds))"
proof -
  have "md_counts (md_init c) 0" using assms(1) by (simp add: md_counts_def md_init_def)
  moreover have "length (fst (absorb 64 (rfc_compress n step) [0x67452301, 0xefcdab89, 0x98badcfe, 0x10325476] m)) = 4" for m n step
    by (rule length_absorb_state) simp_all
  ultimately show ?thesis
    using md4_hash.digest_ok [of "md_init c" ds] md5_hash.digest_ok [of "md_init c" ds] assms(2)
    by (simp add: rfc1320_md4_def rfc1321_md5_def md_hash_def md4_helper_rfc md5_helper_rfc md_digest_map md4_init_def md5_init_def md_init_def)
qed

theorem md_stream_witness:
  "digest (\<lambda>c d n. Some (md5_update c d n)) (\<lambda>c. Some (fst (md5_final c)))
     (md5_init \<lparr>md_hash_words = [], md_block = replicate 64 1, byte_count = 9\<rparr>) [[0x61], [], [0x62, 0x63]] =
   Some (rfc1321_md5 [0x61, 0x62, 0x63])"
  using md_stream [of "\<lparr>md_hash_words = [], md_block = replicate 64 1, byte_count = 9\<rparr>" "[[0x61], [], [0x62, 0x63]]"] by simp

end
