(* ===== verification/Semaphore.thy ===== *)
theory Semaphore
  imports KPrelude
begin

text \<open>
  The counting semaphore of \<open>kernel/semaphore.c\<close>: the entry points, the contended path
  \<open>__down_common\<close> with signals and timeouts, and \<open>up\<close>. A step of the system is one critical
  section of the spinlock of the semaphore, so a run is an interleaving of the tasks. The system
  refines an abstract semaphore with a fair queue; conservation of units and service in
  the order of arrival follow from it.
\<close>

section \<open>Tasks, signals and timeouts\<close>

definition TASK_INTERRUPTIBLE :: ulong where
  "TASK_INTERRUPTIBLE = 1"

definition TASK_UNINTERRUPTIBLE :: ulong where
  "TASK_UNINTERRUPTIBLE = 2"

definition TASK_WAKEKILL :: ulong where
  "TASK_WAKEKILL = 128"

definition TASK_KILLABLE :: ulong where
  "TASK_KILLABLE = (TASK_WAKEKILL OR TASK_UNINTERRUPTIBLE)"

definition MAX_SCHEDULE_TIMEOUT :: ulong where
  "MAX_SCHEDULE_TIMEOUT = 0x7fffffff"

text \<open>What \<open>signal_pending\<close> and \<open>__fatal_signal_pending\<close> say of a task.\<close>

record signals =
  signal_pending :: bool
  uu_fatal_signal_pending :: bool

definition signal_pending_state :: "ulong \<Rightarrow> signals \<Rightarrow> bool" where
  "signal_pending_state state p =
    (if state AND (TASK_INTERRUPTIBLE OR TASK_WAKEKILL) = 0 then False
     else if \<not> signal_pending p then False
     else state AND TASK_INTERRUPTIBLE \<noteq> 0 \<or> uu_fatal_signal_pending p)"

text \<open>The value \<open>schedule_timeout\<close> returns when \<open>jiffies\<close> reads \<open>j0\<close> before the task sleeps
  and \<open>j1\<close> after it has been woken.\<close>

definition schedule_timeout :: "ulong \<Rightarrow> ulong \<Rightarrow> ulong \<Rightarrow> ulong" where
  "schedule_timeout timeout j0 j1 =
    (let timeout = (if timeout = MAX_SCHEDULE_TIMEOUT \<or> sint timeout < 0 then timeout
                    else (timeout + j0) - j1)
     in if sint timeout < 0 then 0 else timeout)"

section \<open>The semaphore\<close>

text \<open>The wait list holds the tasks in \<open>__down_common\<close>; the waiter a task has on its stack,
  with the two parameters of the call, is the frame of the task.\<close>

record semaphore =
  sem_count :: u32
  wait_list :: "nat list"

record semaphore_waiter =
  w_state :: ulong
  w_timeout :: ulong
  w_up :: bool

text \<open>A call either has returned, or sleeps in \<open>schedule_timeout\<close> with the lock released.\<close>

datatype outcome = Returned "errno + unit" | Sleeping semaphore_waiter

definition sema_init :: "u32 \<Rightarrow> semaphore" where
  "sema_init val = \<lparr>sem_count = val, wait_list = []\<rparr>"

definition down_common_loop :: "signals \<Rightarrow> nat \<Rightarrow> semaphore_waiter \<Rightarrow> semaphore \<Rightarrow> semaphore \<times> outcome" where
  "down_common_loop p task waiter sem =
    (if signal_pending_state (w_state waiter) p then
       (sem\<lparr>wait_list := remove1 task (wait_list sem)\<rparr>, Returned (Inl EINTR))
     else if sint (w_timeout waiter) \<le> 0 then
       (sem\<lparr>wait_list := remove1 task (wait_list sem)\<rparr>, Returned (Inl ETIME))
     else (sem, Sleeping waiter))"

definition uu_down_common :: "signals \<Rightarrow> nat \<Rightarrow> ulong \<Rightarrow> ulong \<Rightarrow> semaphore \<Rightarrow> semaphore \<times> outcome" where
  "uu_down_common p task state timeout sem =
    down_common_loop p task \<lparr>w_state = state, w_timeout = timeout, w_up = False\<rparr>
      (sem\<lparr>wait_list := wait_list sem @ [task]\<rparr>)"

text \<open>The part of the loop after the sleep, up to the next sleep or the return.\<close>

definition down_common_resume ::
  "signals \<Rightarrow> nat \<Rightarrow> ulong \<Rightarrow> semaphore_waiter \<Rightarrow> semaphore \<Rightarrow> semaphore \<times> outcome" where
  "down_common_resume p task timeout waiter sem =
    (if w_up waiter then (sem, Returned (Inr ()))
     else down_common_loop p task (waiter\<lparr>w_timeout := timeout\<rparr>) sem)"

definition uu_down :: "signals \<Rightarrow> nat \<Rightarrow> semaphore \<Rightarrow> semaphore \<times> outcome" where
  "uu_down p task sem = uu_down_common p task TASK_UNINTERRUPTIBLE MAX_SCHEDULE_TIMEOUT sem"

definition uu_down_interruptible :: "signals \<Rightarrow> nat \<Rightarrow> semaphore \<Rightarrow> semaphore \<times> outcome" where
  "uu_down_interruptible p task sem =
    uu_down_common p task TASK_INTERRUPTIBLE MAX_SCHEDULE_TIMEOUT sem"

definition uu_down_killable :: "signals \<Rightarrow> nat \<Rightarrow> semaphore \<Rightarrow> semaphore \<times> outcome" where
  "uu_down_killable p task sem = uu_down_common p task TASK_KILLABLE MAX_SCHEDULE_TIMEOUT sem"

definition uu_down_timeout :: "signals \<Rightarrow> nat \<Rightarrow> ulong \<Rightarrow> semaphore \<Rightarrow> semaphore \<times> outcome" where
  "uu_down_timeout p task jiffies sem = uu_down_common p task TASK_UNINTERRUPTIBLE jiffies sem"

definition down :: "signals \<Rightarrow> nat \<Rightarrow> semaphore \<Rightarrow> semaphore \<times> outcome" where
  "down p task sem =
    (if sem_count sem > 0 then (sem\<lparr>sem_count := sem_count sem - 1\<rparr>, Returned (Inr ()))
     else uu_down p task sem)"

definition down_interruptible :: "signals \<Rightarrow> nat \<Rightarrow> semaphore \<Rightarrow> semaphore \<times> outcome" where
  "down_interruptible p task sem =
    (if sem_count sem > 0 then (sem\<lparr>sem_count := sem_count sem - 1\<rparr>, Returned (Inr ()))
     else uu_down_interruptible p task sem)"

definition down_killable :: "signals \<Rightarrow> nat \<Rightarrow> semaphore \<Rightarrow> semaphore \<times> outcome" where
  "down_killable p task sem =
    (if sem_count sem > 0 then (sem\<lparr>sem_count := sem_count sem - 1\<rparr>, Returned (Inr ()))
     else uu_down_killable p task sem)"

definition down_timeout :: "signals \<Rightarrow> nat \<Rightarrow> ulong \<Rightarrow> semaphore \<Rightarrow> semaphore \<times> outcome" where
  "down_timeout p task jiffies sem =
    (if sem_count sem > 0 then (sem\<lparr>sem_count := sem_count sem - 1\<rparr>, Returned (Inr ()))
     else uu_down_timeout p task jiffies sem)"

text \<open>The result is the C return value: true when the semaphore was not acquired.\<close>

definition down_trylock :: "semaphore \<Rightarrow> semaphore \<times> bool" where
  "down_trylock sem =
    (let cnt = sem_count sem - 1
     in (if 0 \<le> sint cnt then sem\<lparr>sem_count := cnt\<rparr> else sem, sint cnt < 0))"

section \<open>The system: a semaphore and the tasks that use it\<close>

record sem_sys =
  sem :: semaphore
  frame :: "nat \<Rightarrow> semaphore_waiter option"

definition uu_up :: "sem_sys \<Rightarrow> sem_sys" where
  "uu_up s =
    (let task = hd (wait_list (sem s))
     in s\<lparr>sem := (sem s)\<lparr>wait_list := tl (wait_list (sem s))\<rparr>,
          frame := (frame s)(task := map_option (\<lambda>w. w\<lparr>w_up := True\<rparr>) (frame s task))\<rparr>)"

definition up :: "sem_sys \<Rightarrow> sem_sys" where
  "up s =
    (if wait_list (sem s) = [] then s\<lparr>sem := (sem s)\<lparr>sem_count := sem_count (sem s) + 1\<rparr>\<rparr>
     else uu_up s)"

datatype down_call = Down | Down_interruptible | Down_killable | Down_timeout ulong

fun call_down :: "down_call \<Rightarrow> signals \<Rightarrow> nat \<Rightarrow> semaphore \<Rightarrow> semaphore \<times> outcome" where
  "call_down Down p t s = down p t s"
| "call_down Down_interruptible p t s = down_interruptible p t s"
| "call_down Down_killable p t s = down_killable p t s"
| "call_down (Down_timeout j) p t s = down_timeout p t j s"

text \<open>What an observer sees of a critical section of the semaphore's lock: task \<open>t\<close> has
  acquired the semaphore, has given up with an error, sleeps, was refused by
  \<open>down_trylock\<close>; or the semaphore has been released.\<close>

datatype label = Got nat | Failed nat errno | Slept nat | Refused nat | Gave

definition after_down :: "nat \<Rightarrow> sem_sys \<Rightarrow> semaphore \<times> outcome \<Rightarrow> sem_sys" where
  "after_down t s r = s\<lparr>sem := fst r, frame := (frame s)(t :=
     (case snd r of Returned _ \<Rightarrow> None | Sleeping w \<Rightarrow> Some w))\<rparr>"

definition down_label :: "nat \<Rightarrow> outcome \<Rightarrow> label" where
  "down_label t r =
    (case r of Returned (Inr _) \<Rightarrow> Got t | Returned (Inl e) \<Rightarrow> Failed t e | Sleeping _ \<Rightarrow> Slept t)"

text \<open>The interleavings: each step is one critical section of the lock.\<close>

inductive sem_step :: "sem_sys \<Rightarrow> label \<Rightarrow> sem_sys \<Rightarrow> bool" where
  call: "frame s t = None \<Longrightarrow> r = call_down c p t (sem s) \<Longrightarrow>
    sem_step s (down_label t (snd r)) (after_down t s r)"
| resume: "frame s t = Some w \<Longrightarrow>
    r = down_common_resume p t (schedule_timeout (w_timeout w) j0 j1) w (sem s) \<Longrightarrow>
    sem_step s (down_label t (snd r)) (after_down t s r)"
| trylock: "frame s t = None \<Longrightarrow> r = down_trylock (sem s) \<Longrightarrow>
    sem_step s (if snd r then Refused t else Got t) (s\<lparr>sem := fst r\<rparr>)"
| release: "sem_step s Gave (up s)"

inductive sem_run :: "sem_sys \<Rightarrow> label list \<Rightarrow> sem_sys \<Rightarrow> bool" where
  run_refl: "sem_run s [] s"
| run_step: "sem_run s ls s' \<Longrightarrow> sem_step s' l s'' \<Longrightarrow> sem_run s (ls @ [l]) s''"

definition sem_start :: "u32 \<Rightarrow> sem_sys" where
  "sem_start n = \<lparr>sem = sema_init n, frame = (\<lambda>_. None)\<rparr>"

definition waiting :: "sem_sys \<Rightarrow> nat \<Rightarrow> bool" where
  "waiting s t = (\<exists>w. frame s t = Some w \<and> \<not> w_up w)"

definition granted :: "sem_sys \<Rightarrow> nat \<Rightarrow> bool" where
  "granted s t = (\<exists>w. frame s t = Some w \<and> w_up w)"

text \<open>The well-formedness of a semaphore in use: the wait list holds each task that waits
  without having been woken by \<open>up\<close> exactly once, and nobody waits while the semaphore can
  be acquired.\<close>

definition sem_inv :: "sem_sys \<Rightarrow> bool" where
  "sem_inv s =
    (distinct (wait_list (sem s)) \<and> (\<forall>t. t \<in> set (wait_list (sem s)) \<longleftrightarrow> waiting s t) \<and>
     (wait_list (sem s) \<noteq> [] \<longrightarrow> sem_count (sem s) = 0) \<and> finite {t. granted s t})"

section \<open>Every step keeps the invariant\<close>

text \<open>The four blocking calls are one routine with the state and the timeout of the call.\<close>

fun call_state :: "down_call \<Rightarrow> ulong" where
  "call_state Down = TASK_UNINTERRUPTIBLE"
| "call_state Down_interruptible = TASK_INTERRUPTIBLE"
| "call_state Down_killable = TASK_KILLABLE"
| "call_state (Down_timeout j) = TASK_UNINTERRUPTIBLE"

fun call_timeout :: "down_call \<Rightarrow> ulong" where
  "call_timeout (Down_timeout j) = j"
| "call_timeout c = MAX_SCHEDULE_TIMEOUT"

lemma call_down_eq:
  "call_down c p t s =
    (if sem_count s > 0 then (s\<lparr>sem_count := sem_count s - 1\<rparr>, Returned (Inr ()))
     else uu_down_common p t (call_state c) (call_timeout c) s)"
  by (cases c) (simp_all add: down_def down_interruptible_def down_killable_def
    down_timeout_def uu_down_def uu_down_interruptible_def uu_down_killable_def uu_down_timeout_def)

lemma down_common_loop_cases:
  obtains e where "down_common_loop p t w s = (s\<lparr>wait_list := remove1 t (wait_list s)\<rparr>, Returned (Inl e))"
  | "down_common_loop p t w s = (s, Sleeping w)"
proof -
  have "down_common_loop p t w s =
      (s\<lparr>wait_list := remove1 t (wait_list s)\<rparr>, Returned (Inl (if signal_pending_state (w_state w) p then EINTR else ETIME)))
    \<or> down_common_loop p t w s = (s, Sleeping w)"
    by (simp add: down_common_loop_def)
  then show thesis using that by blast
qed

lemma sint_neg_iff: "sint (x :: 32 word) < 0 \<longleftrightarrow> 2 ^ 31 \<le> unat x"
proof -
  have "sint x < 0 \<longleftrightarrow> bit (uint x) 31"
    by (simp only: sint_uint signed_take_bit_negative_iff) simp
  also have "\<dots> \<longleftrightarrow> bit (unat x) 31"
    by (simp add: bit_unsigned_iff)
  also have "\<dots> \<longleftrightarrow> 2 ^ 31 \<le> unat x"
  proof (cases "2 ^ 31 \<le> unat x")
    case True
    have "unat x div 2 ^ 31 = 1"
      using True unsigned_less [of x] by (intro div_nat_eqI) simp_all
    then show ?thesis using True by (simp only: bit_iff_odd) simp
  next
    case False
    then have "unat x div 2 ^ 31 = 0" by (intro div_less) simp
    then show ?thesis using False by (simp only: bit_iff_odd) simp
  qed
  finally show ?thesis .
qed

lemma trylock_refuses:
  "snd (down_trylock m) = (sem_count m = 0 \<or> 2 ^ 31 < unat (sem_count m))"
proof (cases "sem_count m = 0")
  case False
  then have u: "unat (sem_count m - 1) = unat (sem_count m) - 1" "0 < unat (sem_count m)"
    by (simp_all add: unat_minus_one unat_gt_0)
  have "sint (sem_count m - 1) < 0 \<longleftrightarrow> 2 ^ 31 \<le> unat (sem_count m - 1)"
    by (rule sint_neg_iff)
  with u show ?thesis
    by (auto simp: down_trylock_def Let_def)
qed (simp add: down_trylock_def)

lemma trylock_state:
  "fst (down_trylock m) = (if snd (down_trylock m) then m else m\<lparr>sem_count := sem_count m - 1\<rparr>)"
  by (simp add: down_trylock_def Let_def not_le)

lemma waiting_upd [simp]:
  "waiting (s\<lparr>sem := m\<rparr>) = waiting s" "granted (s\<lparr>sem := m\<rparr>) = granted s"
  by (simp_all add: waiting_def granted_def fun_eq_iff)

lemma waiting_frame:
  "waiting (s\<lparr>sem := m, frame := (frame s)(t := x)\<rparr>) u =
    (if u = t then (case x of None \<Rightarrow> False | Some w \<Rightarrow> \<not> w_up w) else waiting s u)"
  by (auto simp: waiting_def split: option.split)

lemma granted_frame:
  "{u. granted (s\<lparr>sem := m, frame := (frame s)(t := x)\<rparr>) u} =
    (case x of None \<Rightarrow> Collect (granted s) - {t}
     | Some w \<Rightarrow> if w_up w then insert t (Collect (granted s)) else Collect (granted s) - {t})"
  by (auto simp: granted_def split: option.split)

lemmas waiting_frame_only = waiting_frame [where m = "sem s" and s = s for s, simplified]

lemmas granted_frame_only = granted_frame [where m = "sem s" and s = s for s, simplified]

section \<open>The abstract semaphore\<close>

text \<open>What a counting semaphore with a fair queue promises: a number of units, the queue of
  the tasks that wait, and the set of those to which a released unit has been handed.\<close>

inductive asem_step :: "nat \<times> nat list \<times> nat set \<Rightarrow> label \<Rightarrow> nat \<times> nat list \<times> nat set \<Rightarrow> bool" where
  a_take: "t \<notin> set q \<Longrightarrow> t \<notin> g \<Longrightarrow> asem_step (Suc n, q, g) (Got t) (n, q, g)"
| a_give_up_at_once: "t \<notin> set q \<Longrightarrow> t \<notin> g \<Longrightarrow> asem_step (0, q, g) (Failed t e) (0, q, g)"
| a_enqueue: "t \<notin> set q \<Longrightarrow> t \<notin> g \<Longrightarrow> asem_step (0, q, g) (Slept t) (0, q @ [t], g)"
| a_wake: "t \<notin> set q \<Longrightarrow> t \<in> g \<Longrightarrow> asem_step (n, q, g) (Got t) (n, q, g - {t})"
| a_give_up: "t \<in> set q \<Longrightarrow> asem_step (n, q, g) (Failed t e) (n, remove1 t q, g)"
| a_sleep_on: "t \<in> set q \<Longrightarrow> asem_step (n, q, g) (Slept t) (n, q, g)"
| a_refuse: "asem_step (n, q, g) (Refused t) (n, q, g)"
| a_release: "asem_step (n, [], g) Gave (Suc n, [], g)"
| a_hand_over: "t \<notin> g \<Longrightarrow> asem_step (n, t # q, g) Gave (n, q, insert t g)"

definition sem_abs :: "sem_sys \<Rightarrow> nat \<times> nat list \<times> nat set" where
  "sem_abs s = (unat (sem_count (sem s)), wait_list (sem s), {t. granted s t})"

lemma sem_invD:
  assumes "sem_inv s"
  shows "distinct (wait_list (sem s))" "set (wait_list (sem s)) = {t. waiting s t}"
    "wait_list (sem s) \<noteq> [] \<Longrightarrow> sem_count (sem s) = 0" "finite {t. granted s t}"
  using assms by (auto simp: sem_inv_def)

lemma not_both: "waiting s t \<Longrightarrow> \<not> granted s t"
  by (auto simp: waiting_def granted_def)

lemma sem_inv_intro:
  assumes "distinct (wait_list (sem s))" "\<And>t. t \<in> set (wait_list (sem s)) \<longleftrightarrow> waiting s t"
    "wait_list (sem s) \<noteq> [] \<Longrightarrow> sem_count (sem s) = 0" "finite {t. granted s t}"
  shows "sem_inv s"
  using assms by (simp add: sem_inv_def)

definition sem_sim :: "sem_sys \<Rightarrow> label \<Rightarrow> sem_sys \<Rightarrow> bool" where
  "sem_sim s l s' \<longleftrightarrow> sem_inv s' \<and>
     (sem_count (sem s) + 1 = 0 \<and> l = Gave \<or> asem_step (sem_abs s) l (sem_abs s'))"

lemma take_sim:
  assumes "sem_inv s" "frame s t = None" "sem_count (sem s) \<noteq> 0"
  shows "sem_sim s (Got t) (s\<lparr>sem := (sem s)\<lparr>sem_count := sem_count (sem s) - 1\<rparr>\<rparr>)"
proof -
  have e: "wait_list (sem s) = []" using sem_invD [OF assms(1)] assms(3) by blast
  obtain k where "unat (sem_count (sem s)) = Suc k"
    using assms(3) by (metis not0_implies_Suc unat_eq_zero)
  moreover from this have "unat (sem_count (sem s) - 1) = k"
    using assms(3) by (simp add: unat_minus_one)
  ultimately show ?thesis
    using assms e by (auto simp: sem_sim_def sem_abs_def sem_inv_def granted_def intro!: a_take)
qed

lemma release_sim:
  assumes "sem_inv s"
  shows "sem_sim s Gave (up s)"
proof (cases "wait_list (sem s)")
  case Nil
  have "sem_count (sem s) + 1 \<noteq> 0 \<Longrightarrow> unat (sem_count (sem s) + 1) = Suc (unat (sem_count (sem s)))"
    by (metis add.commute unatSuc)
  then show ?thesis using assms Nil
    by (cases "sem_count (sem s) + 1 = 0")
      (auto simp: sem_sim_def up_def sem_abs_def sem_inv_def intro!: a_release)
next
  case (Cons t q)
  then obtain w where w: "frame s t = Some w" "\<not> w_up w"
    using assms by (auto simp: sem_inv_def waiting_def)
  have u: "up s = s\<lparr>sem := (sem s)\<lparr>wait_list := q\<rparr>, frame := (frame s)(t := Some (w\<lparr>w_up := True\<rparr>))\<rparr>"
    using Cons w by (simp add: up_def uu_up_def)
  have "sem_inv (up s)"
    unfolding u using sem_invD [OF assms] Cons
    by (intro sem_inv_intro) (auto simp: waiting_frame granted_frame)
  moreover have "asem_step (sem_abs s) Gave (sem_abs (up s))"
    using Cons not_both [of s t] w
    by (simp add: u sem_abs_def granted_frame a_hand_over waiting_def)
  ultimately show ?thesis by (simp add: sem_sim_def)
qed

lemma call_sim:
  assumes "sem_inv s" "frame s t = None"
  shows "sem_sim s (down_label t (snd (call_down c p t (sem s)))) (after_down t s (call_down c p t (sem s)))"
proof (cases "sem_count (sem s) > 0")
  case True
  then show ?thesis using take_sim [OF assms] assms(2)
    by (simp add: call_down_eq down_label_def after_down_def fun_upd_idem)
next
  case False
  then have z: "sem_count (sem s) = 0" by (simp add: word_gt_0)
  have t: "t \<notin> set (wait_list (sem s))" "\<not> granted s t" "\<not> waiting s t"
    using assms by (auto simp: sem_inv_def waiting_def granted_def)
  define m where "m = (sem s)\<lparr>wait_list := wait_list (sem s) @ [t]\<rparr>"
  define w where "w = \<lparr>w_state = call_state c, w_timeout = call_timeout c, w_up = False\<rparr>"
  have r: "call_down c p t (sem s) = down_common_loop p t w m"
    using z by (simp add: call_down_eq uu_down_common_def m_def w_def)
  show ?thesis
  proof (cases rule: down_common_loop_cases [of p t w m, case_names failed sleeps])
    case (failed e)
    moreover have "m\<lparr>wait_list := remove1 t (wait_list m)\<rparr> = sem s"
      using t by (simp add: m_def remove1_append)
    ultimately have "after_down t s (call_down c p t (sem s)) = s"
      using assms(2) by (simp add: r after_down_def fun_upd_idem)
    then show ?thesis using failed r t z assms(1)
      by (auto simp: sem_sim_def down_label_def sem_abs_def intro!: a_give_up_at_once)
  next
    case sleeps
    then have a: "after_down t s (call_down c p t (sem s)) =
        s\<lparr>sem := m, frame := (frame s)(t := Some w)\<rparr>"
      by (simp add: r after_down_def)
    have g: "{u. granted (s\<lparr>sem := m, frame := (frame s)(t := Some w)\<rparr>) u} = {u. granted s u}"
      using t by (auto simp: granted_frame w_def)
    have "sem_inv (s\<lparr>sem := m, frame := (frame s)(t := Some w)\<rparr>)"
      using sem_invD [OF assms(1)] t z unfolding m_def w_def
      by (intro sem_inv_intro) (auto simp: waiting_frame granted_frame)
    moreover have "asem_step (sem_abs s) (Slept t) (sem_abs (s\<lparr>sem := m, frame := (frame s)(t := Some w)\<rparr>))"
      using a_enqueue [of t "wait_list (sem s)" "{u. granted s u}"] t z
      by (simp only: sem_abs_def g) (simp add: m_def)
    moreover have "down_label t (snd (call_down c p t (sem s))) = Slept t"
      using sleeps by (simp add: r down_label_def)
    ultimately show ?thesis by (simp only: a sem_sim_def) simp
  qed
qed

lemma leave_sim:
  assumes "sem_inv s" "waiting s t"
  shows "sem_sim s (Failed t e)
    (s\<lparr>sem := (sem s)\<lparr>wait_list := remove1 t (wait_list (sem s))\<rparr>, frame := (frame s)(t := None)\<rparr>)"
proof -
  let ?s = "s\<lparr>sem := (sem s)\<lparr>wait_list := remove1 t (wait_list (sem s))\<rparr>, frame := (frame s)(t := None)\<rparr>"
  note i = sem_invD [OF assms(1)]
  have t: "t \<in> set (wait_list (sem s))" using assms i(2) by auto
  have g: "{u. granted ?s u} = {u. granted s u}"
    using not_both [OF assms(2)] by (auto simp: granted_frame)
  have "sem_inv ?s"
    using i(1,2,4) i(3) [OF length_pos_if_in_set [OF t, THEN iffD1 [OF length_greater_0_conv]]]
    by (intro sem_inv_intro) (auto simp: waiting_frame granted_frame split: if_splits)
  then show ?thesis
    using t by (auto simp: sem_sim_def sem_abs_def g intro!: a_give_up)
qed

lemma resume_sim:
  assumes "sem_inv s" "frame s t = Some w"
  shows "sem_sim s (down_label t (snd (down_common_resume p t to w (sem s))))
    (after_down t s (down_common_resume p t to w (sem s)))"
proof (cases "w_up w")
  case True
  let ?s = "s\<lparr>frame := (frame s)(t := None)\<rparr>"
  note i = sem_invD [OF assms(1)]
  have g: "granted s t" "t \<notin> set (wait_list (sem s))"
    using True assms i(2) by (auto simp: granted_def waiting_def)
  have "sem_inv ?s" using i g
    by (intro sem_inv_intro) (auto simp: waiting_frame_only granted_frame_only)
  then show ?thesis using True g
    by (auto simp: down_common_resume_def after_down_def sem_sim_def sem_abs_def down_label_def
      granted_frame_only intro!: a_wake)
next
  case False
  then have wt: "waiting s t" using assms by (simp add: waiting_def)
  then have t: "t \<in> set (wait_list (sem s))" using sem_invD(2) [OF assms(1)] by auto
  let ?w = "w\<lparr>w_timeout := to\<rparr>"
  show ?thesis
  proof (cases rule: down_common_loop_cases [of p t ?w "sem s", case_names failed sleeps])
    case (failed e)
    then show ?thesis using leave_sim [OF assms(1) wt, of e] False
      by (simp add: down_common_resume_def down_label_def after_down_def)
  next
    case sleeps
    let ?s = "s\<lparr>frame := (frame s)(t := Some ?w)\<rparr>"
    have g: "{u. granted ?s u} = {u. granted s u}"
      using not_both [OF wt] False by (auto simp: granted_frame_only)
    have "sem_inv ?s" using sem_invD [OF assms(1)] False wt
      by (intro sem_inv_intro) (auto simp: waiting_frame_only g)
    then show ?thesis using sleeps False t g
      by (auto simp: down_common_resume_def down_label_def after_down_def sem_sim_def sem_abs_def
        intro!: a_sleep_on)
  qed
qed

lemma sem_step_sim: "sem_step s l s' \<Longrightarrow> sem_inv s \<Longrightarrow> sem_sim s l s'"
proof (induction rule: sem_step.induct)
  case (trylock s t r)
  show ?case
  proof (cases "snd (down_trylock (sem s))")
    case True
    then show ?thesis using trylock
      by (simp add: trylock_state sem_sim_def sem_abs_def a_refuse)
  next
    case False
    then show ?thesis using trylock take_sim [of s t] trylock_refuses [of "sem s"]
      by (simp add: trylock_state)
  qed
qed (simp_all add: call_sim resume_sim release_sim)

lemma sem_run_inv: "sem_run s ls s' \<Longrightarrow> sem_inv s \<Longrightarrow> sem_inv s'"
  by (induction rule: sem_run.induct) (auto dest: sem_step_sim simp: sem_sim_def)

lemma sem_start_inv: "sem_inv (sem_start n)"
  by (simp add: sem_inv_def sem_start_def sema_init_def waiting_def granted_def)

section \<open>Units are neither lost nor created\<close>

definition acquisitions :: "label list \<Rightarrow> nat" where
  "acquisitions ls = length (filter (\<lambda>l. case l of Got _ \<Rightarrow> True | _ \<Rightarrow> False) ls)"

definition releases :: "label list \<Rightarrow> nat" where
  "releases ls = length (filter (\<lambda>l. case l of Gave \<Rightarrow> True | _ \<Rightarrow> False) ls)"

lemma acquisitions_simps [simp]:
  "acquisitions [] = 0" "acquisitions (ls @ ks) = acquisitions ls + acquisitions ks"
  "releases [] = 0" "releases (ls @ ks) = releases ls + releases ks"
  by (simp_all add: acquisitions_def releases_def)

definition units :: "nat \<times> nat list \<times> nat set \<Rightarrow> nat" where
  "units a = fst a + card (snd (snd a))"

lemma asem_units:
  "asem_step a l a' \<Longrightarrow> finite (snd (snd a)) \<Longrightarrow> units a' + acquisitions [l] = units a + releases [l]"
  by (induction rule: asem_step.induct)
    (auto simp: units_def acquisitions_def releases_def card_Suc_Diff1
      simp del: card_Diff_singleton card_Diff_insert)

lemma sem_run_units:
  "sem_run s ls s' \<Longrightarrow> sem_inv s \<Longrightarrow> units (sem_abs s) + releases ls < 2 ^ 32 \<Longrightarrow>
    units (sem_abs s') + acquisitions ls = units (sem_abs s) + releases ls"
proof (induction rule: sem_run.induct)
  case (run_step s ls s' l s'')
  have IH: "units (sem_abs s') + acquisitions ls = units (sem_abs s) + releases ls"
    using run_step by simp
  have i: "sem_inv s'" using run_step sem_run_inv by blast
  have "\<not> (sem_count (sem s') + 1 = 0 \<and> l = Gave)"
  proof
    assume a: "sem_count (sem s') + 1 = 0 \<and> l = Gave"
    then have "sem_count (sem s') = - 1" by (simp add: add_eq_0_iff2)
    then have "unat (sem_count (sem s')) = 2 ^ 32 - 1"
      by (simp add: unsigned_minus_1_eq_mask mask_eq_exp_minus_1)
    moreover have "unat (sem_count (sem s')) \<le> units (sem_abs s')"
      by (simp add: units_def sem_abs_def)
    moreover have "releases [l] = 1" using a by (simp add: releases_def)
    ultimately show False using run_step.prems(2) IH by simp
  qed
  then have "asem_step (sem_abs s') l (sem_abs s'')"
    using sem_step_sim [OF run_step.hyps(2) i] by (auto simp: sem_sim_def)
  then have "units (sem_abs s'') + acquisitions [l] = units (sem_abs s') + releases [l]"
    using sem_invD(4) [OF i] by (intro asem_units) (simp_all add: sem_abs_def)
  then show ?case using IH by simp
qed simp

text \<open>C2: The semaphore neither loses nor invents a unit, whatever the interleaving of
  \<open>down\<close>, \<open>down_interruptible\<close>, \<open>down_killable\<close>, \<open>down_timeout\<close>, \<open>down_trylock\<close> and \<open>up\<close>: started
  with \<open>n\<close> units, the units left, the units handed to waiters that have not run yet and the
  acquisitions so far add up to \<open>n\<close> plus the releases (as long as this number fits the
  \<open>unsigned int\<close> counter). So at most \<open>n\<close> acquisitions are outstanding, and nobody waits while
  a unit is free, even when waiters are interrupted or time out.\<close>

theorem semaphore_conserves_units:
  assumes "sem_run (sem_start n) ls s" "unat n + releases ls < 2 ^ 32"
  shows "unat (sem_count (sem s)) + card {t. granted s t} + acquisitions ls = unat n + releases ls
    \<and> acquisitions ls \<le> unat n + releases ls \<and> (sem_count (sem s) = 0 \<or> (\<forall>t. \<not> waiting s t))"
proof -
  have "units (sem_abs (sem_start n)) = unat n"
    by (simp add: units_def sem_abs_def sem_start_def sema_init_def granted_def)
  then have "unat (sem_count (sem s)) + card {t. granted s t} + acquisitions ls = unat n + releases ls"
    using sem_run_units [OF assms(1) sem_start_inv] assms(2) by (simp add: units_def sem_abs_def)
  moreover have "sem_count (sem s) = 0 \<or> (\<forall>t. \<not> waiting s t)"
    using sem_invD(2,3) [OF sem_run_inv [OF assms(1) sem_start_inv]]
    by (cases "wait_list (sem s)") auto
  ultimately show ?thesis by auto
qed

section \<open>First come, first served\<close>

text \<open>A task in plain \<open>down\<close>: neither a signal nor a timeout ends its wait.\<close>

definition patient :: "sem_sys \<Rightarrow> nat \<Rightarrow> bool" where
  "patient s t = (case frame s t of None \<Rightarrow> False
     | Some w \<Rightarrow> w_state w = TASK_UNINTERRUPTIBLE \<and> w_timeout w = MAX_SCHEDULE_TIMEOUT)"

definition ahead :: "nat \<Rightarrow> nat list \<Rightarrow> nat" where
  "ahead t q = length (takeWhile (\<lambda>u. u \<noteq> t) q)"

lemma ahead_simps [simp]:
  "ahead t (u # q) = (if u = t then 0 else Suc (ahead t q))"
  "t \<in> set q \<Longrightarrow> ahead t (q @ r) = ahead t q"
  by (auto simp: ahead_def)

lemma ahead_remove1: "ahead t (remove1 u q) \<le> ahead t q" if "u \<noteq> t"
  using that by (induction q) (auto simp: ahead_def)

lemma asem_ahead:
  assumes "asem_step a l a'" "t \<in> set (fst (snd a))" "\<And>e. l \<noteq> Failed t e" "distinct (fst (snd a))"
  shows "t \<in> snd (snd a') \<or>
    t \<in> set (fst (snd a')) \<and> ahead t (fst (snd a')) + releases [l] \<le> ahead t (fst (snd a))"
  using assms
  by (induction rule: asem_step.induct) (auto simp: releases_def intro: ahead_remove1)

lemma schedule_timeout_max [simp]:
  "schedule_timeout MAX_SCHEDULE_TIMEOUT j0 j1 = MAX_SCHEDULE_TIMEOUT"
  by (simp add: schedule_timeout_def MAX_SCHEDULE_TIMEOUT_def)

lemma patient_loop:
  assumes "w_state w = TASK_UNINTERRUPTIBLE" "w_timeout w = MAX_SCHEDULE_TIMEOUT"
  shows "down_common_loop p t w m = (m, Sleeping w)"
  using assms by (simp add: down_common_loop_def signal_pending_state_def TASK_UNINTERRUPTIBLE_def
    TASK_INTERRUPTIBLE_def TASK_WAKEKILL_def MAX_SCHEDULE_TIMEOUT_def)

lemma patient_step:
  "sem_step s l s' \<Longrightarrow> patient s t \<Longrightarrow> (\<forall>e. l \<noteq> Failed t e) \<and> (l = Got t \<or> patient s' t)"
proof (induction rule: sem_step.induct)
  case (call s u r c p)
  then show ?case
    by (cases "u = t") (auto simp: patient_def down_label_def after_down_def split: sum.split outcome.split)
next
  case (resume s u w r p j0 j1)
  show ?case
  proof (cases "u = t")
    case True
    then have "w_state w = TASK_UNINTERRUPTIBLE" "w_timeout w = MAX_SCHEDULE_TIMEOUT"
      using resume by (simp_all add: patient_def)
    then show ?thesis using resume True
      by (cases "w_up w") (auto simp: down_common_resume_def patient_loop patient_def
        after_down_def down_label_def)
  next
    case False
    then show ?thesis using resume
      by (auto simp: patient_def down_label_def after_down_def split: sum.split outcome.split)
  qed
next
  case (release s)
  then show ?case
    by (auto simp: up_def uu_up_def patient_def Let_def split: option.splits)
qed (auto simp: patient_def split: option.splits)

lemma granted_step:
  "sem_step s l s' \<Longrightarrow> granted s t \<Longrightarrow> l = Got t \<or> granted s' t"
proof (induction rule: sem_step.induct)
  case (call s u r c p)
  then show ?case by (cases "u = t") (auto simp: granted_def after_down_def)
next
  case (resume s u w r p j0 j1)
  then show ?case
    by (cases "u = t") (auto simp: granted_def after_down_def down_common_resume_def down_label_def)
next
  case (release s)
  then show ?case by (auto simp: granted_def up_def uu_up_def Let_def)
qed (auto simp: granted_def)

lemma patient_run:
  "sem_run s ls s' \<Longrightarrow> sem_inv s \<Longrightarrow> patient s t \<Longrightarrow> t \<in> set (wait_list (sem s)) \<Longrightarrow>
    Got t \<in> set ls \<or> patient s' t \<and> (granted s' t \<or>
      t \<in> set (wait_list (sem s')) \<and> ahead t (wait_list (sem s')) + releases ls \<le> ahead t (wait_list (sem s)))"
proof (induction rule: sem_run.induct)
  case (run_step s ls s' l s'')
  note i = sem_run_inv [OF run_step.hyps(1) run_step.prems(1)]
  note sim = sem_step_sim [OF run_step.hyps(2) i]
  note ps = patient_step [OF run_step.hyps(2)]
  consider "Got t \<in> set (ls @ [l])" | "patient s' t" "patient s'' t" "granted s' t" "l \<noteq> Got t"
    | "patient s' t" "patient s'' t" "t \<in> set (wait_list (sem s'))"
      "ahead t (wait_list (sem s')) + releases ls \<le> ahead t (wait_list (sem s))"
    using run_step ps by auto
  then show ?case
  proof cases
    case 2
    then show ?thesis using granted_step [OF run_step.hyps(2)] by blast
  next
    case 3
    have "sem_count (sem s') + 1 \<noteq> 0"
      using sem_invD(3) [OF i] 3(3) by (cases "wait_list (sem s')") auto
    then have "asem_step (sem_abs s') l (sem_abs s'')"
      using sim by (simp add: sem_sim_def)
    from asem_ahead [OF this, of t] show ?thesis
      using 3 ps sem_invD(1) [OF i] by (auto simp: sem_abs_def)
  qed simp
qed simp


section \<open>A concrete run\<close>

text \<open>A mutex that task 1 takes, for which task 2 sleeps, and that task 1 releases.\<close>

definition demo_taken :: sem_sys where
  "demo_taken = after_down 1 (sem_start 1)
    (down \<lparr>signal_pending = False, uu_fatal_signal_pending = False\<rparr> 1 (sem (sem_start 1)))"

definition demo_queued :: sem_sys where
  "demo_queued = after_down 2 demo_taken
    (down \<lparr>signal_pending = True, uu_fatal_signal_pending = True\<rparr> 2 (sem demo_taken))"

lemmas demo_eval = sem_start_def sema_init_def after_down_def down_def uu_down_def
  uu_down_common_def patient_loop

lemma demo_taken_eq:
  "demo_taken = \<lparr>sem = \<lparr>sem_count = 0, wait_list = []\<rparr>, frame = (\<lambda>_. None)\<rparr>"
  by (simp add: demo_taken_def demo_eval)

lemma demo_queued_eq:
  "demo_queued = \<lparr>sem = \<lparr>sem_count = 0, wait_list = [2]\<rparr>,
     frame = (\<lambda>_. None)(2 \<mapsto> \<lparr>w_state = TASK_UNINTERRUPTIBLE, w_timeout = MAX_SCHEDULE_TIMEOUT, w_up = False\<rparr>)\<rparr>"
  by (simp add: demo_queued_def demo_taken_eq demo_eval)

lemma demo_run: "sem_run (sem_start 1) [Got 1, Slept 2] demo_queued"
proof -
  have "sem_step (sem_start 1) (Got 1) demo_taken"
    using sem_step.call [of "sem_start 1" 1 _ Down "\<lparr>signal_pending = False, uu_fatal_signal_pending = False\<rparr>", OF _ refl]
    unfolding demo_taken_def by (simp add: demo_eval down_label_def)
  moreover have "sem_step demo_taken (Slept 2) demo_queued"
    using sem_step.call [of demo_taken 2 _ Down "\<lparr>signal_pending = True, uu_fatal_signal_pending = True\<rparr>", OF _ refl]
    unfolding demo_queued_def by (simp add: demo_taken_eq demo_eval down_label_def)
  ultimately show ?thesis
    using run_step [OF run_step [OF run_refl]] by fastforce
qed

theorem semaphore_conserves_units_witness:
  "acquisitions [Got 1, Slept 2, Gave] \<le> 2 \<and>
   unat (sem_count (sem (up demo_queued))) + card {t. granted (up demo_queued) t} = 1"
proof -
  have "sem_run (sem_start 1) [Got 1, Slept 2, Gave] (up demo_queued)"
    using run_step [OF demo_run release] by simp
  then show ?thesis
    using semaphore_conserves_units [of 1 "[Got 1, Slept 2, Gave]" "up demo_queued"]
    by (simp add: acquisitions_def releases_def)
qed

end
