(* ===== verification/Lmb.thy ===== *)
theory Lmb
  imports KPrelude
begin

text \<open>
  The logical memory blocks of \<open>lib/lmb.c\<close>: the two tables of memory and reserved blocks that
  the early boot code fills, allocates from and truncates. A table stands for a set of
  addresses; adding, removing and allocating blocks are proved against that set, with 64-bit
  wrap-around kept, and the loops of the allocator are shown to end.
\<close>

section \<open>The tables of memory blocks\<close>

record lmb_property =
  pbase :: u64
  psize :: u64

record lmb_region =
  cnt :: ulong
  rsize :: u64
  region :: "nat \<Rightarrow> lmb_property"

record lmb =
  rmo_size :: u64
  memory :: lmb_region
  reserved :: lmb_region

definition MAX_LMB_REGIONS :: nat where
  "MAX_LMB_REGIONS = 128"

definition LMB_ALLOC_ANYWHERE :: u64 where
  "LMB_ALLOC_ANYWHERE = 0"

definition lmb_addrs_overlap :: "u64 \<Rightarrow> u64 \<Rightarrow> u64 \<Rightarrow> u64 \<Rightarrow> bool" where
  "lmb_addrs_overlap base1 size1 base2 size2 =
    (base1 < base2 + size2 \<and> base2 < base1 + size1)"

definition lmb_addrs_adjacent :: "u64 \<Rightarrow> u64 \<Rightarrow> u64 \<Rightarrow> u64 \<Rightarrow> int" where
  "lmb_addrs_adjacent base1 size1 base2 size2 =
    (if base2 = base1 + size1 then 1 else if base1 = base2 + size2 then - 1 else 0)"

definition lmb_regions_adjacent :: "lmb_region \<Rightarrow> nat \<Rightarrow> nat \<Rightarrow> int" where
  "lmb_regions_adjacent rgn r1 r2 =
    (let base1 = pbase (region rgn r1); size1 = psize (region rgn r1);
         base2 = pbase (region rgn r2); size2 = psize (region rgn r2)
     in lmb_addrs_adjacent base1 size1 base2 size2)"

definition lmb_remove_region :: "lmb_region \<Rightarrow> nat \<Rightarrow> lmb_region" where
  "lmb_remove_region rgn r =
    rgn\<lparr>region := fold (\<lambda>i f. f(i := f (i + 1))) [r..<unat (cnt rgn - 1)] (region rgn),
        cnt := cnt rgn - 1\<rparr>"

definition lmb_coalesce_regions :: "lmb_region \<Rightarrow> nat \<Rightarrow> nat \<Rightarrow> lmb_region" where
  "lmb_coalesce_regions rgn r1 r2 =
    lmb_remove_region (rgn\<lparr>region := (region rgn)(r1 := (region rgn r1)
      \<lparr>psize := psize (region rgn r1) + psize (region rgn r2)\<rparr>)\<rparr>) r2"

text \<open>\<open>lmb\<close> is a static variable: what \<open>lmb_init\<close> does not set keeps its value.\<close>

definition lmb_init_region :: "lmb_region \<Rightarrow> lmb_region" where
  "lmb_init_region rgn = rgn\<lparr>region := (region rgn)(0 := \<lparr>pbase = 0, psize = 0\<rparr>), cnt := 1\<rparr>"

definition lmb_init :: "lmb \<Rightarrow> lmb" where
  "lmb_init l = l\<lparr>memory := lmb_init_region (memory l), reserved := lmb_init_region (reserved l)\<rparr>"

definition lmb_analyze :: "lmb \<Rightarrow> lmb" where
  "lmb_analyze l = l\<lparr>memory := (memory l)\<lparr>rsize :=
     fold (\<lambda>i n. n + psize (region (memory l) i)) [0..<unat (cnt (memory l))] 0\<rparr>\<rparr>"

section \<open>Adding a block\<close>

text \<open>How the loop that looks for a neighbour ends: with the return at an equal block, with
  the break at index \<open>i\<close> after the block has been merged there, or at the end of the table.\<close>

datatype merge = Present | Merged nat lmb_region | Unmerged

fun lmb_merge_loop :: "u64 \<Rightarrow> u64 \<Rightarrow> lmb_region \<Rightarrow> nat list \<Rightarrow> merge" where
  "lmb_merge_loop base sz rgn [] = Unmerged"
| "lmb_merge_loop base sz rgn (i # is) =
    (let rgnbase = pbase (region rgn i); rgnsize = psize (region rgn i)
     in if rgnbase = base \<and> rgnsize = sz then Present
        else let adjacent = lmb_addrs_adjacent base sz rgnbase rgnsize
        in if adjacent > 0 then
             Merged i (rgn\<lparr>region := (region rgn)(i := \<lparr>pbase = rgnbase - sz, psize = rgnsize + sz\<rparr>)\<rparr>)
           else if adjacent < 0 then
             Merged i (rgn\<lparr>region := (region rgn)(i := \<lparr>pbase = rgnbase, psize = rgnsize + sz\<rparr>)\<rparr>)
           else lmb_merge_loop base sz rgn is)"

text \<open>The insertion loop, from index \<open>n - 1\<close> downwards.\<close>

fun lmb_insert_loop :: "u64 \<Rightarrow> u64 \<Rightarrow> (nat \<Rightarrow> lmb_property) \<Rightarrow> nat \<Rightarrow> (nat \<Rightarrow> lmb_property)" where
  "lmb_insert_loop base sz f 0 = f"
| "lmb_insert_loop base sz f (Suc i) =
    (if base < pbase (f i) then lmb_insert_loop base sz (f(i + 1 := f i)) i
     else f(i + 1 := \<lparr>pbase = base, psize = sz\<rparr>))"

definition lmb_insert :: "u64 \<Rightarrow> u64 \<Rightarrow> lmb_region \<Rightarrow> lmb_region" where
  "lmb_insert base sz rgn =
    (let f = lmb_insert_loop base sz (region rgn) (unat (cnt rgn));
         f = (if base < pbase (f 0) then f(0 := \<lparr>pbase = base, psize = sz\<rparr>) else f)
     in rgn\<lparr>region := f, cnt := cnt rgn + 1\<rparr>)"

text \<open>The test after the loop, at the index at which the loop has stopped.\<close>

definition lmb_merge_next :: "lmb_region \<Rightarrow> nat \<Rightarrow> nat \<Rightarrow> nat \<times> lmb_region" where
  "lmb_merge_next rgn i coalesced =
    (if i < unat (cnt rgn - 1) \<and> lmb_regions_adjacent rgn i (i + 1) \<noteq> 0
     then (coalesced + 1, lmb_coalesce_regions rgn i (i + 1)) else (coalesced, rgn))"

definition lmb_add_region :: "lmb_region \<Rightarrow> u64 \<Rightarrow> u64 \<Rightarrow> int \<times> lmb_region" where
  "lmb_add_region rgn base sz =
    (if cnt rgn = 1 \<and> psize (region rgn 0) = 0 then
       (0, rgn\<lparr>region := (region rgn)(0 := \<lparr>pbase = base, psize = sz\<rparr>)\<rparr>)
     else case lmb_merge_loop base sz rgn [0..<unat (cnt rgn)] of
       Present \<Rightarrow> (0, rgn)
     | Merged i rgn \<Rightarrow> (let (coalesced, rgn) = lmb_merge_next rgn i 1 in (int coalesced, rgn))
     | Unmerged \<Rightarrow>
         (let (coalesced, rgn) = lmb_merge_next rgn (unat (cnt rgn)) 0
          in if coalesced \<noteq> 0 then (int coalesced, rgn)
             else if unat (cnt rgn) \<ge> MAX_LMB_REGIONS then (- 1, rgn)
             else (0, lmb_insert base sz rgn)))"

definition lmb_add :: "u64 \<Rightarrow> u64 \<Rightarrow> lmb \<Rightarrow> int \<times> lmb" where
  "lmb_add base sz l =
    (let l = (if base = 0 then l\<lparr>rmo_size := sz\<rparr> else l);
         (r, rgn) = lmb_add_region (memory l) base sz
     in (r, l\<lparr>memory := rgn\<rparr>))"

text \<open>\<open>None\<close> is the \<open>BUG_ON\<close>.\<close>

definition lmb_reserve :: "u64 \<Rightarrow> u64 \<Rightarrow> lmb \<Rightarrow> (int \<times> lmb) option" where
  "lmb_reserve base sz l =
    (if sz = 0 then None
     else let (r, rgn) = lmb_add_region (reserved l) base sz in Some (r, l\<lparr>reserved := rgn\<rparr>))"

section \<open>Removing a block\<close>

definition lmb_set :: "lmb_region \<Rightarrow> nat \<Rightarrow> u64 \<Rightarrow> u64 \<Rightarrow> lmb_region" where
  "lmb_set rgn i base sz = rgn\<lparr>region := (region rgn)(i := \<lparr>pbase = base, psize = sz\<rparr>)\<rparr>"

definition lmb_remove_from :: "lmb_region \<Rightarrow> u64 \<Rightarrow> u64 \<Rightarrow> int \<times> lmb_region" where
  "lmb_remove_from rgn base sz =
    (let rend = base + sz
     in case List.find (\<lambda>i. pbase (region rgn i) \<le> base \<and> rend \<le> pbase (region rgn i) + psize (region rgn i))
          [0..<unat (cnt rgn)] of
       None \<Rightarrow> (- 1, rgn)
     | Some i \<Rightarrow>
        (let rgnbegin = pbase (region rgn i); rgnsize = psize (region rgn i); rgnend = rgnbegin + rgnsize
         in if rgnbegin = base \<and> rgnend = rend then (0, lmb_remove_region rgn i)
            else if rgnbegin = base then (0, lmb_set rgn i rend (rgnsize - sz))
            else if rgnend = rend then (0, lmb_set rgn i rgnbegin (rgnsize - sz))
            else lmb_add_region (lmb_set rgn i rgnbegin (base - rgnbegin)) rend (rgnend - rend)))"

definition lmb_remove :: "u64 \<Rightarrow> u64 \<Rightarrow> lmb \<Rightarrow> int \<times> lmb" where
  "lmb_remove base sz l =
    (let (r, rgn) = lmb_remove_from (memory l) base sz in (r, l\<lparr>memory := rgn\<rparr>))"

section \<open>Allocation\<close>

definition lmb_overlaps_region :: "lmb_region \<Rightarrow> u64 \<Rightarrow> u64 \<Rightarrow> int" where
  "lmb_overlaps_region rgn base sz =
    (case List.find (\<lambda>i. lmb_addrs_overlap base sz (pbase (region rgn i)) (psize (region rgn i)))
       [0..<unat (cnt rgn)] of Some i \<Rightarrow> int i | None \<Rightarrow> - 1)"

definition lmb_align_down :: "u64 \<Rightarrow> u64 \<Rightarrow> u64" where
  "lmb_align_down addr sz = (addr AND NOT (sz - 1))"

definition lmb_align_up :: "u64 \<Rightarrow> u64 \<Rightarrow> u64" where
  "lmb_align_up addr sz = ((addr + (sz - 1)) AND NOT (sz - 1))"

lemma lmb_align_down_le: "lmb_align_down a s \<le> a"
  by (simp add: lmb_align_down_def word_and_le2)

text \<open>The step of the scan goes down, whatever the values and whether or not they wrap.\<close>

lemma scan_descends:
  assumes "0 \<le> lmb_overlaps_region rgn base sz"
    "\<not> pbase (region rgn (nat (lmb_overlaps_region rgn base sz))) < sz"
  shows "lmb_align_down (pbase (region rgn (nat (lmb_overlaps_region rgn base sz))) - sz) align < base"
proof -
  obtain i where i: "lmb_overlaps_region rgn base sz = int i"
      "lmb_addrs_overlap base sz (pbase (region rgn i)) (psize (region rgn i))"
    using assms(1) by (auto simp: lmb_overlaps_region_def find_Some_iff split: option.splits)
  let ?b = "pbase (region rgn i)"
  have "unat ?b < unat (base + sz)" using i(2) by (simp add: lmb_addrs_overlap_def word_less_nat_alt)
  also have "\<dots> \<le> unat base + unat sz" by (simp add: unat_word_ariths)
  finally have "unat (?b - sz) < unat base"
    using assms(2) i(1) by (simp add: unat_sub not_less word_le_nat_alt)
  then show ?thesis
    using lmb_align_down_le [of "?b - sz" align] i(1) by (simp add: word_less_nat_alt word_le_nat_alt)
qed

text \<open>The inner loop of \<open>__lmb_alloc_base\<close>: \<open>Some\<close> is a return of the function.\<close>

function lmb_scan :: "u64 \<Rightarrow> u64 \<Rightarrow> u64 \<Rightarrow> lmb_region \<Rightarrow> u64 \<Rightarrow> (u64 \<times> lmb_region) option" where
  "lmb_scan lmbbase sz align rsv base =
    (if base \<noteq> 0 \<and> lmbbase \<le> base then
       let j = lmb_overlaps_region rsv base sz
       in if j < 0 then
            let (r, rsv') = lmb_add_region rsv base sz
            in Some (if r < 0 then 0 else base, rsv')
          else let res_base = pbase (region rsv (nat j))
          in if res_base < sz then None
             else lmb_scan lmbbase sz align rsv (lmb_align_down (res_base - sz) align)
     else None)"
  by pat_completeness auto
termination
  by (relation "measure (\<lambda>(_, _, _, _, base). unat base)")
    (auto simp: not_less dest!: scan_descends simp flip: word_less_nat_alt)

declare lmb_scan.simps [simp del]

text \<open>The outer loop, from block \<open>n - 1\<close> downwards; \<open>sz\<close> and \<open>max_addr\<close> are the adjusted ones.\<close>

fun lmb_alloc_loop :: "u64 \<Rightarrow> u64 \<Rightarrow> u64 \<Rightarrow> lmb_region \<Rightarrow> lmb_region \<Rightarrow> nat \<Rightarrow> u64 \<times> lmb_region" where
  "lmb_alloc_loop sz align max_addr mem rsv 0 = (0, rsv)"
| "lmb_alloc_loop sz align max_addr mem rsv (Suc i) =
    (let lmbbase = pbase (region mem i); lmbsize = psize (region mem i)
     in if lmbsize < sz then lmb_alloc_loop sz align max_addr mem rsv i
        else if max_addr = LMB_ALLOC_ANYWHERE \<or> lmbbase < max_addr then
          let base = (if max_addr = LMB_ALLOC_ANYWHERE then lmb_align_down (lmbbase + lmbsize - sz) align
                      else lmb_align_down (min (lmbbase + lmbsize) max_addr - sz) align)
          in case lmb_scan lmbbase sz align rsv base of
               Some r \<Rightarrow> r
             | None \<Rightarrow> lmb_alloc_loop sz align max_addr mem rsv i
        else lmb_alloc_loop sz align max_addr mem rsv i)"

text \<open>\<open>real_limit\<close> is the platform's \<open>LMB_REAL_LIMIT\<close>; \<open>None\<close> is the \<open>BUG_ON\<close>.\<close>

definition uu_lmb_alloc_base :: "u64 \<Rightarrow> u64 \<Rightarrow> u64 \<Rightarrow> u64 \<Rightarrow> lmb \<Rightarrow> (u64 \<times> lmb) option" where
  "uu_lmb_alloc_base real_limit sz align max_addr l =
    (if sz = 0 then None
     else let sz = lmb_align_up sz align;
              max_addr = (if max_addr = LMB_ALLOC_ANYWHERE then real_limit else max_addr);
              (r, rsv) = lmb_alloc_loop sz align max_addr (memory l) (reserved l) (unat (cnt (memory l)))
          in Some (r, l\<lparr>reserved := rsv\<rparr>))"

text \<open>\<open>None\<close> is the \<open>BUG_ON\<close> or the \<open>panic\<close>.\<close>

definition lmb_alloc_base :: "u64 \<Rightarrow> u64 \<Rightarrow> u64 \<Rightarrow> u64 \<Rightarrow> lmb \<Rightarrow> (u64 \<times> lmb) option" where
  "lmb_alloc_base real_limit sz align max_addr l =
    (case uu_lmb_alloc_base real_limit sz align max_addr l of
       None \<Rightarrow> None
     | Some (alloc, l) \<Rightarrow> if alloc = 0 then None else Some (alloc, l))"

definition lmb_alloc :: "u64 \<Rightarrow> u64 \<Rightarrow> u64 \<Rightarrow> lmb \<Rightarrow> (u64 \<times> lmb) option" where
  "lmb_alloc real_limit sz align l = lmb_alloc_base real_limit sz align LMB_ALLOC_ANYWHERE l"

section \<open>Allocation near a node\<close>

function lmb_nid_scan :: "u64 \<Rightarrow> u64 \<Rightarrow> u64 \<Rightarrow> lmb_region \<Rightarrow> u64 \<Rightarrow> u64 \<times> lmb_region" where
  "lmb_nid_scan start sz align rsv base =
    (if start \<le> base then
       let j = lmb_overlaps_region rsv base sz
       in if j < 0 then
            let (r, rsv') = lmb_add_region rsv base sz
            in (if r < 0 then NOT 0 else base, rsv')
          else let res_base = pbase (region rsv (nat j))
          in if res_base < sz then (NOT 0, rsv)
             else lmb_nid_scan start sz align rsv (lmb_align_down (res_base - sz) align)
     else (NOT 0, rsv))"
  by pat_completeness auto
termination
  by (relation "measure (\<lambda>(_, _, _, _, base). unat base)")
    (auto simp: not_less dest!: scan_descends simp flip: word_less_nat_alt)

declare lmb_nid_scan.simps [simp del]

definition lmb_alloc_nid_unreserved :: "u64 \<Rightarrow> u64 \<Rightarrow> u64 \<Rightarrow> u64 \<Rightarrow> lmb_region \<Rightarrow> u64 \<times> lmb_region" where
  "lmb_alloc_nid_unreserved start rend sz align rsv =
    lmb_nid_scan start sz align rsv (lmb_align_down (rend - sz) align)"

text \<open>\<open>nid_range\<close> is the caller's function: the end of the part of the range that lies on one
  node, and that node. \<open>None\<close> when its answers never reach the end of the block.\<close>

partial_function (option) lmb_nid_loop ::
  "(u64 \<Rightarrow> u64 \<Rightarrow> u64 \<times> int) \<Rightarrow> u64 \<Rightarrow> u64 \<Rightarrow> int \<Rightarrow> u64 \<Rightarrow> lmb_region \<Rightarrow> u64 \<Rightarrow> (u64 \<times> lmb_region) option" where
  "lmb_nid_loop nid_range sz align nid rend rsv start =
    (if start < rend then
       let (this_end, this_nid) = nid_range start rend
       in if this_nid = nid then
            let (ret, rsv) = lmb_alloc_nid_unreserved start this_end sz align rsv
            in if ret \<noteq> NOT 0 then Some (ret, rsv)
               else lmb_nid_loop nid_range sz align nid rend rsv this_end
          else lmb_nid_loop nid_range sz align nid rend rsv this_end
     else Some (NOT 0, rsv))"

definition lmb_alloc_nid_region ::
  "lmb_property \<Rightarrow> (u64 \<Rightarrow> u64 \<Rightarrow> u64 \<times> int) \<Rightarrow> u64 \<Rightarrow> u64 \<Rightarrow> int \<Rightarrow> lmb_region \<Rightarrow> (u64 \<times> lmb_region) option" where
  "lmb_alloc_nid_region mp nid_range sz align nid rsv =
    (let start = pbase mp; rend = start + psize mp
     in lmb_nid_loop nid_range sz align nid rend rsv (lmb_align_up start align))"

fun lmb_alloc_nid_loop ::
  "(u64 \<Rightarrow> u64 \<Rightarrow> u64 \<times> int) \<Rightarrow> u64 \<Rightarrow> u64 \<Rightarrow> int \<Rightarrow> lmb_property list \<Rightarrow> lmb_region \<Rightarrow> (u64 \<times> lmb_region) option" where
  "lmb_alloc_nid_loop nid_range sz align nid [] rsv = Some (NOT 0, rsv)"
| "lmb_alloc_nid_loop nid_range sz align nid (mp # mps) rsv =
    (case lmb_alloc_nid_region mp nid_range sz align nid rsv of
       None \<Rightarrow> None
     | Some (ret, rsv) \<Rightarrow>
         if ret \<noteq> NOT 0 then Some (ret, rsv) else lmb_alloc_nid_loop nid_range sz align nid mps rsv)"

definition lmb_regions :: "lmb_region \<Rightarrow> lmb_property list" where
  "lmb_regions rgn = map (region rgn) [0..<unat (cnt rgn)]"

definition lmb_alloc_nid ::
  "u64 \<Rightarrow> u64 \<Rightarrow> u64 \<Rightarrow> int \<Rightarrow> (u64 \<Rightarrow> u64 \<Rightarrow> u64 \<times> int) \<Rightarrow> lmb \<Rightarrow> (u64 \<times> lmb) option" where
  "lmb_alloc_nid real_limit sz align nid nid_range l =
    (if sz = 0 then None
     else let sz = lmb_align_up sz align
     in case lmb_alloc_nid_loop nid_range sz align nid (lmb_regions (memory l)) (reserved l) of
          None \<Rightarrow> None
        | Some (ret, rsv) \<Rightarrow>
            if ret \<noteq> NOT 0 then Some (ret, l\<lparr>reserved := rsv\<rparr>)
            else lmb_alloc real_limit sz align (l\<lparr>reserved := rsv\<rparr>))"

section \<open>Queries and the memory limit\<close>

definition lmb_phys_mem_size :: "lmb \<Rightarrow> u64" where
  "lmb_phys_mem_size l = rsize (memory l)"

definition lmb_end_of_DRAM :: "lmb \<Rightarrow> u64" where
  "lmb_end_of_DRAM l =
    (let idx = unat (cnt (memory l) - 1)
     in pbase (region (memory l) idx) + psize (region (memory l) idx))"

fun lmb_limit_loop :: "lmb_region \<Rightarrow> u64 \<Rightarrow> nat list \<Rightarrow> lmb_region" where
  "lmb_limit_loop rgn limit [] = rgn"
| "lmb_limit_loop rgn limit (i # is) =
    (if limit > psize (region rgn i) then lmb_limit_loop rgn (limit - psize (region rgn i)) is
     else (lmb_set rgn i (pbase (region rgn i)) limit)\<lparr>cnt := of_nat i + 1\<rparr>)"

definition lmb_clip :: "u64 \<Rightarrow> lmb_property \<Rightarrow> lmb_property" where
  "lmb_clip memory_limit p =
    (if pbase p > memory_limit then p\<lparr>psize := 0\<rparr>
     else if pbase p + psize p > memory_limit then p\<lparr>psize := memory_limit - pbase p\<rparr> else p)"

lemma cnt_pred: "0 < unat c \<Longrightarrow> unat (c - 1 :: ulong) = unat c - 1"
  by (metis unat_eq_zero unat_minus_one less_irrefl)

text \<open>The loop over the reserved blocks; after a removal the same index is tried again.\<close>

function lmb_reserve_limit :: "u64 \<Rightarrow> lmb_region \<Rightarrow> nat \<Rightarrow> lmb_region" where
  "lmb_reserve_limit memory_limit rgn i =
    (if i < unat (cnt rgn) then
       let p = lmb_clip memory_limit (region rgn i);
           rgn = rgn\<lparr>region := (region rgn)(i := p)\<rparr>
       in if psize p = 0 then lmb_reserve_limit memory_limit (lmb_remove_region rgn i) i
          else lmb_reserve_limit memory_limit rgn (i + 1)
     else rgn)"
  by pat_completeness auto
termination
  by (relation "measure (\<lambda>(_, rgn, i). unat (cnt rgn) - i)")
    (auto simp: lmb_remove_region_def cnt_pred)

declare lmb_reserve_limit.simps [simp del]

definition lmb_enforce_memory_limit :: "u64 \<Rightarrow> lmb \<Rightarrow> lmb" where
  "lmb_enforce_memory_limit memory_limit l =
    (if memory_limit = 0 then l
     else let l = l\<lparr>memory := lmb_limit_loop (memory l) memory_limit [0..<unat (cnt (memory l))]\<rparr>;
              l = (if psize (region (memory l) 0) < rmo_size l
                   then l\<lparr>rmo_size := psize (region (memory l) 0)\<rparr> else l)
          in l\<lparr>reserved := lmb_reserve_limit (lmb_end_of_DRAM l) (reserved l) 0\<rparr>)"

definition lmb_is_reserved :: "lmb \<Rightarrow> u64 \<Rightarrow> bool" where
  "lmb_is_reserved l addr =
    list_ex (\<lambda>p. let upper = pbase p + psize p - 1 in addr \<ge> pbase p \<and> addr \<le> upper)
      (lmb_regions (reserved l))"

text \<open>\<open>None\<close> is the return of \<open>-1\<close>, which leaves the request as it is.\<close>

fun lmb_find_loop :: "u64 \<Rightarrow> u64 \<Rightarrow> lmb_property list \<Rightarrow> lmb_property option" where
  "lmb_find_loop rstart rend [] = None"
| "lmb_find_loop rstart rend (p # ps) =
    (let start = pbase p; pend = start + psize p - 1
     in if start > rend then None
        else if pend \<ge> rstart \<and> start < rend then
          let rstart = (if rstart < start then start else rstart);
              rend = (if rend > pend then pend else rend)
          in Some \<lparr>pbase = rstart, psize = rend - rstart + 1\<rparr>
        else lmb_find_loop rstart rend ps)"

definition lmb_find :: "lmb \<Rightarrow> lmb_property \<Rightarrow> lmb_property option" where
  "lmb_find l res =
    (let rstart = pbase res; rend = rstart + psize res - 1
     in lmb_find_loop rstart rend (lmb_regions (memory l)))"

section \<open>What the tables stand for\<close>

text \<open>The addresses of a block and of a table, and the well-formedness of a table: at most
  \<open>MAX_LMB_REGIONS\<close> non-empty blocks, none of which reaches the end of the address space, in
  ascending order and disjoint; or the dummy block of \<open>lmb_init\<close>.\<close>

definition pend :: "lmb_property \<Rightarrow> nat" where
  "pend p = unat (pbase p) + unat (psize p)"

definition span :: "lmb_property \<Rightarrow> nat set" where
  "span p = {unat (pbase p)..<pend p}"

definition block_ok :: "lmb_property \<Rightarrow> bool" where
  "block_ok p = (0 < unat (psize p) \<and> pend p < 2 ^ 64)"

definition blocks_ok :: "lmb_property list \<Rightarrow> bool" where
  "blocks_ok ps = (sorted_wrt (\<lambda>p q. pend p \<le> unat (pbase q)) ps \<and> (\<forall>p\<in>set ps. block_ok p))"

definition dummy :: "lmb_region \<Rightarrow> bool" where
  "dummy rgn = (cnt rgn = 1 \<and> psize (region rgn 0) = 0)"

definition rgn_ok :: "lmb_region \<Rightarrow> bool" where
  "rgn_ok rgn = (unat (cnt rgn) \<le> MAX_LMB_REGIONS \<and> cnt rgn \<noteq> 0 \<and>
     (dummy rgn \<or> blocks_ok (lmb_regions rgn)))"

definition covers :: "lmb_region \<Rightarrow> nat set" where
  "covers rgn = (\<Union>p\<in>set (lmb_regions rgn). span p)"

section \<open>Lists of blocks\<close>

lemma span_eq_empty [simp]: "span p = {} \<longleftrightarrow> unat (psize p) = 0"
  by (simp add: span_def pend_def)

lemma disjoint_spans:
  assumes "block_ok p" "block_ok q"
  shows "span p \<inter> span q = {} \<longleftrightarrow> pend p \<le> unat (pbase q) \<or> pend q \<le> unat (pbase p)"
  using assms by (auto simp: span_def pend_def block_ok_def Int_atLeastLessThan)

lemma blocks_ok_append:
  "blocks_ok (ps @ qs) \<longleftrightarrow> blocks_ok ps \<and> blocks_ok qs \<and> (\<forall>p\<in>set ps. \<forall>q\<in>set qs. pend p \<le> unat (pbase q))"
  by (auto simp: blocks_ok_def sorted_wrt_append)

lemma blocks_ok_Cons:
  "blocks_ok (p # ps) \<longleftrightarrow> block_ok p \<and> blocks_ok ps \<and> (\<forall>q\<in>set ps. pend p \<le> unat (pbase q))"
  by (auto simp: blocks_ok_def)

lemmas blocks_simps = blocks_ok_append blocks_ok_Cons

text \<open>A new block that is disjoint from the others goes between those that start before its
  end and those that end after its start.\<close>

lemma blocks_insert:
  assumes "blocks_ok (ps @ qs)" "block_ok p" "\<forall>q\<in>set (ps @ qs). span p \<inter> span q = {}"
    "\<forall>q\<in>set ps. unat (pbase q) < pend p" "\<forall>q\<in>set qs. unat (pbase p) < pend q"
  shows "blocks_ok (ps @ p # qs)"
proof -
  have "pend p \<le> unat (pbase q) \<or> pend q \<le> unat (pbase p)" if "q \<in> set (ps @ qs)" for q
    using that disjoint_spans [OF assms(2), of q] assms(1,3) by (auto simp: blocks_ok_def)
  then show ?thesis using assms
    by (fastforce simp: blocks_simps)
qed

lemma blocks_fuse:
  assumes "blocks_ok (ps @ p # q # qs)" "pend p = unat (pbase q)"
    "unat (pbase r) = unat (pbase p)" "unat (psize r) = unat (psize p) + unat (psize q)"
  shows "blocks_ok (ps @ r # qs)" "span r = span p \<union> span q"
  using assms by (auto simp: blocks_simps span_def block_ok_def pend_def)

lemma blocks_start_end:
  assumes "blocks_ok (ps @ q # qs)"
  shows "\<forall>x\<in>set ps. unat (pbase x) < pend q" "\<forall>x\<in>set qs. pend q < pend x" "unat (pbase q) < pend q"
    "\<forall>x\<in>set ps. unat (pbase x) < unat (pbase q)"
proof -
  have q: "block_ok q" and qs: "\<forall>x\<in>set qs. block_ok x \<and> pend q \<le> unat (pbase x)"
    and ps: "\<forall>x\<in>set ps. block_ok x \<and> pend x \<le> unat (pbase q)"
    using assms by (auto simp: blocks_ok_def sorted_wrt_append)
  show "unat (pbase q) < pend q" using q by (simp add: block_ok_def pend_def)
  show "\<forall>x\<in>set qs. pend q < pend x" using qs by (fastforce simp: block_ok_def pend_def)
  show b: "\<forall>x\<in>set ps. unat (pbase x) < unat (pbase q)" using ps by (fastforce simp: block_ok_def pend_def)
  then show "\<forall>x\<in>set ps. unat (pbase x) < pend q" by (fastforce simp: pend_def)
qed

section \<open>The tables as lists\<close>

lemma length_lmb_regions [simp]: "length (lmb_regions rgn) = unat (cnt rgn)"
  by (simp add: lmb_regions_def)

lemma nth_lmb_regions: "i < unat (cnt rgn) \<Longrightarrow> lmb_regions rgn ! i = region rgn i"
  by (simp add: lmb_regions_def)

lemma lmb_regions_split:
  assumes "i < unat (cnt rgn)"
  obtains ps qs where "lmb_regions rgn = ps @ region rgn i # qs" "length ps = i"
  using id_take_nth_drop [of i "lmb_regions rgn"] assms
  by (metis length_lmb_regions length_take min.absorb4 nth_lmb_regions)

lemma lmb_regions_set:
  assumes "lmb_regions rgn = ps @ q # qs"
  shows "lmb_regions (lmb_set rgn (length ps) b s) = ps @ \<lparr>pbase = b, psize = s\<rparr> # qs"
proof -
  have "lmb_regions (lmb_set rgn i b s) = (lmb_regions rgn)[i := \<lparr>pbase = b, psize = s\<rparr>]" for i
    by (rule nth_equalityI) (auto simp: lmb_regions_def lmb_set_def nth_list_update)
  then show ?thesis using assms by simp
qed

lemma shift_down:
  "fold (\<lambda>i f. f(i := f (Suc i))) [r..<n] f = (\<lambda>j. if r \<le> j \<and> j < n then f (Suc j) else f j)"
  by (induction n) (auto simp: fun_eq_iff)

lemma psize_upd: "p\<lparr>psize := s\<rparr> = \<lparr>pbase = pbase p, psize = s\<rparr>"
  by (cases p) simp

lemma lmb_regions_remove:
  assumes "lmb_regions rgn = ps @ q # qs"
  shows "lmb_regions (lmb_remove_region rgn (length ps)) = ps @ qs"
proof -
  have n: "unat (cnt rgn) = Suc (length ps + length qs)"
    using assms by (metis add_Suc_right length_Cons length_append length_lmb_regions)
  have f: "region rgn i = (ps @ q # qs) ! i" if "i < unat (cnt rgn)" for i
    using that assms nth_lmb_regions by metis
  show ?thesis
    by (rule nth_equalityI)
      (auto simp: lmb_regions_def lmb_remove_region_def shift_down cnt_pred n f nth_append nth_Cons')
qed

lemma lmb_regions_coalesce:
  assumes "lmb_regions rgn = ps @ p # q # qs"
  shows "lmb_regions (lmb_coalesce_regions rgn (length ps) (Suc (length ps))) =
    ps @ \<lparr>pbase = pbase p, psize = psize p + psize q\<rparr> # qs"
proof -
  let ?i = "length ps"
  have "unat (cnt rgn) = Suc (Suc (length ps + length qs))"
    using assms by (metis add_Suc_right length_Cons length_append length_lmb_regions)
  then have r: "region rgn ?i = p" "region rgn (Suc ?i) = q"
    using nth_lmb_regions [of ?i rgn] nth_lmb_regions [of "Suc ?i" rgn] assms
    by (simp_all add: nth_append)
  have "lmb_regions (lmb_set rgn ?i (pbase p) (psize p + psize q)) =
      (ps @ [\<lparr>pbase = pbase p, psize = psize p + psize q\<rparr>]) @ q # qs"
    using lmb_regions_set [OF assms] by simp
  from lmb_regions_remove [OF this] show ?thesis
    by (simp add: lmb_coalesce_regions_def lmb_set_def r psize_upd)
qed

text \<open>Where the insertion loop stops.\<close>

fun ins_pos :: "u64 \<Rightarrow> (nat \<Rightarrow> lmb_property) \<Rightarrow> nat \<Rightarrow> nat" where
  "ins_pos b f 0 = 0"
| "ins_pos b f (Suc n) = (if b < pbase (f n) then ins_pos b f n else Suc n)"

lemma ins_pos_cong: "\<forall>j<n. f j = g j \<Longrightarrow> ins_pos b f n = ins_pos b g n"
  by (induction n) auto

lemma ins_pos_le: "ins_pos b f n \<le> n"
  by (induction n) auto

lemma ins_pos_above: "ins_pos b f n \<le> j \<Longrightarrow> j < n \<Longrightarrow> b < pbase (f j)"
  by (induction n) (auto simp: less_Suc_eq split: if_splits)

lemma ins_pos_below: "0 < ins_pos b f n \<Longrightarrow> \<not> b < pbase (f (ins_pos b f n - 1))"
  by (induction n) auto

lemma insert_loop_eq:
  "lmb_insert_loop b s f n = (\<lambda>j. if n < j then f j else if ins_pos b f n < j then f (j - 1)
     else if j = ins_pos b f n \<and> 0 < j then \<lparr>pbase = b, psize = s\<rparr> else f j)"
proof (induction n arbitrary: f)
  case (Suc n)
  show ?case
  proof (cases "b < pbase (f n)")
    case True
    have "ins_pos b (f(n + 1 := f n)) n = ins_pos b f n"
      by (rule ins_pos_cong) simp
    then show ?thesis using True ins_pos_le [of b f n]
      by (auto simp: Suc.IH fun_eq_iff le_Suc_eq not_less)
  qed (auto simp: fun_eq_iff)
qed (auto simp: fun_eq_iff)

lemma lmb_regions_insert:
  assumes "unat (cnt rgn) < MAX_LMB_REGIONS" "blocks_ok (lmb_regions rgn)" "cnt rgn \<noteq> 0"
  obtains ps qs where "lmb_regions rgn = ps @ qs"
    "lmb_regions (lmb_insert b s rgn) = ps @ \<lparr>pbase = b, psize = s\<rparr> # qs"
    "\<forall>q\<in>set ps. unat (pbase q) \<le> unat b" "\<forall>q\<in>set qs. unat b < unat (pbase q)"
proof
  define n where "n = unat (cnt rgn)"
  define k where "k = ins_pos b (region rgn) n"
  have n: "0 < n" "n < 128" using assms by (simp_all add: n_def MAX_LMB_REGIONS_def unat_gt_0)
  have k: "k \<le> n" by (simp add: k_def ins_pos_le)
  have c: "unat (cnt rgn + 1) = Suc n"
    using n by (simp add: n_def unat_word_ariths)
  let ?ps = "take k (lmb_regions rgn)" and ?qs = "drop k (lmb_regions rgn)"
  show "lmb_regions rgn = ?ps @ ?qs" by simp
  have mono: "unat (pbase (region rgn i)) \<le> unat (pbase (region rgn j))" if "i \<le> j" "j < n" for i j
    using that assms(2) by (fastforce simp: blocks_ok_def sorted_wrt_iff_nth_less nth_lmb_regions n_def pend_def
      le_eq_less_or_eq)
  have lo: "unat (pbase (region rgn i)) \<le> unat b" if "i < k" for i
  proof -
    have "i \<le> k - 1" "k - 1 < n" "0 < k" using that k by auto
    then show ?thesis
      using ins_pos_below [of b "region rgn" n] mono [of i "k - 1"]
      by (simp add: k_def not_less word_le_nat_alt)
  qed
  have hi: "b < pbase (region rgn i)" if "k \<le> i" "i < n" for i
    using ins_pos_above [of b "region rgn" n i] that by (simp add: k_def)
  show "\<forall>q\<in>set ?ps. unat (pbase q) \<le> unat b"
    using lo k by (auto simp: in_set_conv_nth nth_lmb_regions n_def)
  show "\<forall>q\<in>set ?qs. unat b < unat (pbase q)"
    using hi k by (auto simp: in_set_conv_nth nth_lmb_regions n_def word_less_nat_alt)
  have f0: "b < pbase (lmb_insert_loop b s (region rgn) n 0) \<longleftrightarrow> k = 0"
    using lo [of 0] hi [of 0] n
    by (cases "k = 0") (auto simp: insert_loop_eq k_def [symmetric] not_less word_less_nat_alt)
  show "lmb_regions (lmb_insert b s rgn) = ?ps @ \<lparr>pbase = b, psize = s\<rparr> # ?qs"
  proof (rule nth_equalityI)
    fix i assume "i < length (lmb_regions (lmb_insert b s rgn))"
    then have i: "i \<le> n" using c by (simp add: lmb_insert_def Let_def)
    then have "lmb_regions (lmb_insert b s rgn) ! i =
        (if k < i then region rgn (i - 1) else if i = k then \<lparr>pbase = b, psize = s\<rparr> else region rgn i)"
      using c f0 k by (auto simp: nth_lmb_regions lmb_insert_def Let_def insert_loop_eq n_def [symmetric] k_def [symmetric])
    then show "lmb_regions (lmb_insert b s rgn) ! i = (?ps @ \<lparr>pbase = b, psize = s\<rparr> # ?qs) ! i"
      using i k by (auto simp: nth_append nth_Cons' nth_lmb_regions n_def [symmetric])
  qed (use c k in \<open>simp add: lmb_insert_def Let_def n_def\<close>)
qed

section \<open>Adding a block\<close>

lemma unat_add64: "unat a + unat b < 2 ^ 64 \<Longrightarrow> unat (a + b :: u64) = unat a + unat b"
  using unat_add_lem [of a b] by simp

lemma adjacent_iff:
  assumes "unat b1 + unat s1 < 2 ^ 64" "unat b2 + unat s2 < 2 ^ 64"
  shows "lmb_addrs_adjacent b1 s1 b2 s2 =
    (if unat b2 = unat b1 + unat s1 then 1 else if unat b1 = unat b2 + unat s2 then - 1 else 0)"
  using unat_add64 [OF assms(1)] unat_add64 [OF assms(2)]
  by (simp add: lmb_addrs_adjacent_def word_unat_eq_iff)

lemma merge_loop_cases:
  "case lmb_merge_loop b s rgn ks of
     Present \<Rightarrow> \<exists>i\<in>set ks. region rgn i = \<lparr>pbase = b, psize = s\<rparr>
   | Merged i rgn' \<Rightarrow> i \<in> set ks \<and>
       (let q = region rgn i in
        lmb_addrs_adjacent b s (pbase q) (psize q) > 0 \<and> rgn' = lmb_set rgn i (pbase q - s) (psize q + s)
        \<or> lmb_addrs_adjacent b s (pbase q) (psize q) < 0 \<and> rgn' = lmb_set rgn i (pbase q) (psize q + s))
   | Unmerged \<Rightarrow> \<forall>i\<in>set ks. lmb_addrs_adjacent b s (pbase (region rgn i)) (psize (region rgn i)) = 0"
  by (induction ks) (auto simp: Let_def lmb_set_def split: merge.splits)

lemma lmb_merge_next_ok:
  assumes "blocks_ok (lmb_regions rgn)" "cnt rgn \<noteq> 0" "lmb_merge_next rgn i c = (c', rgn')"
  shows "blocks_ok (lmb_regions rgn') \<and> covers rgn' = covers rgn \<and> cnt rgn' \<noteq> 0 \<and>
    unat (cnt rgn') \<le> unat (cnt rgn) \<and> c \<le> c'"
proof (cases "i < unat (cnt rgn - 1) \<and> lmb_regions_adjacent rgn i (i + 1) \<noteq> 0")
  case True
  have c: "unat (cnt rgn - 1) = unat (cnt rgn) - 1" using assms(2) by (simp add: unat_minus_one)
  then have i: "Suc i < unat (cnt rgn)" using True by linarith
  obtain ps qs where l: "lmb_regions rgn = ps @ region rgn i # qs" "length ps = i"
    using lmb_regions_split [of i rgn] i by auto
  then have "qs \<noteq> []" using i length_lmb_regions [of rgn] by fastforce
  then obtain rs where q: "qs = region rgn (Suc i) # rs"
    using nth_lmb_regions [OF i] l by (cases qs) (auto simp: nth_append)
  let ?p = "region rgn i" and ?q = "region rgn (Suc i)"
  have ok: "blocks_ok (ps @ ?p # ?q # rs)" using assms(1) l q by simp
  then have b: "pend ?p \<le> unat (pbase ?q)" "pend ?p < 2 ^ 64" "pend ?q < 2 ^ 64" "unat (pbase ?q) < pend ?q"
    by (auto simp: blocks_simps block_ok_def pend_def)
  have adj: "pend ?p = unat (pbase ?q)"
    using True b adjacent_iff [of "pbase ?p" "psize ?p" "pbase ?q" "psize ?q"]
    by (auto simp: lmb_regions_adjacent_def Let_def pend_def split: if_splits)
  let ?r = "\<lparr>pbase = pbase ?p, psize = psize ?p + psize ?q\<rparr>"
  have "unat (psize ?r) = unat (psize ?p) + unat (psize ?q)"
    using b adj by (simp add: unat_add64 pend_def)
  note f = blocks_fuse [OF ok adj _ this]
  have r: "rgn' = lmb_coalesce_regions rgn i (Suc i)" "c \<le> c'" using assms(3) True by (auto simp: lmb_merge_next_def)
  have l': "lmb_regions rgn' = ps @ ?r # rs"
    using lmb_regions_coalesce [of rgn ps ?p ?q rs] l q r by simp
  have "cnt rgn' = cnt rgn - 1" by (simp add: r lmb_coalesce_regions_def lmb_remove_region_def)
  then have "cnt rgn' \<noteq> 0" "unat (cnt rgn') \<le> unat (cnt rgn)"
    using c i by (auto simp: word_unat_eq_iff)
  then show ?thesis using f l l' q r(2) by (auto simp: covers_def)
next
  case False
  then show ?thesis using assms by (auto simp: lmb_merge_next_def)
qed

lemma merged_ok:
  assumes "rgn_ok rgn" "\<not> dummy rgn" "block_ok p" "covers rgn \<inter> span p = {}"
    "lmb_merge_loop (pbase p) (psize p) rgn [0..<unat (cnt rgn)] = Merged i rgn'"
  shows "blocks_ok (lmb_regions rgn') \<and> covers rgn' = covers rgn \<union> span p \<and> cnt rgn' = cnt rgn"
proof -
  let ?q = "region rgn i"
  have i: "i < unat (cnt rgn)" using merge_loop_cases [where b = "pbase p" and s = "psize p" and rgn = rgn and ks = "[0..<unat (cnt rgn)]"] assms(5) by auto
  then obtain ps qs where l: "lmb_regions rgn = ps @ ?q # qs" "length ps = i"
    using lmb_regions_split by blast
  have ok: "blocks_ok (ps @ ?q # qs)" using assms l by (simp add: rgn_ok_def)
  have dis: "\<forall>q\<in>set (ps @ ?q # qs). span p \<inter> span q = {}"
    using assms(4) l by (auto simp: covers_def)
  note se = blocks_start_end [OF ok]
  have q: "pend ?q < 2 ^ 64" "0 < unat (psize ?q)" using ok by (auto simp: blocks_simps block_ok_def)
  have p: "unat (pbase p) < pend p" "pend p < 2 ^ 64" using assms(3) by (auto simp: block_ok_def pend_def)
  have adj: "lmb_addrs_adjacent (pbase p) (psize p) (pbase ?q) (psize ?q) =
      (if unat (pbase ?q) = pend p then 1 else if unat (pbase p) = pend ?q then - 1 else 0)"
    using adjacent_iff [of "pbase p" "psize p" "pbase ?q" "psize ?q"] p q by (simp add: pend_def)
  consider "unat (pbase ?q) = pend p" "rgn' = lmb_set rgn i (pbase ?q - psize p) (psize ?q + psize p)"
    | "unat (pbase p) = pend ?q" "rgn' = lmb_set rgn i (pbase ?q) (psize ?q + psize p)"
    using merge_loop_cases [where b = "pbase p" and s = "psize p" and rgn = rgn and ks = "[0..<unat (cnt rgn)]"] assms(5) adj
    by (auto simp: Let_def split: if_splits)
  then show ?thesis
  proof cases
    case 1
    have w: "psize p \<le> pbase ?q" using 1 by (simp add: word_le_nat_alt pend_def)
    have "blocks_ok (ps @ p # ?q # qs)"
      using blocks_insert [of ps "?q # qs" p] ok dis assms(3) se p 1(1) by fastforce
    from blocks_fuse [OF this 1(1) [symmetric], of "\<lparr>pbase = pbase ?q - psize p, psize = psize ?q + psize p\<rparr>"]
    show ?thesis using 1 q p w lmb_regions_set [OF l(1)] l
      by (auto simp: covers_def unat_add64 pend_def unat_sub lmb_set_def)
  next
    case 2
    have "blocks_ok ((ps @ [?q]) @ p # qs)"
      using blocks_insert [of "ps @ [?q]" qs p] ok dis assms(3) se p 2(1) by fastforce
    then have "blocks_ok (ps @ ?q # p # qs)" by simp
    from blocks_fuse [OF this 2(1) [symmetric], of "\<lparr>pbase = pbase ?q, psize = psize ?q + psize p\<rparr>"]
    show ?thesis using 2 q p lmb_regions_set [OF l(1)] l
      by (auto simp: covers_def unat_add64 pend_def lmb_set_def)
  qed
qed

lemma dummy_covers: "dummy rgn \<Longrightarrow> covers rgn = {}"
  by (simp add: dummy_def covers_def lmb_regions_def)

lemma blocks_ok_not_dummy: "cnt rgn \<noteq> 0 \<Longrightarrow> blocks_ok (lmb_regions rgn) \<Longrightarrow> \<not> dummy rgn"
  by (auto simp: dummy_def blocks_ok_def lmb_regions_def block_ok_def)

text \<open>The table after a block has been added: the error case needs a full table in which the
  new block has no neighbour.\<close>

definition added :: "lmb_region \<Rightarrow> lmb_property \<Rightarrow> int \<Rightarrow> lmb_region \<Rightarrow> bool" where
  "added rgn p r rgn' \<longleftrightarrow>
    (if r < 0 then r = - 1 \<and> rgn' = rgn \<and> unat (cnt rgn) = MAX_LMB_REGIONS \<and>
       (\<forall>q\<in>set (lmb_regions rgn). pend q \<noteq> unat (pbase p) \<and> pend p \<noteq> unat (pbase q))
     else rgn_ok rgn' \<and> \<not> dummy rgn' \<and> covers rgn' = covers rgn \<union> span p)"

lemma insert_ok:
  assumes "rgn_ok rgn" "\<not> dummy rgn" "block_ok p" "covers rgn \<inter> span p = {}"
    "unat (cnt rgn) < MAX_LMB_REGIONS"
  shows "added rgn p 0 (lmb_insert (pbase p) (psize p) rgn)"
proof -
  let ?r = "lmb_insert (pbase p) (psize p) rgn"
  have b: "blocks_ok (lmb_regions rgn)" "cnt rgn \<noteq> 0" using assms by (auto simp: rgn_ok_def)
  obtain ps qs where l: "lmb_regions rgn = ps @ qs" "lmb_regions ?r = ps @ p # qs"
      "\<forall>q\<in>set ps. unat (pbase q) \<le> unat (pbase p)" "\<forall>q\<in>set qs. unat (pbase p) < unat (pbase q)"
    by (rule lmb_regions_insert [OF assms(5) b, of "pbase p" "psize p"]) simp
  have "blocks_ok (ps @ p # qs)"
  proof (rule blocks_insert)
    show "\<forall>q\<in>set (ps @ qs). span p \<inter> span q = {}" using assms(4) l(1) by (auto simp: covers_def)
    show "\<forall>q\<in>set ps. unat (pbase q) < pend p" using l(3) assms(3) by (fastforce simp: block_ok_def pend_def)
    show "\<forall>q\<in>set qs. unat (pbase p) < pend q" using l(4) by (fastforce simp: pend_def)
  qed (use b l assms in auto)
  moreover have c: "unat (cnt ?r) = Suc (unat (cnt rgn))"
    using assms(5) by (simp add: lmb_insert_def Let_def unat_word_ariths MAX_LMB_REGIONS_def)
  moreover have "cnt ?r \<noteq> 0" using c by (metis nat.distinct(1) unsigned_0)
  ultimately show ?thesis
    using assms(5) l blocks_ok_not_dummy [of ?r] by (auto simp: added_def rgn_ok_def covers_def)
qed

lemma lmb_add_region_ok:
  assumes "rgn_ok rgn" "block_ok p" "covers rgn \<inter> span p = {}"
    "lmb_add_region rgn (pbase p) (psize p) = (r, rgn')"
  shows "added rgn p r rgn'"
proof (cases "dummy rgn")
  case True
  then have r: "r = 0" "rgn' = lmb_set rgn 0 (pbase p) (psize p)"
    using assms(4) by (simp_all add: lmb_add_region_def dummy_def lmb_set_def)
  have c: "cnt rgn = 1" using True by (simp add: dummy_def)
  then have l: "lmb_regions rgn' = [p]" by (simp add: r lmb_regions_def lmb_set_def)
  then have "covers rgn' = covers rgn \<union> span p" unfolding dummy_covers [OF True] by (simp add: covers_def)
  moreover have "\<not> dummy rgn'" using assms(2) by (auto simp: r dummy_def lmb_set_def block_ok_def)
  moreover have "cnt rgn' = 1" using c by (simp add: r lmb_set_def)
  ultimately show ?thesis using r(1) l assms(2)
    by (simp add: added_def rgn_ok_def blocks_ok_def MAX_LMB_REGIONS_def)
next
  case False
  have ok: "blocks_ok (lmb_regions rgn)" "cnt rgn \<noteq> 0" "unat (cnt rgn) \<le> MAX_LMB_REGIONS"
    using assms(1) False by (auto simp: rgn_ok_def)
  note mc = merge_loop_cases [where b = "pbase p" and s = "psize p" and rgn = rgn and ks = "[0..<unat (cnt rgn)]"]
  have nd: "\<not> (cnt rgn = 1 \<and> psize (region rgn 0) = 0)" using False by (simp add: dummy_def)
  show ?thesis
  proof (cases "lmb_merge_loop (pbase p) (psize p) rgn [0..<unat (cnt rgn)]")
    case Present
    then have "p \<in> set (lmb_regions rgn)" using mc by (auto simp: lmb_regions_def intro!: image_eqI)
    then have "span p = {}" using assms(3) unfolding covers_def by blast
    then show ?thesis using assms(2) by (simp add: block_ok_def)
  next
    case (Merged i rgn1)
    obtain c rgn2 where n: "lmb_merge_next rgn1 i 1 = (c, rgn2)" by fastforce
    have r: "r = int c" "rgn' = rgn2" using assms(4) nd Merged n by (auto simp: lmb_add_region_def)
    note m = merged_ok [OF assms(1) False assms(2,3) Merged]
    show ?thesis
      using lmb_merge_next_ok [OF _ _ n] m ok r blocks_ok_not_dummy [of rgn2]
      by (auto simp: added_def rgn_ok_def)
  next
    case Unmerged
    have "lmb_merge_next rgn (unat (cnt rgn)) 0 = (0, rgn)"
      using ok(2) by (auto simp: lmb_merge_next_def unat_minus_one)
    then have r: "(r, rgn') = (if MAX_LMB_REGIONS \<le> unat (cnt rgn) then (- 1, rgn) else (0, lmb_insert (pbase p) (psize p) rgn))"
      using assms(4) nd Unmerged by (auto simp: lmb_add_region_def)
    have "pend q \<noteq> unat (pbase p) \<and> pend p \<noteq> unat (pbase q)" if q: "q \<in> set (lmb_regions rgn)" for q
    proof -
      have "pend p < 2 ^ 64" "pend q < 2 ^ 64" using assms(2) ok(1) q by (auto simp: blocks_ok_def block_ok_def)
      then show ?thesis
        using adjacent_iff [of "pbase p" "psize p" "pbase q" "psize q"] mc Unmerged q
        by (auto simp: pend_def lmb_regions_def split: if_splits)
    qed
    then show ?thesis using r insert_ok [OF assms(1) False assms(2,3)] ok(3)
      by (auto simp: added_def split: if_splits)
  qed
qed

section \<open>Removing a block\<close>

lemma span_subset_iff:
  assumes "block_ok p"
  shows "span p \<subseteq> span q \<longleftrightarrow> unat (pbase q) \<le> unat (pbase p) \<and> pend p \<le> pend q"
  using assms by (auto simp: span_def block_ok_def pend_def)

lemma remove_hit:
  assumes "rgn_ok rgn" "block_ok p" "q \<in> set (lmb_regions rgn)"
  shows "pbase q \<le> pbase p \<and> pbase p + psize p \<le> pbase q + psize q \<longleftrightarrow> span p \<subseteq> span q"
proof (cases "dummy rgn")
  case True
  then have "psize q = 0" using assms(3) by (auto simp: dummy_def lmb_regions_def)
  moreover have "unat (pbase p + psize p) = pend p" using assms(2) by (simp add: block_ok_def pend_def unat_add64)
  ultimately show ?thesis using assms(2)
    by (auto simp: span_subset_iff [OF assms(2)] word_le_nat_alt pend_def block_ok_def)
next
  case False
  then have "block_ok q" using assms by (auto simp: rgn_ok_def blocks_ok_def)
  then have "unat (pbase q + psize q) = pend q" "unat (pbase p + psize p) = pend p"
    using assms(2) by (simp_all add: block_ok_def pend_def unat_add64)
  then show ?thesis by (simp add: span_subset_iff [OF assms(2)] word_le_nat_alt)
qed

lemma remove_find:
  assumes "rgn_ok rgn" "block_ok p"
  shows "case List.find (\<lambda>i. pbase (region rgn i) \<le> pbase p \<and> pbase p + psize p \<le> pbase (region rgn i) + psize (region rgn i))
      [0..<unat (cnt rgn)] of
     None \<Rightarrow> \<forall>q\<in>set (lmb_regions rgn). \<not> span p \<subseteq> span q
   | Some i \<Rightarrow> i < unat (cnt rgn) \<and> span p \<subseteq> span (region rgn i)"
proof -
  let ?P = "\<lambda>i. pbase (region rgn i) \<le> pbase p \<and> pbase p + psize p \<le> pbase (region rgn i) + psize (region rgn i)"
  have h: "?P i \<longleftrightarrow> span p \<subseteq> span (region rgn i)" if "i < unat (cnt rgn)" for i
    using that by (intro remove_hit [OF assms]) (auto simp: lmb_regions_def)
  show ?thesis
  proof (cases "List.find ?P [0..<unat (cnt rgn)]")
    case None
    then have "\<not> ?P i" if "i < unat (cnt rgn)" for i using that by (auto simp: find_None_iff)
    then have "\<not> span p \<subseteq> span (region rgn i)" if "i < unat (cnt rgn)" for i using that h by blast
    then show ?thesis using None by (auto simp: lmb_regions_def)
  next
    case (Some i)
    then have "i < unat (cnt rgn) \<and> ?P i" by (auto simp: find_Some_iff)
    then show ?thesis using Some h by auto
  qed
qed

text \<open>Replacing a block by a part of it, or by nothing.\<close>

lemma shrink_ok:
  assumes "blocks_ok (ps @ q # qs)" "block_ok r" "span r \<subseteq> span q"
  shows "blocks_ok (ps @ r # qs)" "(\<Union>x\<in>set (ps @ qs). span x) \<inter> span q = {}"
proof -
  have b: "block_ok q" "\<forall>x\<in>set ps. pend x \<le> unat (pbase q)" "\<forall>x\<in>set qs. pend q \<le> unat (pbase x)"
    using assms(1) by (auto simp: blocks_simps)
  then show "(\<Union>x\<in>set (ps @ qs). span x) \<inter> span q = {}" by (fastforce simp: span_def)
  have "unat (pbase q) \<le> unat (pbase r)" "pend r \<le> pend q"
    using assms(3) span_subset_iff [OF assms(2)] by auto
  then show "blocks_ok (ps @ r # qs)" using assms(1,2) by (force simp: blocks_simps)
qed

lemma lmb_set_ok:
  assumes "rgn_ok rgn" "\<not> dummy rgn" "i < unat (cnt rgn)" "block_ok r" "span r \<subseteq> span (region rgn i)"
  shows "rgn_ok (lmb_set rgn i (pbase r) (psize r)) \<and> \<not> dummy (lmb_set rgn i (pbase r) (psize r)) \<and>
    covers (lmb_set rgn i (pbase r) (psize r)) = (covers rgn - span (region rgn i)) \<union> span r"
proof -
  obtain ps qs where l: "lmb_regions rgn = ps @ region rgn i # qs" "length ps = i"
    using lmb_regions_split [OF assms(3)] by blast
  let ?s = "lmb_set rgn i (pbase r) (psize r)"
  have ok: "blocks_ok (ps @ region rgn i # qs)" using assms(1,2) l by (simp add: rgn_ok_def)
  have l': "lmb_regions ?s = ps @ r # qs" using lmb_regions_set [OF l(1)] l(2) by simp
  note sh = shrink_ok [OF ok assms(4,5)]
  have "cnt ?s = cnt rgn" by (simp add: lmb_set_def)
  then show ?thesis using sh l l' assms(1) blocks_ok_not_dummy [of ?s]
    by (auto simp: rgn_ok_def covers_def)
qed

lemma lmb_remove_region_ok:
  assumes "rgn_ok rgn" "\<not> dummy rgn" "i < unat (cnt rgn)"
  shows "covers (lmb_remove_region rgn i) = covers rgn - span (region rgn i) \<and>
    (cnt (lmb_remove_region rgn i) = 0 \<or> rgn_ok (lmb_remove_region rgn i))"
proof -
  obtain ps qs where l: "lmb_regions rgn = ps @ region rgn i # qs" "length ps = i"
    using lmb_regions_split [OF assms(3)] by blast
  let ?s = "lmb_remove_region rgn i"
  have ok: "blocks_ok (ps @ region rgn i # qs)" using assms(1,2) l by (simp add: rgn_ok_def)
  have l': "lmb_regions ?s = ps @ qs" using lmb_regions_remove [OF l(1)] l(2) by simp
  have "block_ok (region rgn i)" using ok by (simp add: blocks_simps)
  then have sh: "(\<Union>x\<in>set (ps @ qs). span x) \<inter> span (region rgn i) = {}"
    using shrink_ok(2) [OF ok] by blast
  have "unat (cnt ?s) \<le> unat (cnt rgn)" using assms(3) by (simp add: lmb_remove_region_def cnt_pred)
  moreover have "blocks_ok (ps @ qs)" using ok by (simp add: blocks_simps)
  ultimately show ?thesis using sh l l' assms(1) by (auto simp: rgn_ok_def covers_def)
qed

definition removed :: "lmb_region \<Rightarrow> lmb_property \<Rightarrow> int \<Rightarrow> lmb_region \<Rightarrow> bool" where
  "removed rgn p r rgn' \<longleftrightarrow>
    (if list_ex (\<lambda>q. pbase q \<le> pbase p \<and> pend p \<le> pend q) (lmb_regions rgn)
     then 0 \<le> r \<and> covers rgn' = covers rgn - span p \<and> (cnt rgn' = 0 \<or> rgn_ok rgn')
     else r = - 1 \<and> rgn' = rgn)"

text \<open>The four ways to take \<open>p\<close> out of the block at index \<open>i\<close> that contains it.\<close>

lemma remove_part:
  assumes "rgn_ok rgn" "\<not> dummy rgn" "i < unat (cnt rgn)" "block_ok r" "span r \<subseteq> span (region rgn i)"
    "span (region rgn i) - span r = span p"
  shows "rgn_ok (lmb_set rgn i (pbase r) (psize r)) \<and> covers (lmb_set rgn i (pbase r) (psize r)) = covers rgn - span p"
proof -
  have "span (region rgn i) \<subseteq> covers rgn" using assms(3) by (auto simp: covers_def lmb_regions_def)
  then show ?thesis using lmb_set_ok [OF assms(1-5)] assms(5,6) by auto
qed

lemma remove_middle:
  assumes "rgn_ok rgn" "\<not> dummy rgn" "i < unat (cnt rgn)" "unat (cnt rgn) < MAX_LMB_REGIONS"
    "block_ok lo" "block_ok hi" "span lo \<subseteq> span (region rgn i)" "span hi \<subseteq> span (region rgn i)"
    "span lo \<inter> span hi = {}" "span (region rgn i) - (span lo \<union> span hi) = span p"
    "lmb_add_region (lmb_set rgn i (pbase lo) (psize lo)) (pbase hi) (psize hi) = (r, rgn')"
  shows "0 \<le> r \<and> covers rgn' = covers rgn - span p \<and> rgn_ok rgn'"
proof -
  let ?s = "lmb_set rgn i (pbase lo) (psize lo)"
  have c: "span (region rgn i) \<subseteq> covers rgn" using assms(3) by (auto simp: covers_def lmb_regions_def)
  note s = lmb_set_ok [OF assms(1-3,5,7)]
  have "covers ?s \<inter> span hi = {}" using s assms(8,9) by blast
  then have "added ?s hi r rgn'" using lmb_add_region_ok [OF _ assms(6) _ assms(11)] s by blast
  moreover have "unat (cnt ?s) \<noteq> MAX_LMB_REGIONS" using assms(4) by (simp add: lmb_set_def)
  ultimately show ?thesis using s c assms(7,8,10) by (auto simp: added_def split: if_splits)
qed

lemma remove_cases:
  assumes "rgn_ok rgn" "\<not> dummy rgn" "unat (cnt rgn) < MAX_LMB_REGIONS" "block_ok p"
    "i < unat (cnt rgn)" "span p \<subseteq> span q" "q = region rgn i" "block_ok q"
    "(r, rgn') =
       (if pbase q = pbase p \<and> pbase q + psize q = pbase p + psize p then (0, lmb_remove_region rgn i)
        else if pbase q = pbase p then (0, lmb_set rgn i (pbase p + psize p) (psize q - psize p))
        else if pbase q + psize q = pbase p + psize p then (0, lmb_set rgn i (pbase q) (psize q - psize p))
        else lmb_add_region (lmb_set rgn i (pbase q) (pbase p - pbase q)) (pbase p + psize p)
          (pbase q + psize q - (pbase p + psize p)))"
  shows "0 \<le> r \<and> covers rgn' = covers rgn - span p \<and> (cnt rgn' = 0 \<or> rgn_ok rgn')"
proof -
  have sub: "unat (pbase q) \<le> unat (pbase p)" "pend p \<le> pend q"
    using assms(6) span_subset_iff [OF assms(4)] by auto
  have u: "unat (pbase q + psize q) = pend q" "unat (pbase p + psize p) = pend p"
    using assms(4,8) by (simp_all add: block_ok_def pend_def unat_add64)
  have z: "psize p \<le> psize q" "pbase q \<le> pbase p" "pbase p + psize p \<le> pbase q + psize q"
    using sub u by (simp_all add: word_le_nat_alt pend_def)
  note w = unat_sub [OF z(1)] unat_sub [OF z(2)] unat_sub [OF z(3)]
  let ?lo = "\<lparr>pbase = pbase q, psize = pbase p - pbase q\<rparr>"
  let ?hi = "\<lparr>pbase = pbase p + psize p, psize = pbase q + psize q - (pbase p + psize p)\<rparr>"
  have lo: "span ?lo = {unat (pbase q)..<unat (pbase p)}" "pend ?lo = unat (pbase p)"
    using sub w by (simp_all add: span_def pend_def)
  have hi: "span ?hi = {pend p..<pend q}" "pend ?hi = pend q"
    using sub w u by (simp_all add: span_def pend_def)
  have mid: "span q = {unat (pbase q)..<pend q}" "span p = {unat (pbase p)..<pend p}" "pend q < 2 ^ 64"
      "unat (pbase p) < pend p"
    using assms(4,8) by (simp_all add: span_def block_ok_def pend_def)
  consider "pbase q = pbase p" "pend q = pend p" | "pbase q = pbase p" "pend q \<noteq> pend p"
    | "pbase q \<noteq> pbase p" "pend q = pend p" | "unat (pbase q) < unat (pbase p)" "pend p < pend q"
    using sub by (fastforce simp: word_unat_eq_iff le_eq_less_or_eq)
  then show ?thesis
  proof cases
    case 1
    then have "r = 0 \<and> rgn' = lmb_remove_region rgn i" "span q = span p"
      using assms(9) u by (auto simp: word_unat_eq_iff span_def)
    then show ?thesis using lmb_remove_region_ok [OF assms(1,2,5)] assms(7) by auto
  next
    case 2
    then have "psize q - psize p = psize ?hi" "pbase q + psize q \<noteq> pbase p + psize p" using u by auto
    then have "r = 0 \<and> rgn' = lmb_set rgn i (pbase ?hi) (psize ?hi)"
      using assms(9) 2 by simp
    moreover have "block_ok ?hi" using hi 2 sub mid w u by (simp add: block_ok_def)
    moreover have "span ?hi \<subseteq> span q" "span q - span ?hi = span p"
      unfolding hi(1) mid(1,2) using sub mid 2 by auto
    ultimately show ?thesis using remove_part [OF assms(1,2,5), of ?hi p] assms(7) by simp
  next
    case 3
    then have "psize q - psize p = psize ?lo" "pbase q + psize q = pbase p + psize p"
      using u w by (simp_all add: word_unat_eq_iff pend_def)
    then have "r = 0 \<and> rgn' = lmb_set rgn i (pbase ?lo) (psize ?lo)"
      using assms(9) 3 by simp
    moreover have "block_ok ?lo" using lo 3 sub mid w by (simp add: block_ok_def word_unat_eq_iff)
    moreover have "span ?lo \<subseteq> span q" "span q - span ?lo = span p"
      unfolding lo(1) mid(1,2) using sub mid 3 by auto
    ultimately show ?thesis using remove_part [OF assms(1,2,5), of ?lo p] assms(7) by simp
  next
    case 4
    then have "lmb_add_region (lmb_set rgn i (pbase ?lo) (psize ?lo)) (pbase ?hi) (psize ?hi) = (r, rgn')"
      using assms(9) u by (auto simp: word_unat_eq_iff)
    moreover have "block_ok ?lo" "block_ok ?hi" using lo hi 4 sub mid w u by (simp_all add: block_ok_def)
    moreover have "span ?lo \<subseteq> span q" "span ?hi \<subseteq> span q" "span ?lo \<inter> span ?hi = {}"
        "span q - (span ?lo \<union> span ?hi) = span p"
      unfolding lo(1) hi(1) mid(1,2) using sub mid 4 by auto
    ultimately show ?thesis
      using remove_middle [OF assms(1,2,5,3), of ?lo ?hi p r rgn'] assms(7) by simp
  qed
qed

lemma lmb_remove_from_ok:
  assumes "rgn_ok rgn" "unat (cnt rgn) < MAX_LMB_REGIONS" "block_ok p"
    "lmb_remove_from rgn (pbase p) (psize p) = (r, rgn')"
  shows "removed rgn p r rgn'"
proof -
  let ?P = "\<lambda>i. pbase (region rgn i) \<le> pbase p \<and> pbase p + psize p \<le> pbase (region rgn i) + psize (region rgn i)"
  note f = remove_find [OF assms(1,3)]
  have ex: "list_ex (\<lambda>q. pbase q \<le> pbase p \<and> pend p \<le> pend q) (lmb_regions rgn) \<longleftrightarrow>
      (\<exists>q\<in>set (lmb_regions rgn). span p \<subseteq> span q)"
    by (simp add: list_ex_iff span_subset_iff [OF assms(3)] word_le_nat_alt)
  show ?thesis
  proof (cases "List.find ?P [0..<unat (cnt rgn)]")
    case None
    then show ?thesis using f ex assms(4) by (simp add: removed_def lmb_remove_from_def Let_def)
  next
    case (Some i)
    let ?q = "region rgn i"
    have i: "i < unat (cnt rgn)" "span p \<subseteq> span ?q" using f Some by auto
    have q: "?q \<in> set (lmb_regions rgn)" using i(1) by (auto simp: lmb_regions_def)
    have "span p \<noteq> {}" "span p \<subseteq> covers rgn" using assms(3) i(2) q by (auto simp: covers_def block_ok_def)
    then have nd: "\<not> dummy rgn" using dummy_covers [of rgn] by auto
    have "block_ok ?q" using assms(1) nd q by (auto simp: rgn_ok_def blocks_ok_def)
    then show ?thesis
      using remove_cases [OF assms(1) nd assms(2,3) i refl, of r rgn'] assms(4) Some ex i q
      by (auto simp: removed_def lmb_remove_from_def Let_def)
  qed
qed

section \<open>Allocation\<close>

lemma overlap_iff:
  assumes "block_ok p" "pend q < 2 ^ 64"
  shows "lmb_addrs_overlap (pbase p) (psize p) (pbase q) (psize q) \<longleftrightarrow>
    unat (pbase p) < pend q \<and> unat (pbase q) < pend p"
  using assms by (simp add: lmb_addrs_overlap_def word_less_nat_alt unat_add64 pend_def block_ok_def)

lemma rgn_ok_pend:
  assumes "rgn_ok rgn" "q \<in> set (lmb_regions rgn)"
  shows "pend q < 2 ^ 64"
proof (cases "dummy rgn")
  case True
  then have "psize q = 0" using assms(2) by (auto simp: dummy_def lmb_regions_def)
  then show ?thesis using unsigned_less [of "pbase q"] by (simp add: pend_def)
next
  case False
  then show ?thesis using assms by (auto simp: rgn_ok_def blocks_ok_def block_ok_def)
qed

lemma no_overlap:
  assumes "rgn_ok rgn" "block_ok p" "lmb_overlaps_region rgn (pbase p) (psize p) < 0"
  shows "covers rgn \<inter> span p = {}"
proof -
  have "\<not> lmb_addrs_overlap (pbase p) (psize p) (pbase q) (psize q)" if "q \<in> set (lmb_regions rgn)" for q
    using assms(3) that
    by (auto simp: lmb_overlaps_region_def lmb_regions_def find_None_iff split: option.splits)
  then have "pend q \<le> unat (pbase p) \<or> pend p \<le> unat (pbase q)" if "q \<in> set (lmb_regions rgn)" for q
    using that overlap_iff [OF assms(2) rgn_ok_pend [OF assms(1)]] by (meson not_le)
  then show ?thesis by (fastforce simp: covers_def span_def)
qed

definition aligned :: "u64 \<Rightarrow> u64 \<Rightarrow> bool" where
  "aligned align a \<longleftrightarrow> a AND (align - 1) = 0"

lemma aligned_down: "aligned align (lmb_align_down a align)"
  by (simp add: aligned_def lmb_align_down_def bit_eq_iff bit_simps)

text \<open>What a scan from \<open>base\<close> downwards returns: nothing, 0 with the table as it was because
  it is full, or an aligned address at which the block was free and is now reserved.\<close>

definition allocated :: "u64 \<Rightarrow> u64 \<Rightarrow> lmb_region \<Rightarrow> u64 \<Rightarrow> lmb_region \<Rightarrow> bool" where
  "allocated sz align rsv b rsv' \<longleftrightarrow>
    (let p = \<lparr>pbase = b, psize = sz\<rparr>
     in aligned align b \<and> covers rsv \<inter> span p = {} \<and> covers rsv' = covers rsv \<union> span p \<and>
        rgn_ok rsv' \<and> \<not> dummy rsv')"

lemma lmb_scan_ok:
  assumes "rgn_ok rsv" "0 < unat sz" "aligned align base" "unat base + unat sz < 2 ^ 64"
    "lmb_scan lmbbase sz align rsv base = Some (b, rsv')"
  shows "b = 0 \<and> rsv' = rsv \<and> unat (cnt rsv) = MAX_LMB_REGIONS \<or>
    b \<noteq> 0 \<and> lmbbase \<le> b \<and> b \<le> base \<and> allocated sz align rsv b rsv'"
  using assms
proof (induction lmbbase sz align rsv base rule: lmb_scan.induct)
  case (1 lmbbase sz align rsv base)
  let ?j = "lmb_overlaps_region rsv base sz" and ?p = "\<lparr>pbase = base, psize = sz\<rparr>"
  have g: "base \<noteq> 0" "lmbbase \<le> base" using "1.prems"(5) by (subst (asm) lmb_scan.simps; simp split: if_splits)+
  have p: "block_ok ?p" using "1.prems" by (simp add: block_ok_def pend_def)
  show ?case
  proof (cases "?j < 0")
    case True
    obtain r rsv1 where a: "lmb_add_region rsv base sz = (r, rsv1)" by fastforce
    have e: "b = (if r < 0 then 0 else base)" "rsv' = rsv1"
      using "1.prems"(5) g True a by (subst (asm) lmb_scan.simps; auto simp: Let_def)+
    have d: "covers rsv \<inter> span ?p = {}" using no_overlap [OF "1.prems"(1) p] True by simp
    have "added rsv ?p r rsv1" using lmb_add_region_ok [OF "1.prems"(1) p d] a by simp
    then show ?thesis using e g d "1.prems"(3) by (auto simp: added_def allocated_def Let_def)
  next
    case False
    let ?b = "pbase (region rsv (nat ?j))" let ?n = "lmb_align_down (?b - sz) align"
    have n: "\<not> ?b < sz" "lmb_scan lmbbase sz align rsv ?n = Some (b, rsv')"
      using "1.prems"(5) g False by (subst (asm) lmb_scan.simps; auto simp: Let_def split: if_splits)+
    have "?n < base" using scan_descends [of rsv base sz align] False n(1) by simp
    then have "?n \<le> base" "unat ?n + unat sz < 2 ^ 64"
      using "1.prems"(4) by (auto simp: word_less_nat_alt word_le_nat_alt)
    then show ?thesis using "1.IH" [OF _ refl _ refl] "1.prems" g False n aligned_down by fastforce
  qed
qed

definition alloc_result :: "u64 \<Rightarrow> u64 \<Rightarrow> u64 \<Rightarrow> lmb_region \<Rightarrow> lmb_region \<Rightarrow> u64 \<Rightarrow> lmb_region \<Rightarrow> bool" where
  "alloc_result sz align limit mem rsv b rsv' \<longleftrightarrow>
    (if b = 0 then rsv' = rsv
     else allocated sz align rsv b rsv' \<and> {unat b..<unat b + unat sz} \<subseteq> covers mem \<and>
       (limit = 0 \<or> unat b + unat sz \<le> unat limit))"

lemma lmb_scan_in_block:
  assumes "rgn_ok rsv" "0 < unat sz" "q \<in> set (lmb_regions mem)" "unat sz \<le> unat x"
    "unat x \<le> pend q" "pend q < 2 ^ 64" "limit = 0 \<or> unat x \<le> unat limit"
    "lmb_scan (pbase q) sz align rsv (lmb_align_down (x - sz) align) = Some (b, rsv')"
  shows "alloc_result sz align limit mem rsv b rsv'"
proof -
  let ?base = "lmb_align_down (x - sz) align"
  have "unat ?base \<le> unat (x - sz)" using lmb_align_down_le by (simp add: word_le_nat_alt)
  then have b: "unat ?base + unat sz \<le> unat x" using assms(4) by (simp add: unat_sub word_le_nat_alt)
  consider "b = 0" "rsv' = rsv" | "b \<noteq> 0" "pbase q \<le> b" "b \<le> ?base" "allocated sz align rsv b rsv'"
    using lmb_scan_ok [OF assms(1,2) aligned_down _ assms(8)] b assms(5,6) by linarith
  then show ?thesis
  proof cases
    case 2
    then have "unat b + unat sz \<le> unat x" "unat (pbase q) \<le> unat b" using b by (auto simp: word_le_nat_alt)
    then show ?thesis using 2 assms(3,5,7)
      by (fastforce simp: alloc_result_def covers_def span_def)
  qed (simp add: alloc_result_def)
qed

lemma lmb_alloc_loop_ok:
  assumes "rgn_ok mem" "rgn_ok rsv" "0 < unat sz" "limit = 0 \<or> sz \<le> limit" "n \<le> unat (cnt mem)"
    "lmb_alloc_loop sz align limit mem rsv n = (b, rsv')"
  shows "alloc_result sz align limit mem rsv b rsv'"
  using assms(5,6)
proof (induction n)
  case 0
  then show ?case by (simp add: alloc_result_def)
next
  case (Suc n)
  let ?q = "region mem n"
  let ?x = "if limit = 0 then pbase ?q + psize ?q else min (pbase ?q + psize ?q) limit"
  have q: "?q \<in> set (lmb_regions mem)" using Suc.prems(1) by (auto simp: lmb_regions_def)
  note e = rgn_ok_pend [OF assms(1) q]
  show ?case
  proof (cases "psize ?q < sz \<or> limit \<noteq> 0 \<and> \<not> pbase ?q < limit \<or>
      lmb_scan (pbase ?q) sz align rsv (lmb_align_down (?x - sz) align) = None")
    case True
    then have "lmb_alloc_loop sz align limit mem rsv n = (b, rsv')"
      using Suc.prems(2) by (auto simp: Let_def LMB_ALLOC_ANYWHERE_def split: if_splits)
    then show ?thesis using Suc by simp
  next
    case False
    then have s: "lmb_scan (pbase ?q) sz align rsv (lmb_align_down (?x - sz) align) = Some (b, rsv')"
      using Suc.prems(2) by (auto simp: Let_def LMB_ALLOC_ANYWHERE_def split: if_splits)
    have u: "unat (pbase ?q + psize ?q) = pend ?q" using e by (simp add: pend_def unat_add64)
    have "unat sz \<le> pend ?q" using False by (simp add: not_less word_le_nat_alt pend_def)
    then have x: "unat sz \<le> unat ?x" "unat ?x \<le> pend ?q" "limit = 0 \<or> unat ?x \<le> unat limit"
      using u assms(4) by (auto simp: min_def word_le_nat_alt)
    show ?thesis by (rule lmb_scan_in_block [OF assms(2,3) q x(1,2) e x(3) s])
  qed
qed

section \<open>The properties\<close>



text \<open>C1: The allocator always returns, and an address other than 0 that it returns is sound:
  it is aligned, the block of the rounded-up size lies inside the memory, below the limit, and
  overlaps nothing reserved before; afterwards exactly that block is reserved in addition and
  the memory table is untouched. When it returns 0, nothing has changed. The hypotheses: both
  tables are well-formed, the size does not wrap when it is rounded up, and the limit, if there
  is one, is not below the size.\<close>

theorem lmb_alloc_base_sound:
  assumes "rgn_ok (memory l)" "rgn_ok (reserved l)" "sz \<noteq> 0" "lmb_align_up sz align \<noteq> 0"
    "limit = (if max_addr = 0 then real_limit else max_addr)" "limit = 0 \<or> lmb_align_up sz align \<le> limit"
  shows "\<exists>b l'. uu_lmb_alloc_base real_limit sz align max_addr l = Some (b, l') \<and>
    memory l' = memory l \<and>
    (let blk = {unat b..<unat b + unat (lmb_align_up sz align)} in
     if b = 0 then l' = l
     else b AND (align - 1) = 0 \<and> blk \<subseteq> covers (memory l) \<and> covers (reserved l) \<inter> blk = {} \<and>
       covers (reserved l') = covers (reserved l) \<union> blk \<and> rgn_ok (reserved l') \<and>
       (limit = 0 \<or> unat b + unat (lmb_align_up sz align) \<le> unat limit))"
proof -
  obtain b rsv where a: "lmb_alloc_loop (lmb_align_up sz align) align limit (memory l) (reserved l) (unat (cnt (memory l))) = (b, rsv)"
    by fastforce
  have "alloc_result (lmb_align_up sz align) align limit (memory l) (reserved l) b rsv"
    using lmb_alloc_loop_ok [OF assms(1,2) _ assms(6) order_refl a] assms(4) by (simp add: unat_gt_0)
  moreover have "uu_lmb_alloc_base real_limit sz align max_addr l = Some (b, l\<lparr>reserved := rsv\<rparr>)"
    using assms(3,5) a by (simp add: uu_lmb_alloc_base_def LMB_ALLOC_ANYWHERE_def Let_def)
  ultimately show ?thesis
    by (intro exI [of _ b] exI [of _ "l\<lparr>reserved := rsv\<rparr>"])
      (simp add: alloc_result_def allocated_def aligned_def span_def pend_def Let_def split: if_splits)
qed

text \<open>The variable \<open>lmb\<close> before \<open>lmb_init\<close>: static storage, all zero.\<close>

definition lmb_zero :: lmb where
  "lmb_zero = (let none = \<lparr>cnt = 0, rsize = 0, region = (\<lambda>_. \<lparr>pbase = 0, psize = 0\<rparr>)\<rparr>
    in \<lparr>rmo_size = 0, memory = none, reserved = none\<rparr>)"

lemmas lmb_eval = lmb_zero_def lmb_add_def lmb_init_def lmb_init_region_def lmb_add_region_def Let_def

lemma alloc_below_small_limit:
  "map_option fst (uu_lmb_alloc_base 0 0x200000 0x1000 0x100000 (snd (lmb_add 0 0x40000000 (lmb_init lmb_zero)))) =
     Some 0xfffffffffff00000"
  by (simp add: lmb_eval uu_lmb_alloc_base_def lmb_align_up_def LMB_ALLOC_ANYWHERE_def
    lmb_align_down_def lmb_scan.simps lmb_overlaps_region_def lmb_addrs_overlap_def)

lemma add_after_last_removed:
  "lmb_regions (memory (snd (lmb_add 0x8000 0x1000 (snd (lmb_remove 0x1000 0x1000
     (snd (lmb_add 0x1000 0x1000 (lmb_init lmb_zero)))))))) = [\<lparr>pbase = 0x1000, psize = 0x1000\<rparr>]"
proof -
  let ?f = "(\<lambda>_. \<lparr>pbase = 0, psize = 0\<rparr>)(0 := \<lparr>pbase = 0x1000, psize = 0x1000\<rparr>)"
  have "memory (snd (lmb_add 0x1000 0x1000 (lmb_init lmb_zero))) = \<lparr>cnt = 1, rsize = 0, region = ?f\<rparr>"
    by (simp add: lmb_eval)
  then have "memory (snd (lmb_remove 0x1000 0x1000 (snd (lmb_add 0x1000 0x1000 (lmb_init lmb_zero))))) =
      \<lparr>cnt = 0, rsize = 0, region = ?f\<rparr>"
    by (simp add: lmb_remove_def lmb_remove_from_def lmb_remove_region_def)
  moreover have "lmb_add_region \<lparr>cnt = 0, rsize = 0, region = ?f\<rparr> 0x8000 0x1000 =
      (0, \<lparr>cnt = 1, rsize = 0, region = ?f\<rparr>)"
    by (simp add: lmb_add_region_def lmb_merge_next_def lmb_regions_adjacent_def lmb_addrs_adjacent_def
      lmb_insert_def MAX_LMB_REGIONS_def Let_def)
  ultimately show ?thesis by (simp add: lmb_add_def Let_def lmb_regions_def)
qed


text \<open>With a reservation in the table, \<open>lmb_is_reserved\<close> is exact.\<close>

lemma lmb_is_reserved_iff:
  assumes "rgn_ok (reserved l)" "\<not> dummy (reserved l)"
  shows "lmb_is_reserved l addr \<longleftrightarrow> unat addr \<in> covers (reserved l)"
proof -
  have "pbase p \<le> addr \<and> addr \<le> pbase p + psize p - 1 \<longleftrightarrow> unat addr \<in> span p"
    if "p \<in> set (lmb_regions (reserved l))" for p
  proof -
    have b: "block_ok p" using assms that by (auto simp: rgn_ok_def blocks_ok_def)
    then have "unat (pbase p + psize p) = pend p" "0 < pend p" by (auto simp: block_ok_def pend_def unat_add64)
    then have "unat (pbase p + psize p - 1) = pend p - 1"
      by (metis less_irrefl unat_eq_zero unat_minus_one)
    then show ?thesis using \<open>0 < pend p\<close> by (auto simp: span_def word_le_nat_alt)
  qed
  then show ?thesis by (auto simp: lmb_is_reserved_def list_ex_iff covers_def Let_def)
qed

section \<open>Concrete tables\<close>

definition lmb_demo :: lmb where
  "lmb_demo = snd (lmb_add 0x10000 0x10000 (lmb_init lmb_zero))"

lemma lmb_demo_memory: "cnt (memory lmb_demo) = 1" "lmb_regions (memory lmb_demo) = [\<lparr>pbase = 0x10000, psize = 0x10000\<rparr>]"
  by (simp_all add: lmb_demo_def lmb_eval lmb_regions_def)

lemma lmb_demo_reserved: "dummy (reserved lmb_demo)" "cnt (reserved lmb_demo) = 1"
  by (simp_all add: lmb_demo_def lmb_eval dummy_def)

lemma lmb_demo_ok: "rgn_ok (memory lmb_demo)" "rgn_ok (reserved lmb_demo)"
    "covers (memory lmb_demo) = {0x10000..<0x20000}" "covers (reserved lmb_demo) = {}"
  using lmb_demo_memory lmb_demo_reserved dummy_covers [of "reserved lmb_demo"]
  by (simp_all add: rgn_ok_def blocks_ok_def block_ok_def pend_def MAX_LMB_REGIONS_def span_def covers_def)



lemma lmb_demo_alloc:
  "map_option fst (uu_lmb_alloc_base 0 0x1800 0x1000 0 lmb_demo) = Some 0x1e000"
  by (simp add: lmb_demo_def lmb_eval uu_lmb_alloc_base_def lmb_align_up_def LMB_ALLOC_ANYWHERE_def
    lmb_align_down_def lmb_scan.simps lmb_overlaps_region_def lmb_addrs_overlap_def)

theorem lmb_alloc_base_sound_witness:
  "\<exists>l'. uu_lmb_alloc_base 0 0x1800 0x1000 0 lmb_demo = Some (0x1e000, l') \<and>
     covers (reserved l') = {0x1e000..<0x20000}"
proof -
  have sz: "lmb_align_up 0x1800 0x1000 = 0x2000" by (simp add: lmb_align_up_def)
  obtain b l' where a: "uu_lmb_alloc_base 0 0x1800 0x1000 0 lmb_demo = Some (b, l')"
      "b \<noteq> 0 \<Longrightarrow> covers (reserved l') = covers (reserved lmb_demo) \<union> {unat b..<unat b + 0x2000}"
    using lmb_alloc_base_sound [OF lmb_demo_ok(1,2), where sz = "0x1800" and align = "0x1000" and limit = 0
      and max_addr = 0 and real_limit = 0] sz by (auto simp: Let_def)
  then have "b = 0x1e000" using lmb_demo_alloc by simp
  then show ?thesis using a by (simp add: lmb_demo_ok)
qed

end
