(* ===== verification/HeapSort.thy ===== *)
theory HeapSort
  imports CryptoBytes
begin

text \<open>
  The heapsort of \<open>lib/sort.c\<close>, on the bytes of the array: the two swap routines, the sift of
  both phases and the two loops. The byte-level loops refine a heapsort on elements, for which
  termination, order and permutation are proved. Two interfaces: what \<open>sort\<close> expects of a
  comparison function and of a swap function.
\<close>

section \<open>The array\<close>

text \<open>The memory behind \<open>base\<close>, by byte offset. An element is the list of its bytes, and the
  comparison function reads two elements.\<close>

type_synonym mem = "nat \<Rightarrow> u8"
type_synonym swap_fn = "mem \<Rightarrow> nat \<Rightarrow> nat \<Rightarrow> nat \<Rightarrow> mem"

definition elem :: "nat \<Rightarrow> mem \<Rightarrow> nat \<Rightarrow> u8 list" where
  "elem sz m off = map m [off..<off + sz]"

definition load_u32 :: "mem \<Rightarrow> nat \<Rightarrow> u32" where
  "load_u32 m a = w32 (m a) (m (a + 1)) (m (a + 2)) (m (a + 3))"

definition store_u32 :: "mem \<Rightarrow> nat \<Rightarrow> u32 \<Rightarrow> mem" where
  "store_u32 m a v = m(a := ucast v, a + 1 := ucast (drop_bit 8 v),
     a + 2 := ucast (drop_bit 16 v), a + 3 := ucast (drop_bit 24 v))"

definition u32_swap :: swap_fn where
  "u32_swap m a b sz =
    (let t = load_u32 m a;
         m = store_u32 m a (load_u32 m b)
     in store_u32 m b t)"

text \<open>The \<open>do\<close> loop runs once at least.\<close>

fun generic_swap_loop :: "mem \<Rightarrow> nat \<Rightarrow> nat \<Rightarrow> nat \<Rightarrow> mem" where
  "generic_swap_loop m a b 0 = m"
| "generic_swap_loop m a b (Suc n) =
    (let t = m a; m = m(a := m b); m = m(b := t) in generic_swap_loop m (a + 1) (b + 1) n)"

definition generic_swap :: swap_fn where
  "generic_swap m a b sz = generic_swap_loop m a b (max 1 sz)"

section \<open>The sort\<close>

text \<open>The counters are byte offsets, scaled by the size of an element. A loop that does not
  end is \<open>None\<close>; it is proved below that this does not happen.\<close>

partial_function (option) sift :: "(u8 list \<Rightarrow> u8 list \<Rightarrow> int) \<Rightarrow> swap_fn \<Rightarrow> nat \<Rightarrow> nat \<Rightarrow> mem \<Rightarrow> nat \<Rightarrow> mem option" where
  "sift cmp swp sz n m r =
    (if r * 2 + sz < n then
       let c = r * 2 + sz;
           c = (if c < n - sz \<and> cmp (elem sz m c) (elem sz m (c + sz)) < 0 then c + sz else c)
       in if cmp (elem sz m r) (elem sz m c) \<ge> 0 then Some m
          else sift cmp swp sz n (swp m r c sz) c
     else Some m)"

partial_function (option) heapify :: "(u8 list \<Rightarrow> u8 list \<Rightarrow> int) \<Rightarrow> swap_fn \<Rightarrow> nat \<Rightarrow> nat \<Rightarrow> mem \<Rightarrow> int \<Rightarrow> mem option" where
  "heapify cmp swp sz n m i =
    (if 0 \<le> i then Option.bind (sift cmp swp sz n m (nat i)) (\<lambda>m. heapify cmp swp sz n m (i - int sz))
     else Some m)"

partial_function (option) extract_max :: "(u8 list \<Rightarrow> u8 list \<Rightarrow> int) \<Rightarrow> swap_fn \<Rightarrow> nat \<Rightarrow> mem \<Rightarrow> int \<Rightarrow> mem option" where
  "extract_max cmp swp sz m i =
    (if 0 < i then Option.bind (sift cmp swp sz (nat i) (swp m 0 (nat i) sz) 0) (\<lambda>m. extract_max cmp swp sz m (i - int sz))
     else Some m)"

definition sort :: "mem \<Rightarrow> nat \<Rightarrow> nat \<Rightarrow> (u8 list \<Rightarrow> u8 list \<Rightarrow> int) \<Rightarrow> swap_fn option \<Rightarrow> mem option" where
  "sort m num sz cmp swap_func =
    (let i = (int (num div 2) - 1) * int sz; n = num * sz;
         swp = (case swap_func of Some f \<Rightarrow> f | None \<Rightarrow> if sz = 4 then u32_swap else generic_swap)
     in Option.bind (heapify cmp swp sz n m i) (\<lambda>m. extract_max cmp swp sz m (int n - int sz)))"

section \<open>Heaps\<close>

text \<open>The same steps on an array of elements.\<close>

definition exch :: "nat \<Rightarrow> nat \<Rightarrow> (nat \<Rightarrow> 'a) \<Rightarrow> (nat \<Rightarrow> 'a)" where
  "exch i j a = a(i := a j, j := a i)"

definition child :: "('a \<Rightarrow> 'a \<Rightarrow> int) \<Rightarrow> nat \<Rightarrow> (nat \<Rightarrow> 'a) \<Rightarrow> nat \<Rightarrow> nat" where
  "child cmp n a k = (if 2 * k + 2 < n \<and> cmp (a (2 * k + 1)) (a (2 * k + 2)) < 0 then 2 * k + 2 else 2 * k + 1)"

function esift :: "('a \<Rightarrow> 'a \<Rightarrow> int) \<Rightarrow> nat \<Rightarrow> (nat \<Rightarrow> 'a) \<Rightarrow> nat \<Rightarrow> (nat \<Rightarrow> 'a)" where
  "esift cmp n a k =
    (if 2 * k + 1 < n then
       if cmp (a k) (a (child cmp n a k)) \<ge> 0 then a
       else esift cmp n (exch k (child cmp n a k) a) (child cmp n a k)
     else a)"
  by pat_completeness auto
termination
  by (relation "measure (\<lambda>(_, n, _, k). n - k)") (auto simp: child_def)

declare esift.simps [simp del]

fun eheapify :: "('a \<Rightarrow> 'a \<Rightarrow> int) \<Rightarrow> nat \<Rightarrow> (nat \<Rightarrow> 'a) \<Rightarrow> nat \<Rightarrow> (nat \<Rightarrow> 'a)" where
  "eheapify cmp n a 0 = a"
| "eheapify cmp n a (Suc k) = eheapify cmp n (esift cmp n a k) k"

fun eextract :: "('a \<Rightarrow> 'a \<Rightarrow> int) \<Rightarrow> (nat \<Rightarrow> 'a) \<Rightarrow> nat \<Rightarrow> (nat \<Rightarrow> 'a)" where
  "eextract cmp a 0 = a"
| "eextract cmp a (Suc k) = eextract cmp (esift cmp (Suc k) (exch 0 (Suc k) a) 0) k"

text \<open>What a comparison function has to be for \<open>sort\<close>: a total preorder.\<close>

locale comparison =
  fixes cmp :: "'a \<Rightarrow> 'a \<Rightarrow> int"
  assumes cmp_total: "cmp x y < 0 \<Longrightarrow> 0 \<le> cmp y x"
    and cmp_trans: "0 \<le> cmp x y \<Longrightarrow> 0 \<le> cmp y z \<Longrightarrow> 0 \<le> cmp x z"
begin

definition ge :: "'a \<Rightarrow> 'a \<Rightarrow> bool" where
  "ge x y \<longleftrightarrow> 0 \<le> cmp x y"

text \<open>Every edge of the tree of the first \<open>n\<close> elements with its upper end at \<open>lo\<close> or beyond,
  except those below \<open>hole\<close>, is ordered; and what is above the hole bounds what is below it.\<close>

definition heap_but :: "nat \<Rightarrow> nat \<Rightarrow> (nat \<Rightarrow> 'a) \<Rightarrow> nat \<Rightarrow> bool" where
  "heap_but lo n a hole \<longleftrightarrow>
    (\<forall>k j. lo \<le> k \<longrightarrow> j < n \<longrightarrow> (j = 2 * k + 1 \<or> j = 2 * k + 2) \<longrightarrow> k \<noteq> hole \<longrightarrow> ge (a k) (a j)) \<and>
    (\<forall>k j. lo \<le> k \<longrightarrow> j < n \<longrightarrow> (hole = 2 * k + 1 \<or> hole = 2 * k + 2) \<longrightarrow>
       (j = 2 * hole + 1 \<or> j = 2 * hole + 2) \<longrightarrow> ge (a k) (a j))"

definition heap :: "nat \<Rightarrow> nat \<Rightarrow> (nat \<Rightarrow> 'a) \<Rightarrow> bool" where
  "heap lo n a \<longleftrightarrow> (\<forall>k j. lo \<le> k \<longrightarrow> j < n \<longrightarrow> (j = 2 * k + 1 \<or> j = 2 * k + 2) \<longrightarrow> ge (a k) (a j))"

lemma heap_butD:
  "heap_but lo n a hole \<Longrightarrow> lo \<le> k \<Longrightarrow> j < n \<Longrightarrow> j = 2 * k + 1 \<or> j = 2 * k + 2 \<Longrightarrow> k \<noteq> hole \<Longrightarrow> ge (a k) (a j)"
  unfolding heap_but_def by blast

lemma heapD: "heap lo n a \<Longrightarrow> lo \<le> k \<Longrightarrow> j < n \<Longrightarrow> j = 2 * k + 1 \<or> j = 2 * k + 2 \<Longrightarrow> ge (a k) (a j)"
  unfolding heap_def by blast

lemma ge_refl: "ge x x"
  using cmp_total [of x x] by (force simp: ge_def)

lemma child_ge:
  assumes "2 * k + 1 < n" "j < n" "j = 2 * k + 1 \<or> j = 2 * k + 2"
  shows "ge (a (child cmp n a k)) (a j)"
  using assms cmp_total ge_refl by (auto simp: child_def ge_def)

lemma child_range:
  assumes "2 * k + 1 < n"
  shows "child cmp n a k < n" "child cmp n a k = 2 * k + 1 \<or> child cmp n a k = 2 * k + 2" "k < child cmp n a k"
  using assms by (auto simp: child_def)

lemma heap_but_child:
  assumes "heap_but lo n a k" "lo \<le> k" "2 * k + 1 < n" "\<not> ge (a k) (a (child cmp n a k))"
  shows "heap_but lo n (exch k (child cmp n a k) a) (child cmp n a k)"
proof -
  let ?c = "child cmp n a k" let ?b = "exch k ?c a"
  note c = child_range [OF assms(3), of a]
  have up: "ge (a ?c) (a k)" using assms(4) cmp_total by (auto simp: ge_def)
  have b: "?b k = a ?c" "?b ?c = a k" "\<And>j. j \<noteq> k \<Longrightarrow> j \<noteq> ?c \<Longrightarrow> ?b j = a j"
    using c(3) by (auto simp: exch_def)
  have "ge (?b i) (?b j)" if "lo \<le> i" "j < n" "j = 2 * i + 1 \<or> j = 2 * i + 2" "i \<noteq> ?c" for i j
  proof (cases "i = k")
    case True
    then show ?thesis using that up child_ge [OF assms(3) that(2), of a] b by (cases "j = ?c") auto
  next
    case False
    then have e: "?b i = a i" "j \<noteq> ?c" using that(3,4) b c by auto
    show ?thesis
    proof (cases "j = k")
      case True
      then have "ge (a i) (a ?c)" using assms(1) that(1,3) c by (auto simp: heap_but_def)
      then show ?thesis using True e b by simp
    next
      case False
      then show ?thesis using \<open>i \<noteq> k\<close> assms(1) that e b by (auto simp: heap_but_def)
    qed
  qed
  moreover have "ge (?b i) (?b j)" if "lo \<le> i" "j < n" "?c = 2 * i + 1 \<or> ?c = 2 * i + 2" "j = 2 * ?c + 1 \<or> j = 2 * ?c + 2" for i j
  proof -
    have i: "i = k" using that(3) c(2) by auto
    have "ge (a ?c) (a j)" using heap_butD [OF assms(1) _ that(2,4)] assms(2) c(3) by simp
    moreover have "?b j = a j" using that(4) c(3) b(3) [of j] by auto
    ultimately show ?thesis using i b by simp
  qed
  ultimately show ?thesis unfolding heap_but_def by blast
qed

lemma esift_heap: "heap_but lo n a k \<Longrightarrow> lo \<le> k \<Longrightarrow> heap lo n (esift cmp n a k)"
proof (induction "n - k" arbitrary: a k rule: less_induct)
  case less
  let ?c = "child cmp n a k"
  show ?case
  proof (cases "2 * k + 1 < n")
    case False
    then show ?thesis using less.prems by (auto simp: esift.simps heap_but_def heap_def)
  next
    case in_range: True
    show ?thesis
    proof (cases "ge (a k) (a ?c)")
      case True
      have "ge (a k) (a j)" if "j < n" "j = 2 * k + 1 \<or> j = 2 * k + 2" for j
        using True child_ge [OF in_range that, of a] cmp_trans unfolding ge_def by blast
      then have "heap lo n a" using less.prems by (auto simp: heap_but_def heap_def)
      then show ?thesis using True by (simp add: esift.simps ge_def)
    next
      case False
      have "heap lo n (esift cmp n (exch k ?c a) ?c)"
        using less.hyps [of ?c "exch k ?c a"] heap_but_child [OF less.prems in_range False] child_range [OF in_range, of a]
          less.prems(2) in_range by auto
      then show ?thesis using False in_range by (subst esift.simps) (simp add: ge_def)
    qed
  qed
qed

lemma eheapify_heap:
  "heap k n a \<Longrightarrow> heap 0 n (eheapify cmp n a k)"
proof (induction k arbitrary: a)
  case (Suc k)
  have "heap_but k n a k" using Suc.prems by (auto simp: heap_def heap_but_def)
  then show ?case using Suc.IH [OF esift_heap] by simp
qed simp

lemma heap_max: "heap 0 n a \<Longrightarrow> j < n \<Longrightarrow> ge (a 0) (a j)"
proof (induction j rule: less_induct)
  case (less j)
  show ?case
  proof (cases j)
    case (Suc i)
    have "ge (a 0) (a (i div 2))" using less Suc by auto
    moreover have "ge (a (i div 2)) (a j)"
      using less.prems Suc unfolding heap_def by (cases "even i") (auto elim!: evenE oddE)
    ultimately show ?thesis using cmp_trans unfolding ge_def by blast
  qed (simp add: ge_refl)
qed
end

text \<open>A sift permutes the first \<open>n\<close> elements and does not touch the others.\<close>

definition permutes_below :: "nat \<Rightarrow> (nat \<Rightarrow> 'a) \<Rightarrow> (nat \<Rightarrow> 'a) \<Rightarrow> bool" where
  "permutes_below n a b \<longleftrightarrow>
    mset (map b [0..<n]) = mset (map a [0..<n]) \<and> (\<forall>k\<ge>n. b k = a k)"

lemma permutes_below_refl: "permutes_below n a a"
  by (simp add: permutes_below_def)

lemma permutes_below_trans: "permutes_below n a b \<Longrightarrow> permutes_below n b c \<Longrightarrow> permutes_below n a c"
  by (simp add: permutes_below_def)

lemma permutes_below_exch: "i < n \<Longrightarrow> j < n \<Longrightarrow> permutes_below n a (exch i j a)"
proof -
  assume ij: "i < n" "j < n"
  have "map (exch i j a) [0..<n] = (map a [0..<n])[j := a i, i := a j]"
    using ij by (intro nth_equalityI) (auto simp: exch_def nth_list_update)
  moreover have "mset ((map a [0..<n])[j := a i, i := a j]) = mset (map a [0..<n])"
    using ij mset_swap [of i "map a [0..<n]" j] by simp
  ultimately show ?thesis using ij by (auto simp: permutes_below_def exch_def simp del: mset_map)
qed

lemma permutes_below_mono:
  assumes "permutes_below n a b" "n \<le> n'"
  shows "permutes_below n' a b"
proof -
  have "map b [n..<n'] = map a [n..<n']" using assms(1) by (auto simp: permutes_below_def)
  then have "mset (map b [n..<n']) = mset (map a [n..<n'])" by (rule arg_cong)
  moreover have "[0..<n'] = [0..<n] @ [n..<n']" using assms(2) by (metis le0 upt_add_eq_append le_add_diff_inverse plus_nat.add_0)
  ultimately show ?thesis using assms by (simp add: permutes_below_def del: mset_map)
qed

lemma permutes_below_set: "permutes_below n a b \<Longrightarrow> b ` {..<n} = a ` {..<n}"
  by (metis (no_types) atLeast_upt lessThan_atLeast0 list.set_map permutes_below_def set_mset_mset set_upt)

lemma child_less: "2 * k + 1 < n \<Longrightarrow> child cmp n a k < n"
  by (auto simp: child_def)

lemma esift_permutes: "k < n \<Longrightarrow> permutes_below n a (esift cmp n a k)"
proof (induction cmp n a k rule: esift.induct)
  case (1 cmp n a k)
  show ?case
  proof (cases "2 * k + 1 < n \<and> \<not> 0 \<le> cmp (a k) (a (child cmp n a k))")
    case True
    then have "child cmp n a k < n" by (simp add: child_less)
    then show ?thesis
      using True 1 permutes_below_exch [of k n "child cmp n a k" a] permutes_below_trans
      by (subst esift.simps) auto
  qed (auto simp: esift.simps permutes_below_refl)
qed

lemma eheapify_permutes: "k \<le> n \<Longrightarrow> permutes_below n a (eheapify cmp n a k)"
proof (induction k arbitrary: a)
  case (Suc k)
  then show ?case
    using permutes_below_trans [OF esift_permutes [of k n a cmp] Suc.IH] by simp
qed (simp add: permutes_below_refl)

context comparison begin

lemma eextract_sorts:
  "heap 0 (Suc k) a \<Longrightarrow> permutes_below (Suc k) a (eextract cmp a k) \<and>
    (\<forall>i j. i < j \<longrightarrow> j \<le> k \<longrightarrow> ge (eextract cmp a k j) (eextract cmp a k i))"
proof (induction k arbitrary: a)
  case 0
  then show ?case by (simp add: permutes_below_refl)
next
  case (Suc k)
  define a1 where "a1 = exch 0 (Suc k) a"
  define a2 where "a2 = esift cmp (Suc k) a1 0"
  define b where "b = eextract cmp a2 k"
  have "ge (a1 i) (a1 j)" if "i \<noteq> 0" "j < Suc k" "j = 2 * i + 1 \<or> j = 2 * i + 2" for i j
  proof -
    have "a1 i = a i" "a1 j = a j" using that by (auto simp: a1_def exch_def)
    then show ?thesis using heapD [OF Suc.prems, of i j] that by simp
  qed
  then have "heap_but 0 (Suc k) a1 0" by (auto simp: heap_but_def)
  then have "heap 0 (Suc k) a2" unfolding a2_def by (rule esift_heap) simp
  note IH = Suc.IH [OF this, folded b_def]
  have p1: "permutes_below (Suc (Suc k)) a a1" unfolding a1_def by (rule permutes_below_exch) auto
  have p2: "permutes_below (Suc k) a1 a2" unfolding a2_def by (rule esift_permutes) simp
  then have p3: "permutes_below (Suc k) a1 b" using IH permutes_below_trans by blast
  have p: "permutes_below (Suc (Suc k)) a b"
    using permutes_below_trans [OF p1 permutes_below_mono [OF p3]] by simp
  have top: "b (Suc k) = a 0" using p3 by (simp add: permutes_below_def a1_def exch_def)
  have "ge (a 0) (b i)" if "i < Suc k" for i
  proof -
    have "b i \<in> a ` {..<Suc (Suc k)}" using permutes_below_set [OF p] that by auto
    then show ?thesis using heap_max [OF Suc.prems] by auto
  qed
  then have "ge (b j) (b i)" if "i < j" "j \<le> Suc k" for i j
    using that IH top by (cases "j = Suc k") auto
  then show ?case using p unfolding b_def a2_def a1_def by simp
qed

text \<open>Heapsort on an array of \<open>n\<close> elements.\<close>

lemma heapsort_sorts:
  assumes "0 < n" "b = eextract cmp (eheapify cmp n a (n div 2)) (n - 1)"
  shows "mset (map b [0..<n]) = mset (map a [0..<n])" "\<forall>k\<ge>n. b k = a k"
    "\<And>i j. i < j \<Longrightarrow> j < n \<Longrightarrow> 0 \<le> cmp (b j) (b i)"
proof -
  let ?h = "eheapify cmp n a (n div 2)"
  have "heap (n div 2) n a" by (auto simp: heap_def)
  then have "heap 0 (Suc (n - 1)) ?h" using eheapify_heap assms(1) by simp
  note e = eextract_sorts [OF this, folded assms(2)]
  have "permutes_below n a b"
    using permutes_below_trans [OF eheapify_permutes [of "n div 2" n a cmp]] e assms(1) by simp
  then show "mset (map b [0..<n]) = mset (map a [0..<n])" "\<forall>k\<ge>n. b k = a k"
    by (simp_all add: permutes_below_def)
  show "0 \<le> cmp (b j) (b i)" if "i < j" "j < n" for i j
    using e that by (auto simp: ge_def)
qed
end


section \<open>From elements to bytes\<close>

definition elems :: "nat \<Rightarrow> mem \<Rightarrow> nat \<Rightarrow> u8 list" where
  "elems sz m k = elem sz m (k * sz)"

text \<open>What \<open>sort\<close> expects of a swap function: it exchanges two elements of the array.\<close>

locale swapper =
  fixes swp :: swap_fn and sz :: nat
  assumes size_pos: "0 < sz"
    and swap_elems: "i \<noteq> j \<Longrightarrow> elems sz (swp m (i * sz) (j * sz) sz) = exch i j (elems sz m)"
begin

lemma sift_elems:
  "\<exists>m'. sift cmp swp sz (n * sz) m (k * sz) = Some m' \<and> elems sz m' = esift cmp n (elems sz m) k"
proof (induction "n - k" arbitrary: m k rule: less_induct)
  case less
  let ?c = "child cmp n (elems sz m) k"
  have sc: "k * sz * 2 + sz = (2 * k + 1) * sz" by (simp add: algebra_simps)
  have lt: "(2 * k + 1) * sz < n * sz \<longleftrightarrow> 2 * k + 1 < n"
    using size_pos by (simp only: mult_less_cancel2) simp
  have lt2: "(2 * k + 1) * sz < n * sz - sz \<longleftrightarrow> 2 * k + 2 < n"
  proof -
    have "n * sz - sz = (n - 1) * sz" by (simp add: diff_mult_distrib)
    then show ?thesis using size_pos by (simp only: mult_less_cancel2) auto
  qed
  have nx: "(2 * k + 1) * sz + sz = (2 * k + 2) * sz" by simp
  have c: "(if (2 * k + 1) * sz < n * sz - sz \<and> cmp (elem sz m ((2 * k + 1) * sz)) (elem sz m ((2 * k + 1) * sz + sz)) < 0
      then (2 * k + 1) * sz + sz else (2 * k + 1) * sz) = ?c * sz"
    unfolding lt2 nx child_def elems_def by simp
  show ?case
  proof (cases "2 * k + 1 < n \<and> \<not> 0 \<le> cmp (elems sz m k) (elems sz m ?c)")
    case True
    then have k: "k < ?c" "n - ?c < n - k" by (auto simp: child_def)
    let ?m = "swp m (k * sz) (?c * sz) sz"
    have e: "elems sz ?m = exch k ?c (elems sz m)" using k by (intro swap_elems) simp
    have "sift cmp swp sz (n * sz) m (k * sz) = sift cmp swp sz (n * sz) ?m (?c * sz)"
      using True by (subst sift.simps) (simp only: sc lt c Let_def, simp add: elems_def)
    moreover have "esift cmp n (elems sz m) k = esift cmp n (elems sz ?m) ?c"
      using True e by (subst esift.simps) simp
    ultimately show ?thesis using less [OF k(2), of ?m] by simp
  next
    case False
    have "sift cmp swp sz (n * sz) m (k * sz) = Some m"
      using False by (subst sift.simps) (simp only: sc lt c Let_def, auto simp: elems_def)
    moreover have "esift cmp n (elems sz m) k = elems sz m"
      using False by (subst esift.simps) auto
    ultimately show ?thesis by simp
  qed
qed

lemma heapify_elems:
  "\<exists>m'. heapify cmp swp sz (n * sz) m ((int k - 1) * int sz) = Some m' \<and> elems sz m' = eheapify cmp n (elems sz m) k"
proof (induction k arbitrary: m)
  case 0
  then show ?case using size_pos by (subst heapify.simps) simp
next
  case (Suc k)
  obtain m1 where m1: "sift cmp swp sz (n * sz) m (k * sz) = Some m1" "elems sz m1 = esift cmp n (elems sz m) k"
    using sift_elems by blast
  have "heapify cmp swp sz (n * sz) m ((int (Suc k) - 1) * int sz) = heapify cmp swp sz (n * sz) m1 ((int k - 1) * int sz)"
    using m1(1) by (subst heapify.simps) (simp add: nat_mult_distrib algebra_simps)
  then show ?case using Suc [of m1] m1(2) by simp
qed

lemma extract_elems:
  "\<exists>m'. extract_max cmp swp sz m (int (k * sz)) = Some m' \<and> elems sz m' = eextract cmp (elems sz m) k"
proof (induction k arbitrary: m)
  case 0
  then show ?case by (subst extract_max.simps) simp
next
  case (Suc k)
  let ?m = "swp m 0 (Suc k * sz) sz"
  have e: "elems sz ?m = exch 0 (Suc k) (elems sz m)" using swap_elems [of 0 "Suc k" m] by simp
  obtain m1 where m1: "sift cmp swp sz (Suc k * sz) ?m 0 = Some m1" "elems sz m1 = esift cmp (Suc k) (elems sz ?m) 0"
    using sift_elems [of cmp "Suc k" ?m 0] by auto
  have "0 < int (Suc k * sz)" using size_pos by (simp add: add_pos_nonneg)
  then have "extract_max cmp swp sz m (int (Suc k * sz)) = extract_max cmp swp sz m1 (int (k * sz))"
    using m1(1) by (subst extract_max.simps) (simp only: nat_int if_True Option.bind.bind_lunit, simp)
  then show ?case using Suc [of m1] m1(2) e by simp
qed

lemma sort_elems:
  assumes "swp = (case swap_func of Some f \<Rightarrow> f | None \<Rightarrow> if sz = 4 then u32_swap else generic_swap)"
  shows "\<exists>m'. sort m num sz cmp swap_func = Some m' \<and>
    elems sz m' = eextract cmp (eheapify cmp num (elems sz m) (num div 2)) (num - 1)"
proof -
  obtain m1 where m1: "heapify cmp swp sz (num * sz) m ((int (num div 2) - 1) * int sz) = Some m1"
      "elems sz m1 = eheapify cmp num (elems sz m) (num div 2)"
    using heapify_elems by blast
  have "extract_max cmp swp sz m1 (int (num * sz) - int sz) = extract_max cmp swp sz m1 (int ((num - 1) * sz))"
  proof (cases num)
    case 0
    then show ?thesis by (subst (1 2) extract_max.simps) simp
  qed (simp add: algebra_simps)
  then show ?thesis
    using extract_elems [of cmp m1 "num - 1"] m1 unfolding sort_def assms(1) [symmetric] by simp
qed
end

lemma generic_swap_loop_eq:
  assumes "a + n \<le> b \<or> b + n \<le> a"
  shows "generic_swap_loop m a b n =
    (\<lambda>x. if a \<le> x \<and> x < a + n then m (x - a + b) else if b \<le> x \<and> x < b + n then m (x - b + a) else m x)"
  using assms
proof (induction n arbitrary: m a b)
  case (Suc n)
  have "a + 1 + n \<le> b + 1 \<or> b + 1 + n \<le> a + 1" using Suc.prems by auto
  then have IH: "generic_swap_loop m (a + 1) (b + 1) n = (\<lambda>x. if a + 1 \<le> x \<and> x < a + 1 + n then m (x - (a + 1) + (b + 1))
      else if b + 1 \<le> x \<and> x < b + 1 + n then m (x - (b + 1) + (a + 1)) else m x)" for m
    by (intro Suc.IH) auto
  show ?case
  proof
    fix x
    have ne: "a \<noteq> b" using Suc.prems by auto
    consider "x = a" | "x = b" | "a < x" "x < a + Suc n" | "b < x" "x < b + Suc n"
      | "x < a \<or> a + Suc n \<le> x" "x < b \<or> b + Suc n \<le> x" by linarith
    then show "generic_swap_loop m a b (Suc n) x = (if a \<le> x \<and> x < a + Suc n then m (x - a + b)
        else if b \<le> x \<and> x < b + Suc n then m (x - b + a) else m x)"
    proof cases
      case 1
      then have "\<not> (b + 1 \<le> x \<and> x < b + 1 + n)" "\<not> a + 1 \<le> x" "a \<le> x \<and> x < a + Suc n" using Suc.prems by auto
      then show ?thesis using 1 ne unfolding generic_swap_loop.simps Let_def IH by auto
    next
      case 2
      then have "\<not> (a + 1 \<le> x \<and> x < a + 1 + n)" "\<not> b + 1 \<le> x" "\<not> (a \<le> x \<and> x < a + Suc n)" using Suc.prems by auto
      then show ?thesis using 2 ne unfolding generic_swap_loop.simps Let_def IH by auto
    next
      case 5
      then have "\<not> (a + 1 \<le> x \<and> x < a + 1 + n)" "\<not> (b + 1 \<le> x \<and> x < b + 1 + n)" "x \<noteq> a" "x \<noteq> b"
        "\<not> (a \<le> x \<and> x < a + Suc n)" "\<not> (b \<le> x \<and> x < b + Suc n)" by auto
      then show ?thesis unfolding generic_swap_loop.simps Let_def IH by (simp only: fun_upd_apply if_False)
    next
      case 3
      then have "x - (a + 1) + (b + 1) = x - a + b" "x - a + b \<noteq> a" "x - a + b \<noteq> b" using Suc.prems by auto
      then show ?thesis using 3 unfolding generic_swap_loop.simps Let_def IH by simp
    next
      case 4
      then have "x - (b + 1) + (a + 1) = x - b + a" "x - b + a \<noteq> a" "x - b + a \<noteq> b"
        "\<not> (a + 1 \<le> x \<and> x < a + 1 + n)" "\<not> (a \<le> x \<and> x < a + Suc n)" using Suc.prems by auto
      then show ?thesis using 4 unfolding generic_swap_loop.simps Let_def IH by auto
    qed
  qed
qed (auto simp: fun_eq_iff)

text \<open>Exchanging the bytes of two elements exchanges the elements.\<close>

definition exch_bytes :: "nat \<Rightarrow> mem \<Rightarrow> nat \<Rightarrow> nat \<Rightarrow> mem" where
  "exch_bytes n m a b =
    (\<lambda>x. if a \<le> x \<and> x < a + n then m (x - a + b) else if b \<le> x \<and> x < b + n then m (x - b + a) else m x)"

lemma in_element:
  assumes "t < (sz :: nat)"
  shows "i * sz \<le> k * sz + t \<and> k * sz + t < i * sz + sz \<longleftrightarrow> i = k"
proof
  assume a: "i * sz \<le> k * sz + t \<and> k * sz + t < i * sz + sz"
  have "(k * sz + t) div sz = i" using a by (intro div_nat_eqI) (auto simp: algebra_simps)
  moreover have "(k * sz + t) div sz = k" using assms by simp
  ultimately show "i = k" by simp
qed (use assms in simp)

lemma exch_bytes_elems: "elems sz (exch_bytes sz m (i * sz) (j * sz)) = exch i j (elems sz m)"
proof
  fix k
  show "elems sz (exch_bytes sz m (i * sz) (j * sz)) k = exch i j (elems sz m) k"
  proof (rule nth_equalityI)
    fix t assume "t < length (elems sz (exch_bytes sz m (i * sz) (j * sz)) k)"
    then have t: "t < sz" by (simp add: elems_def elem_def)
    have "elems sz (exch_bytes sz m (i * sz) (j * sz)) k ! t =
        (if i = k then m (j * sz + t) else if j = k then m (i * sz + t) else m (k * sz + t))"
      using t in_element [OF t, of i k] in_element [OF t, of j k]
      by (auto simp: elems_def elem_def exch_bytes_def add.commute [of t])
    then show "elems sz (exch_bytes sz m (i * sz) (j * sz)) k ! t = exch i j (elems sz m) k ! t"
      using t by (auto simp: exch_def elems_def elem_def)
  qed (simp add: exch_def elems_def elem_def)
qed

lemma elements_disjoint:
  assumes "i \<noteq> (j :: nat)"
  shows "i * sz + sz \<le> j * sz \<or> j * sz + sz \<le> i * sz"
proof -
  have "Suc i \<le> j \<or> Suc j \<le> i" using assms by auto
  then show ?thesis using mult_le_mono1 [of "Suc i" j sz] mult_le_mono1 [of "Suc j" i sz] by auto
qed

lemma load_byte:
  assumes "i < 4"
  shows "ucast (drop_bit (8 * i) (load_u32 m a)) = m (a + i)"
proof -
  have "i = 0 \<or> i = 1 \<or> i = 2 \<or> i = 3" using assms by auto
  then show ?thesis by (elim disjE) (simp_all add: load_u32_def)
qed

lemma store_bytes:
  "store_u32 m a v x = (if a \<le> x \<and> x < a + 4 then ucast (drop_bit (8 * (x - a)) v) else m x)"
proof -
  consider "x = a" | "x = a + 1" | "x = a + 2" | "x = a + 3" | "\<not> (a \<le> x \<and> x < a + 4)" by linarith
  then show ?thesis
  proof cases
    case 5
    then have "x \<noteq> a" "x \<noteq> a + 1" "x \<noteq> a + 2" "x \<noteq> a + 3" by auto
    then show ?thesis using 5 by (simp only: store_u32_def fun_upd_apply if_False)
  qed (simp_all add: store_u32_def)
qed

lemma u32_swap_bytes:
  assumes "a + 4 \<le> b \<or> b + 4 \<le> a"
  shows "u32_swap m a b 4 = exch_bytes 4 m a b"
proof
  fix x
  consider (a) "a \<le> x" "x < a + 4" "\<not> (b \<le> x \<and> x < b + 4)" | (b) "b \<le> x" "x < b + 4" "\<not> (a \<le> x \<and> x < a + 4)"
    | (out) "\<not> (a \<le> x \<and> x < a + 4)" "\<not> (b \<le> x \<and> x < b + 4)"
    using assms by linarith
  then show "u32_swap m a b 4 x = exch_bytes 4 m a b x"
  proof cases
    case a
    then show ?thesis using load_byte [of "x - a" m b]
      by (auto simp: u32_swap_def store_bytes exch_bytes_def Let_def add.commute [of b])
  next
    case b
    then show ?thesis using load_byte [of "x - b" m a]
      by (auto simp: u32_swap_def store_bytes exch_bytes_def Let_def add.commute [of a])
  next
    case out
    then show ?thesis by (simp only: u32_swap_def store_bytes exch_bytes_def Let_def if_False)
  qed
qed

definition default_swap :: "nat \<Rightarrow> swap_fn" where
  "default_swap sz = (if sz = 4 then u32_swap else generic_swap)"

lemma default_swap_elems:
  assumes "0 < sz" "i \<noteq> j"
  shows "elems sz (default_swap sz m (i * sz) (j * sz) sz) = exch i j (elems sz m)"
proof -
  have "default_swap sz m (i * sz) (j * sz) sz = exch_bytes sz m (i * sz) (j * sz)"
    using u32_swap_bytes [of "i * sz" "j * sz" m] generic_swap_loop_eq [OF elements_disjoint [OF assms(2), of sz]]
      elements_disjoint [OF assms(2), of sz] assms(1)
    by (auto simp: default_swap_def generic_swap_def exch_bytes_def max_def)
  then show ?thesis by (simp add: exch_bytes_elems)
qed

interpretation u32: swapper u32_swap 4
  by unfold_locales (use default_swap_elems [of 4] in \<open>auto simp: default_swap_def\<close>)

lemma swapper_default: "0 < sz \<Longrightarrow> swapper (default_swap sz) sz"
  by unfold_locales (auto simp: default_swap_elems)

text \<open>C4: \<open>sort\<close> always returns, for every comparison function that is a total preorder and
  every swap function that exchanges two elements (the built-in byte-wise and 32-bit ones, taken
  when none is given, are shown to): its loops end, the elements of the array are afterwards a
  permutation of those before, in ascending order, and nothing beyond the array has been
  touched. The statement is about the bytes of the array and covers every element size.\<close>

theorem sort_sorts:
  assumes "0 < sz" "\<And>x y. cmp x y < 0 \<Longrightarrow> 0 \<le> cmp y x"
    "\<And>x y z. 0 \<le> cmp x y \<Longrightarrow> 0 \<le> cmp y z \<Longrightarrow> 0 \<le> cmp x z"
    "\<And>f m i j. swap_func = Some f \<Longrightarrow> i \<noteq> j \<Longrightarrow> elems sz (f m (i * sz) (j * sz) sz) = exch i j (elems sz m)"
  shows "\<exists>m'. sort m num sz cmp swap_func = Some m' \<and>
    mset (map (elems sz m') [0..<num]) = mset (map (elems sz m) [0..<num]) \<and>
    (\<forall>k\<ge>num. elems sz m' k = elems sz m k) \<and>
    (\<forall>i j. i < j \<longrightarrow> j < num \<longrightarrow> 0 \<le> cmp (elems sz m' j) (elems sz m' i))"
proof -
  define swp where "swp = (case swap_func of Some f \<Rightarrow> f | None \<Rightarrow> if sz = 4 then u32_swap else generic_swap)"
  have "swapper swp sz"
  proof (cases swap_func)
    case None
    then show ?thesis using swapper_default [OF assms(1)] by (simp add: swp_def default_swap_def)
  next
    case (Some f)
    then show ?thesis using assms(1,4) by unfold_locales (simp_all add: swp_def)
  qed
  then obtain m' where m: "sort m num sz cmp swap_func = Some m'"
      "elems sz m' = eextract cmp (eheapify cmp num (elems sz m) (num div 2)) (num - 1)"
    using swapper.sort_elems [OF _ swp_def] by blast
  have "comparison cmp" using assms(2,3) by unfold_locales
  note h = comparison.heapsort_sorts [OF this _ m(2)]
  show ?thesis
  proof (cases "num = 0")
    case True
    then show ?thesis using m by simp
  next
    case False
    then show ?thesis using h m(1) by blast
  qed
qed

theorem sort_sorts_witness:
  "\<exists>m'. sort (\<lambda>i. of_nat (24 - i)) 8 3 (\<lambda>x y. uint (x ! 0) - uint (y ! 0)) None = Some m' \<and>
    (\<forall>i j. i < j \<longrightarrow> j < 8 \<longrightarrow> uint (elems 3 m' i ! 0) \<le> uint (elems 3 m' j ! 0))"
proof -
  let ?m = "\<lambda>i. of_nat (24 - i) :: u8" and ?cmp = "\<lambda>x y :: u8 list. uint (x ! 0) - uint (y ! 0)"
  have "\<exists>m'. sort ?m 8 3 ?cmp None = Some m' \<and>
      mset (map (elems 3 m') [0..<8]) = mset (map (elems 3 ?m) [0..<8]) \<and>
      (\<forall>k\<ge>8. elems 3 m' k = elems 3 ?m k) \<and>
      (\<forall>i j. i < j \<longrightarrow> j < 8 \<longrightarrow> 0 \<le> ?cmp (elems 3 m' j) (elems 3 m' i))"
    by (rule sort_sorts) simp_all
  then show ?thesis by auto
qed

end
