(* ===== verification/ExTable.thy ===== *)
theory ExTable
  imports HeapSort
begin

text \<open>
  The exception tables of \<open>lib/extable.c\<close>: the comparison of entries, the sort of a table with
  \<open>lib/sort.c\<close> and the binary search, and the theorem that the search over the sorted table
  finds exactly the entries of the table.
\<close>

section \<open>Exception tables\<close>

text \<open>An entry is 8 bytes: the address of an instruction that may fault and the address of the
  code that repairs the fault.\<close>

definition ex_size :: nat where
  "ex_size = 8"

definition insn_of :: "u8 list \<Rightarrow> ulong" where
  "insn_of x = load_u32 (\<lambda>i. x ! i) 0"

definition cmp_ex :: "u8 list \<Rightarrow> u8 list \<Rightarrow> int" where
  "cmp_ex x y = (if insn_of x > insn_of y then 1 else if insn_of x < insn_of y then - 1 else 0)"

text \<open>The memory is the one at \<open>start\<close>, and \<open>n\<close> is \<open>finish - start\<close>.\<close>

definition sort_extable :: "mem \<Rightarrow> nat \<Rightarrow> mem option" where
  "sort_extable m n = sort m n ex_size cmp_ex None"

definition insn :: "mem \<Rightarrow> nat \<Rightarrow> ulong" where
  "insn m k = load_u32 m (k * ex_size)"

text \<open>Pointers to entries are indices; \<open>last\<close> may be one below the table.\<close>

function search_extable :: "mem \<Rightarrow> int \<Rightarrow> int \<Rightarrow> ulong \<Rightarrow> int option" where
  "search_extable m first lst val =
    (if first \<le> lst then
       let mid = (lst - first) div 2 + first
       in if insn m (nat mid) < val then search_extable m (mid + 1) lst val
          else if insn m (nat mid) > val then search_extable m first (mid - 1) val
          else Some mid
     else None)"
  by pat_completeness auto
termination
  by (relation "measure (\<lambda>(m, first, lst, val). nat (lst - first + 1))") auto

declare search_extable.simps [simp del]

interpretation ex: comparison cmp_ex
  by unfold_locales (auto simp: cmp_ex_def split: if_splits)

interpretation ex_swap: swapper generic_swap ex_size
  by unfold_locales (use default_swap_elems [of 8] in \<open>auto simp: default_swap_def ex_size_def\<close>)

lemma insn_elems: "insn_of (elems ex_size m k) = insn m k"
  by (simp add: insn_of_def insn_def elems_def elem_def load_u32_def ex_size_def)

lemma search_sorted:
  assumes "0 \<le> first" "\<forall>i j. i < j \<longrightarrow> j < n \<longrightarrow> insn m i \<le> insn m j" "lst < int n"
  shows "case search_extable m first lst val of
      Some mid \<Rightarrow> first \<le> mid \<and> mid \<le> lst \<and> insn m (nat mid) = val
    | None \<Rightarrow> \<forall>k. first \<le> int k \<longrightarrow> int k \<le> lst \<longrightarrow> insn m k \<noteq> val"
  using assms
proof (induction m first lst val rule: search_extable.induct)
  case (1 m first lst val)
  let ?mid = "(lst - first) div 2 + first"
  show ?case
  proof (cases "first \<le> lst")
    case True
    then have mid: "first \<le> ?mid" "?mid \<le> lst" "0 \<le> ?mid" using "1.prems"(1) by auto
    consider "insn m (nat ?mid) < val" | "insn m (nat ?mid) > val" | "insn m (nat ?mid) = val" by force
    then show ?thesis
    proof cases
      case 1
      have lo: "insn m k \<noteq> val" if "int k \<le> ?mid" for k
      proof -
        have "insn m k \<le> insn m (nat ?mid)"
          using that "1.prems" mid by (cases "k = nat ?mid") auto
        then show ?thesis using 1 by auto
      qed
      have "search_extable m first lst val = search_extable m (?mid + 1) lst val"
        using 1 True by (subst search_extable.simps) (simp add: Let_def)
      moreover have "case search_extable m (?mid + 1) lst val of
          Some i \<Rightarrow> ?mid + 1 \<le> i \<and> i \<le> lst \<and> insn m (nat i) = val
        | None \<Rightarrow> \<forall>k. ?mid + 1 \<le> int k \<longrightarrow> int k \<le> lst \<longrightarrow> insn m k \<noteq> val"
        using "1.IH"(1) [OF True refl 1] "1.prems" mid by auto
      ultimately show ?thesis using mid lo
        by (cases "search_extable m (?mid + 1) lst val") (auto, metis not_le zless_imp_add1_zle)
    next
      case 2
      have hi: "insn m k \<noteq> val" if "?mid \<le> int k" "int k \<le> lst" for k
      proof -
        have "insn m (nat ?mid) \<le> insn m k"
          using that "1.prems" mid by (cases "k = nat ?mid") auto
        then show ?thesis using 2 by auto
      qed
      have "search_extable m first lst val = search_extable m first (?mid - 1) val"
        using less_not_sym [OF 2] 2 True by (subst search_extable.simps) (simp add: Let_def)
      moreover have "case search_extable m first (?mid - 1) val of
          Some i \<Rightarrow> first \<le> i \<and> i \<le> ?mid - 1 \<and> insn m (nat i) = val
        | None \<Rightarrow> \<forall>k. first \<le> int k \<longrightarrow> int k \<le> ?mid - 1 \<longrightarrow> insn m k \<noteq> val"
        using "1.IH"(2) [OF True refl _ 2] less_not_sym [OF 2] "1.prems" mid by auto
      ultimately show ?thesis using mid hi
        by (cases "search_extable m first (?mid - 1) val") (auto, metis not_le zle_diff1_eq)
    next
      case 3
      then show ?thesis using mid True by (subst search_extable.simps) (simp add: Let_def)
    qed
  qed (subst search_extable.simps, simp)
qed


text \<open>C5: An exception handler finds its fixup. For every exception table, \<open>sort_extable\<close>
  returns, and the binary search of \<open>search_extable\<close> over the sorted table returns an entry for
  an instruction address exactly when the unsorted table had one; the entry that it returns is
  inside the table, has that address and is one of the original entries, with its fixup.\<close>

theorem search_after_sort:
  "\<exists>m'. sort_extable m n = Some m' \<and>
    (case search_extable m' 0 (int n - 1) val of
       Some mid \<Rightarrow> 0 \<le> mid \<and> nat mid < n \<and> insn m' (nat mid) = val \<and>
         (\<exists>k<n. elems ex_size m' (nat mid) = elems ex_size m k \<and> insn m k = val)
     | None \<Rightarrow> \<forall>k<n. insn m k \<noteq> val)"
proof -
  obtain m' where m: "sort_extable m n = Some m'"
      "elems ex_size m' = eextract cmp_ex (eheapify cmp_ex n (elems ex_size m) (n div 2)) (n - 1)"
    using ex_swap.sort_elems [of None m n cmp_ex] by (auto simp: sort_extable_def ex_size_def)
  have img: "elems ex_size m' ` {..<n} = elems ex_size m ` {..<n}"
    using ex.heapsort_sorts(1,2) [OF _ m(2)]
    by (cases "n = 0") (auto intro!: permutes_below_set simp: permutes_below_def simp del: mset_map)
  have "insn m' i \<le> insn m' j" if "i < j" "j < n" for i j
    using ex.heapsort_sorts(3) [OF _ m(2) that] that
    by (simp add: cmp_ex_def insn_elems not_less split: if_splits)
  then have mono: "\<forall>i j. i < j \<longrightarrow> j < n \<longrightarrow> insn m' i \<le> insn m' j" by blast
  have "(0 :: int) \<le> 0" "int n - 1 < int n" by simp_all
  from search_sorted [OF this(1) mono this(2)] have s: "case search_extable m' 0 (int n - 1) val of
      Some mid \<Rightarrow> 0 \<le> mid \<and> mid \<le> int n - 1 \<and> insn m' (nat mid) = val
    | None \<Rightarrow> \<forall>k. 0 \<le> int k \<longrightarrow> int k \<le> int n - 1 \<longrightarrow> insn m' k \<noteq> val"
    .
  show ?thesis
  proof (cases "search_extable m' 0 (int n - 1) val")
    case None
    have "insn m k \<noteq> val" if "k < n" for k
    proof -
      have "elems ex_size m k \<in> elems ex_size m' ` {..<n}" unfolding img using that by simp
      then obtain i where i: "i < n" "elems ex_size m k = elems ex_size m' i" by auto
      then have "insn m k = insn m' i" using insn_elems [of m k] insn_elems [of m' i] by simp
      then show ?thesis using s None i(1) by simp
    qed
    then show ?thesis using m None by auto
  next
    case (Some mid)
    then have mid: "0 \<le> mid" "nat mid < n" "insn m' (nat mid) = val" using s by auto
    then have "elems ex_size m' (nat mid) \<in> elems ex_size m ` {..<n}" unfolding img [symmetric] by simp
    then obtain k where k: "k < n" "elems ex_size m' (nat mid) = elems ex_size m k" by auto
    then have "insn m k = val" using mid(3) insn_elems [of m k] insn_elems [of m' "nat mid"] by simp
    then show ?thesis using m Some mid k by auto
  qed
qed

theorem search_after_sort_witness:
  "\<exists>m' mid. sort_extable (\<lambda>i. of_nat (24 - i)) 3 = Some m' \<and>
    search_extable m' 0 2 0x0d0e0f10 = Some mid \<and> insn m' (nat mid) = 0x0d0e0f10"
proof -
  let ?m = "\<lambda>i. of_nat (24 - i) :: u8"
  have v: "insn ?m 1 = 0x0d0e0f10"
    by (simp add: insn_def ex_size_def load_u32_def w32_def)
  obtain m' where m: "sort_extable ?m 3 = Some m'"
      "case search_extable m' 0 (int 3 - 1) 0x0d0e0f10 of
         Some mid \<Rightarrow> 0 \<le> mid \<and> nat mid < 3 \<and> insn m' (nat mid) = 0x0d0e0f10 \<and>
           (\<exists>k<3. elems ex_size m' (nat mid) = elems ex_size ?m k \<and> insn ?m k = 0x0d0e0f10)
       | None \<Rightarrow> \<forall>k<3. insn ?m k \<noteq> 0x0d0e0f10"
    using search_after_sort [of ?m 3 "0x0d0e0f10"] by blast
  then show ?thesis using v by (cases "search_extable m' 0 2 0x0d0e0f10") auto
qed

end
