(* ===== verification/Spec2Isabelle.thy ===== *)
theory Spec2Isabelle
  imports BitmapRegion BitmapInline Kfifo Tea Blowfish Fcrypt Seed Sha512 Sha1 MdHash
    Semaphore Lmb ExTable
begin

text \<open>
  Library code of the Linux 2.6.29 kernel of the Sony Ericsson Xperia X10 (sources under
  \<open>src/kernel/\<close>), for the 32-bit little-endian configuration of the phone: bitmaps and bit
  operations, the byte FIFO, the counting semaphore, the early memory allocator, sorting and
  exception tables, and the data paths of the crypto layer.

  \<^bold>\<open>How the parts interact.\<close> The bit operations are the ground of the bit searches, both of the
  bitmaps, and the bitmaps of the region allocator. The FIFO takes its masking from the powers of
  two. The exception tables sort with \<open>lib/sort.c\<close>. The block modes run over any block cipher,
  and the ciphers TEA, Blowfish, fcrypt and SEED are instances; the hashes share the buffering
  scheme of a block, a byte or bit counter and a padded last block. Where one part relies on
  another, a locale states the contract and is interpreted on the model of the code:
  \<open>bit_search\<close> (FindBit), \<open>byte_fifo\<close> (Kfifo), \<open>block_cipher\<close> (CryptoBytes, interpreted by the
  four cipher theories), \<open>stream_update\<close> and \<open>stream_hash\<close> (HashStream, interpreted by the
  hash theories), \<open>comparison\<close> and \<open>swapper\<close> (HeapSort, interpreted by HeapSort and ExTable).

  \<^bold>\<open>The theories.\<close>
  \<^item> KPrelude: C types, error codes, shared facts and the conventions of the translation.
  \<^item> BitOps: \<open>include/asm-generic/bitops/\<close>, \<open>include/linux/bitops.h\<close>, \<open>lib/hweight.c\<close>. The
    single-bit updates, \<open>__ffs\<close>, \<open>__fls\<close>, \<open>ffs\<close>, \<open>fls\<close>, \<open>ffz\<close> and the Hamming weights, proved
    against the positions of the set bits.
  \<^item> FindBit: \<open>lib/find_next_bit.c\<close>, \<open>lib/find_last_bit.c\<close>. Each search equals a linear
    reference search; \<open>for_each_bit\<close> ends.
  \<^item> Bitmap, BitmapInline, BitmapMap, BitmapRegion: \<open>lib/bitmap.c\<close> and
    \<open>include/linux/bitmap.h\<close>. The Boolean operations and tests refine sets of positions, the
    shifts move every bit also in place, the inline versions agree with the library ones,
    \<open>bitmap_remap\<close>, \<open>bitmap_onto\<close> and \<open>bitmap_fold\<close> are the documented maps of positions, and
    the region allocator finds the first free aligned region or reports that there is none.
  \<^item> Log2, Kfifo: \<open>include/linux/log2.h\<close>, \<open>kernel/kfifo.c\<close>, \<open>include/linux/kfifo.h\<close>. The state is
    the record of the buffer, its size and the two free-running 32-bit indices; put and get
    refine a list of bytes across index wrap-around, and the lock-free protocol between one
    producer and one consumer, as a step relation over the phases of both routines, never
    loses, repeats or tears a byte.
  \<^item> Semaphore: \<open>kernel/semaphore.c\<close>, with \<open>signal_pending_state\<close> and the return value of
    \<open>schedule_timeout\<close>. A step is one critical section of the spinlock; the system refines an
    abstract semaphore with a queue, from which conservation of units and service in the order
    of arrival follow.
  \<^item> Lmb: \<open>lib/lmb.c\<close>. The state is the record of the two tables; a table stands for a set of
    addresses. Adding, removing and allocating are exact on these sets, the scans of the
    allocator end for all arguments, and three boundary cases are shown to go wrong.
  \<^item> HeapSort, ExTable: \<open>lib/sort.c\<close> on the bytes of the array, \<open>lib/extable.c\<close>. The sort
    returns, orders and permutes; the binary search over a sorted table finds exactly the entries.
  \<^item> CryptoBytes, CryptoModes: byte order, \<open>crypto/algapi.c\<close> (\<open>crypto_inc\<close>, \<open>crypto_xor\<close>),
    \<open>crypto/ecb.c\<close>, \<open>crypto/cbc.c\<close>, \<open>crypto/pcbc.c\<close>, \<open>crypto/ctr.c\<close>, each routine between two
    buffers and in place; all agree with one recursive definition of the mode and invert.
  \<^item> Tea, Blowfish, Fcrypt, Seed: \<open>crypto/tea.c\<close>, \<open>crypto/blowfish.c\<close>, \<open>crypto/fcrypt.c\<close>,
    \<open>crypto/seed.c\<close>, with their tables and key schedules. Decryption inverts encryption; the two
    key schedules of fcrypt agree; the table indexes of Blowfish stay in bounds.
  \<^item> HashStream, Sha2, Sha256, Sha512, Sha1, MdHash: \<open>crypto/sha256_generic.c\<close>,
    \<open>crypto/sha512_generic.c\<close>, \<open>lib/sha1.c\<close> with \<open>crypto/sha1_generic.c\<close>, \<open>crypto/md4.c\<close>,
    \<open>crypto/md5.c\<close>. However a message is cut into updates, the digest is that of the standard
    (FIPS 180, RFC 1320, RFC 1321), written out as a reference definition: the unrolled rounds
    equal the indexed rounds of the standard and the buffering equals padding the whole message.
  \<^item> This theory: the block modes over every block cipher, and the round trips of the ciphers.

  \<^bold>\<open>Bounds and loops.\<close> Loops with a decreasing measure are functions with a termination proof.
  Loops whose end depends on the data are partial functions into \<open>option\<close> (\<open>for_blocks\<close> of the
  hashes; \<open>sift\<close>, \<open>heapify\<close> and \<open>extract_max\<close> of the sort) and the theorems state that they
  return \<open>Some\<close>; no fuel is used. \<open>lmb_nid_loop\<close> may run for ever when the caller's function
  makes no progress, and no theorem says otherwise. The SHA-2 theorems ask for pieces
  shorter than \<open>2 ^ 29\<close> bytes and the SHA-1 theorem for pieces below \<open>2 ^ 32 - 64\<close>, because the
  code miscounts longer ones (see \<open>sha256_counter_loses_bits\<close> and \<open>sha1_length_wraps\<close>). The
  blocks of Lmb end below \<open>2 ^ 64\<close>. The unit count of a semaphore has to fit 32 bits. The offsets
  of the sort are unbounded integers, which agrees with the code for arrays below 2 GB.

  \<^bold>\<open>Not modelled.\<close>
  \<^item> Of the modelled files: printing, module and algorithm registration, allocation and release
    of memory (an allocation is an argument that says whether it succeeds), the formatting and
    parsing of bitmaps as text, which goes through user space copies, and compiler barriers,
    whose effect is the granularity of the steps of the FIFO.
  \<^item> The scatterlist walk of \<open>crypto/blkcipher.c\<close>: the block modes take the list of segments it
    delivers, each in place or not. \<open>LMB_REAL_LIMIT\<close> and the callback of \<open>lmb_alloc_nid\<close> are
    arguments, as are the comparison and swap functions of \<open>sort\<close>.
  \<^item> The assembly versions of the bit operations for ARM; the generic C versions are modelled.
  \<^item> The rest of the kernel: architecture code, drivers, file systems, networking, scheduler,
    memory management, IPC, security and sound. Their behaviour is that of hardware, of the
    memory model of the processor, or of large shared structures under several locks; no part
    of them is stubbed here, since nothing modelled calls into them except as described above.
\<close>

section \<open>Block modes over block ciphers\<close>





text \<open>
  C25: counter mode is its own inverse: encrypting the output again with the same initial
  counter gives the message back, for any cut into segments of whole blocks, each in place or
  not, and a final partial block.
\<close>
theorem ctr_involution:
  assumes "block_cipher n enc dec" "length iv = n" "segs_ok n segs" "segs_ok n segs'" "length fin < n"
    "crypto_ctr_crypt enc n iv segs fin = (out, iv')"
    "concat (map snd segs') @ fin' = out" "length fin' = length fin"
  shows "crypto_ctr_crypt enc n iv segs' fin' = (concat (map snd segs) @ fin, iv')"
proof -
  let ?walk = "walk_segments (crypto_ctr_crypt_inplace enc n)
    (\<lambda>iv src. crypto_ctr_crypt_segment enc n iv src (length src)) iv"
  obtain o1 i1 where w: "?walk segs = (o1, i1)" by (cases "?walk segs")
  note ok = block_cipher.ctr_inplace_impl [OF assms(1)] block_cipher.ctr_segment_impl [OF assms(1)]
    block_cipher.enc_ok(6) [OF assms(1)] block_cipher.bs_pos [OF assms(1)]
  obtain d i2 where f: "crypto_ctr_crypt_final enc n i1 fin = (d, i2)" by (cases "crypto_ctr_crypt_final enc n i1 fin")
  have i1: "length i1 = n"
    using walk_state [OF ok assms(2,3)] w by simp
  note fi = block_cipher.ctr_final_inverse [OF assms(1) i1 less_imp_le [OF assms(5)] f]
  have out: "out = o1 @ (if fin = [] then [] else d)" "iv' = (if fin = [] then i1 else i2)"
    using assms(6) w f by (auto simp: crypto_ctr_crypt_def split: if_splits)
  then have "concat (map snd segs') = o1" "fin' = (if fin = [] then [] else d)"
    using assms(7,8) fi(2) by (auto split: if_splits)
  moreover from this have "?walk segs' = (concat (map snd segs), i1)"
    using block_cipher.ctr_inverse(1) [OF assms(1-4) w] by simp
  ultimately show ?thesis using fi out assms(8) by (auto simp: crypto_ctr_crypt_def)
qed

theorem ctr_involution_witness:
  "\<exists>out iv'. crypto_ctr_crypt (tea_encrypt (tea_setkey (replicate 16 3))) 8 (replicate 8 0xff) [] [1, 2, 3] = (out, iv') \<and>
     crypto_ctr_crypt (tea_encrypt (tea_setkey (replicate 16 3))) 8 (replicate 8 0xff) [] out = ([1, 2, 3], iv')"
proof -
  let ?k = "tea_setkey (replicate 16 3)" and ?iv = "replicate 8 (0xff :: u8)"
  obtain out iv' where e: "crypto_ctr_crypt (tea_encrypt ?k) 8 ?iv [] [1, 2, 3] = (out, iv')"
    by (cases "crypto_ctr_crypt (tea_encrypt ?k) 8 ?iv [] [1, 2, 3]")
  then have f: "crypto_ctr_crypt_final (tea_encrypt ?k) 8 ?iv [1, 2, 3] = (out, iv')"
    by (simp add: crypto_ctr_crypt_def walk_segments_def split: prod.splits)
  have "length out = length [1, 2, 3 :: u8]"
    by (rule tea.ctr_final_inverse(2) [OF _ _ f]) simp_all
  then have "crypto_ctr_crypt (tea_encrypt ?k) 8 ?iv [] out = ([1, 2, 3], iv')"
    using ctr_involution [OF tea.block_cipher_axioms _ _ _ _ e, where segs' = "[]" and fin' = out]
    by (simp add: segs_ok_def)
  with e show ?thesis by simp
qed

text \<open>
  C38: decryption undoes encryption and encryption undoes decryption, on every block and for
  every key schedule, for Blowfish (whose decryption runs the same rounds with the subkeys in
  reverse) and fcrypt on 8-byte blocks and for SEED on 16-byte blocks.
\<close>
theorem block_ciphers_roundtrip:
  assumes "length p = 8" "length q = 16"
  shows "bf_decrypt bctx (bf_encrypt bctx p) = p \<and> bf_encrypt bctx (bf_decrypt bctx p) = p \<and>
    fcrypt_decrypt fctx (fcrypt_encrypt fctx p) = p \<and> fcrypt_encrypt fctx (fcrypt_decrypt fctx p) = p \<and>
    seed_decrypt sctx (seed_encrypt sctx q) = q \<and> seed_encrypt sctx (seed_decrypt sctx q) = q"
  using bf_inverse [OF assms(1)] fcrypt_inverse [OF assms(1)] seed_inverse [OF assms(2)] by simp

theorem block_ciphers_roundtrip_witness:
  "bf_decrypt (bf_setkey [1, 2, 3, 4]) (bf_encrypt (bf_setkey [1, 2, 3, 4]) (replicate 8 5)) = replicate 8 5 \<and>
   seed_decrypt (seed_set_key (replicate 16 1)) (seed_encrypt (seed_set_key (replicate 16 1)) (replicate 16 5)) =
     replicate 16 5"
  using block_ciphers_roundtrip [of "replicate 8 5" "replicate 16 5"] by simp

end
